(* ===== verification/Prelude.thy ===== *)
theory Prelude
  imports Main "HOL-Library.Word"
begin

text \<open>
  Shared vocabulary of the development: the widths of the C integer types of
  \<^verbatim>\<open>src/types.h\<close>, the outcome of a kernel routine (it returns, it calls
  \<^verbatim>\<open>panic\<close>, it dereferences a null pointer, or it never returns), its sequencing
  operator with the rules the component proofs use, and generic lemmas on lists,
  functions and words.
\<close>

unbundle bit_operations_syntax

section \<open>Integers\<close>

type_synonym uchar = "8 word"
type_synonym ushort = "16 word"
type_synonym uint32 = "32 word"

text \<open>A pointer into a table of structures: \<^term>\<open>None\<close> is the null pointer,
  \<^term>\<open>Some i\<close> the address of slot \<^term>\<open>i\<close>.\<close>

type_synonym ptr = "nat option"

section \<open>Outcomes of kernel routines\<close>

text \<open>
  \<^item> \<open>Ok x\<close>: the routine returns with value (or state) \<open>x\<close>.
  \<^item> \<open>Panic m\<close>: it calls \<^verbatim>\<open>panic(m)\<close>, which never returns.
  \<^item> \<open>Fault\<close>: it dereferences a null pointer or leaves an array, which C leaves undefined.
  \<^item> \<open>Spin\<close>: it never returns from the state it runs in: it waits for a lock that
    another CPU holds, or follows a cyclic list.
\<close>

datatype 'a outcome = Ok 'a | Panic string | Fault | Spin

named_theorems outcome_simps \<open>rules that evaluate a sequence of kernel calls\<close>

definition bnd :: "'a outcome \<Rightarrow> ('a \<Rightarrow> 'b outcome) \<Rightarrow> 'b outcome" where
  "bnd m f = (case m of Ok x \<Rightarrow> f x | Panic e \<Rightarrow> Panic e | Fault \<Rightarrow> Fault | Spin \<Rightarrow> Spin)"

lemma bnd_simps [simp, outcome_simps]:
  "bnd (Ok x) f = f x"
  "bnd (Panic e) f = Panic e"
  "bnd Fault f = Fault"
  "bnd Spin f = Spin"
  by (simp_all add: bnd_def)

lemma bnd_eq_Ok_iff: "bnd m f = Ok y \<longleftrightarrow> (\<exists>x. m = Ok x \<and> f x = Ok y)"
  by (cases m) auto

lemma bnd_OkE:
  assumes "bnd m f = Ok y"
  obtains x where "m = Ok x" and "f x = Ok y"
  using assms by (auto simp: bnd_eq_Ok_iff)

lemma bnd_assoc: "bnd (bnd m f) g = bnd m (\<lambda>x. bnd (f x) g)"
  by (cases m) auto

lemma bnd_cong [fundef_cong]:
  assumes "m = m'" and "\<And>x. m' = Ok x \<Longrightarrow> f x = f' x"
  shows "bnd m f = bnd m' f'"
  using assms by (cases m') auto

definition deref :: "ptr \<Rightarrow> nat outcome" where
  "deref p = (case p of None \<Rightarrow> Fault | Some i \<Rightarrow> Ok i)"

lemma deref_simps [simp, outcome_simps]: "deref None = Fault" "deref (Some i) = Ok i"
  by (simp_all add: deref_def)

text \<open>A counted loop: the body runs for each element in turn, and stops with the first outcome
  that is not \<open>Ok\<close>.\<close>

fun for_each :: "('i \<Rightarrow> 's \<Rightarrow> 's outcome) \<Rightarrow> 'i list \<Rightarrow> 's \<Rightarrow> 's outcome" where
  "for_each f [] s = Ok s"
| "for_each f (i # is) s = bnd (f i s) (for_each f is)"

lemma for_each_append: "for_each f (xs @ ys) s = bnd (for_each f xs s) (for_each f ys)"
  by (induction xs arbitrary: s) (auto simp: bnd_assoc intro!: bnd_cong)

lemma for_each_fold:
  assumes "\<And>i s. i \<in> set is \<Longrightarrow> f i s = Ok (g i s)"
  shows "for_each f is s = Ok (fold g is s)"
  using assms by (induction "is" arbitrary: s) auto

lemma for_each_inv:
  assumes "I s" and "\<And>i s. i \<in> set is \<Longrightarrow> I s \<Longrightarrow> \<exists>t. f i s = Ok t \<and> I t"
  shows "\<exists>t. for_each f is s = Ok t \<and> I t"
  using assms
proof (induction "is" arbitrary: s)
  case (Cons i "is")
  then obtain t where "f i s = Ok t" "I t" by force
  with Cons show ?case by force
qed simp

lemma for_each_const:
  assumes "\<And>i. i \<in> set is \<Longrightarrow> f i s = Ok s"
  shows "for_each f is s = Ok s"
  using assms by (induction "is") auto

section \<open>Lists\<close>

lemma remove1_append_notin: "x \<notin> set xs \<Longrightarrow> remove1 x (xs @ x # ys) = xs @ ys"
  by (induction xs) auto

lemma set_remove1_distinct: "distinct xs \<Longrightarrow> set (remove1 x xs) = set xs - {x}"
  by (rule set_remove1_eq)

lemma split_list_first_pred:
  assumes "\<exists>x \<in> set xs. P x"
  obtains ys x zs where "xs = ys @ x # zs" and "P x" and "\<forall>y \<in> set ys. \<not> P y"
  using split_list_first_prop [OF assms] by blast

lemma distinct_length_le_card:
  assumes "distinct xs" and "set xs \<subseteq> {..<n}"
  shows "length xs \<le> n"
  using assms by (metis card_lessThan card_mono distinct_card finite_lessThan)

section \<open>Words\<close>

lemma unat_le_iff: "unat a \<le> unat b \<longleftrightarrow> a \<le> b"
  by (simp add: word_le_nat_alt)

lemma unat_diff_no_wrap:
  fixes a b :: "'a::len word"
  assumes "b \<le> a"
  shows "unat (a - b) = unat a - unat b"
  using assms by (rule unat_sub)

lemma unat_diff_wrap:
  fixes a b :: uint32
  assumes "a < b"
  shows "unat (a - b) = 4294967296 + unat a - unat b"
proof -
  have ab: "uint a < uint b" using assms by (simp add: word_less_def)
  have b: "uint b < 4294967296" using uint_lt2p [of b] by simp
  have "uint (a - b) = (uint a - uint b) mod 4294967296"
    by (simp add: uint_word_ariths)
  also have "\<dots> = (uint a - uint b + 4294967296) mod 4294967296" by simp
  also have "\<dots> = uint a - uint b + 4294967296"
    using ab b uint_ge_0 [of a] by (intro mod_pos_pos_trivial) linarith+
  finally have "int (unat (a - b)) = int (unat a) - int (unat b) + 4294967296" by simp
  then show ?thesis by linarith
qed

lemma unat_lt32: "unat (w :: uint32) < 4294967296"
  using unsigned_less [of w] by simp

lemma unat_add_no_wrap:
  fixes a b :: uint32
  assumes "unat a + unat b < 4294967296"
  shows "unat (a + b) = unat a + unat b"
  using assms by (simp add: unat_word_ariths)

lemma unat_of_nat32: "n < 4294967296 \<Longrightarrow> unat (of_nat n :: uint32) = n"
  by (simp add: unat_of_nat)

end
