(* ===== verification/Spinlock.thy ===== *)
theory Spinlock
  imports Prelude
begin

text \<open>
  \<^verbatim>\<open>src/spinlock.c\<close>: the mutual-exclusion locks and the per-CPU interrupt nesting
  they rest on. The state of a CPU (\<^verbatim>\<open>struct cpu\<close> of \<^verbatim>\<open>src/proc.h\<close> together with the
  interrupt flag of its \<^verbatim>\<open>eflags\<close>) and of the kernel's locks is a record that the later
  components extend. A routine that runs on CPU \<open>c\<close> takes \<open>c\<close> as its first argument, where
  the C code reads the per-CPU variable \<^verbatim>\<open>cpu\<close>. The debugging call stack
  (\<^verbatim>\<open>lk->pcs\<close>) is left out of the lock; \<^verbatim>\<open>getcallerpcs\<close> that fills it is modelled on
  its own. The interface the other components rely on is the locale \<open>mutex\<close>; the last
  section models the interleaving of \<^verbatim>\<open>acquire\<close> and \<^verbatim>\<open>release\<close> on several CPUs
  instruction by instruction and shows mutual exclusion for every reachable state.
\<close>

section \<open>State\<close>

text \<open>The spin locks of the kernel, by the address of the \<^verbatim>\<open>struct spinlock\<close>.\<close>

datatype lockid = Lk_ptable | Lk_kmem | Lk_cons | Lk_bcache | Lk_icache | Lk_ftable
  | Lk_log | Lk_ide | Lk_pipe nat

record spinlock =
  locked :: uint32
  lk_name :: string
  lk_cpu :: "nat option"

record cpu =
  c_id :: uchar
  c_ncli :: int
  c_intena :: bool
  c_if :: bool
  c_proc :: ptr
  c_cr3 :: uint32
  c_esp0 :: uint32

record hw =
  locks :: "lockid \<Rightarrow> spinlock"
  cpus :: "nat \<Rightarrow> cpu"

definition upd_cpu :: "nat \<Rightarrow> (cpu \<Rightarrow> cpu) \<Rightarrow> 'a hw_scheme \<Rightarrow> 'a hw_scheme" where
  "upd_cpu c f s = s\<lparr>cpus := (cpus s)(c := f (cpus s c))\<rparr>"

definition upd_lock :: "lockid \<Rightarrow> (spinlock \<Rightarrow> spinlock) \<Rightarrow> 'a hw_scheme \<Rightarrow> 'a hw_scheme" where
  "upd_lock l f s = s\<lparr>locks := (locks s)(l := f (locks s l))\<rparr>"

lemma upd_cpu_sel [simp]:
  "locks (upd_cpu c f s) = locks s"
  "cpus (upd_cpu c f s) = (cpus s)(c := f (cpus s c))"
  by (simp_all add: upd_cpu_def)

lemma upd_lock_sel [simp]:
  "locks (upd_lock l f s) = (locks s)(l := f (locks s l))"
  "cpus (upd_lock l f s) = cpus s"
  by (simp_all add: upd_lock_def)

section \<open>Operations\<close>

definition cli :: "nat \<Rightarrow> 'a hw_scheme \<Rightarrow> 'a hw_scheme" where
  "cli c s = upd_cpu c (\<lambda>r. r\<lparr>c_if := False\<rparr>) s"

definition sti :: "nat \<Rightarrow> 'a hw_scheme \<Rightarrow> 'a hw_scheme" where
  "sti c s = upd_cpu c (\<lambda>r. r\<lparr>c_if := True\<rparr>) s"

definition initlock :: "lockid \<Rightarrow> string \<Rightarrow> 'a hw_scheme \<Rightarrow> 'a hw_scheme" where
  "initlock l nm s = upd_lock l (\<lambda>k. k\<lparr>lk_name := nm, locked := 0, lk_cpu := None\<rparr>) s"

definition holding :: "nat \<Rightarrow> lockid \<Rightarrow> 'a hw_scheme \<Rightarrow> bool" where
  "holding c l s \<longleftrightarrow> locked (locks s l) \<noteq> 0 \<and> lk_cpu (locks s l) = Some c"

definition pushcli :: "nat \<Rightarrow> 'a hw_scheme \<Rightarrow> 'a hw_scheme" where
  "pushcli c s =
     (let eflags_if = c_if (cpus s c);
          s = cli c s;
          n = c_ncli (cpus s c);
          s = upd_cpu c (\<lambda>r. r\<lparr>c_ncli := n + 1\<rparr>) s
      in if n = 0 then upd_cpu c (\<lambda>r. r\<lparr>c_intena := eflags_if\<rparr>) s else s)"

definition popcli :: "nat \<Rightarrow> 'a hw_scheme \<Rightarrow> 'a hw_scheme outcome" where
  "popcli c s =
     (if c_if (cpus s c) then Panic ''popcli - interruptible''
      else
        let s = upd_cpu c (\<lambda>r. r\<lparr>c_ncli := c_ncli r - 1\<rparr>) s
        in if c_ncli (cpus s c) < 0 then Panic ''popcli''
           else if c_ncli (cpus s c) = 0 \<and> c_intena (cpus s c) then Ok (sti c s)
           else Ok s)"

text \<open>
  The loop \<^verbatim>\<open>while(xchg(&lk->locked, 1) != 0)\<close> returns in this state exactly when the lock
  is free; otherwise the CPU spins until another CPU releases it.
\<close>

definition acquire :: "nat \<Rightarrow> lockid \<Rightarrow> 'a hw_scheme \<Rightarrow> 'a hw_scheme outcome" where
  "acquire c l s =
     (let s = pushcli c s
      in if holding c l s then Panic ''acquire''
         else if locked (locks s l) \<noteq> 0 then Spin
         else Ok (upd_lock l (\<lambda>k. k\<lparr>locked := 1, lk_cpu := Some c\<rparr>) s))"

definition release :: "nat \<Rightarrow> lockid \<Rightarrow> 'a hw_scheme \<Rightarrow> 'a hw_scheme outcome" where
  "release c l s =
     (if \<not> holding c l s then Panic ''release''
      else popcli c (upd_lock l (\<lambda>k. k\<lparr>lk_cpu := None, locked := 0\<rparr>) s))"

text \<open>
  \<^verbatim>\<open>getcallerpcs\<close> over the words of kernel memory: \<open>ebp\<close> is the frame pointer
  \<^verbatim>\<open>(uint*)v - 2\<close>, and \<open>n\<close> counts the ten slots of \<^verbatim>\<open>pcs\<close> down.
\<close>

definition KERNBASE :: uint32 where "KERNBASE = 0x80000000"

fun getcallerpcs_from :: "(uint32 \<Rightarrow> uint32) \<Rightarrow> uint32 \<Rightarrow> nat \<Rightarrow> uint32 list" where
  "getcallerpcs_from rd ebp 0 = []"
| "getcallerpcs_from rd ebp (Suc n) =
     (if ebp = 0 \<or> ebp < KERNBASE \<or> ebp = 0xffffffff then replicate (Suc n) 0
      else rd (ebp + 4) # getcallerpcs_from rd (rd ebp) n)"

definition getcallerpcs :: "(uint32 \<Rightarrow> uint32) \<Rightarrow> uint32 \<Rightarrow> uint32 list" where
  "getcallerpcs rd v = getcallerpcs_from rd (v - 8) 10"

lemma getcallerpcs_length: "length (getcallerpcs_from rd ebp n) = n"
  by (induction n arbitrary: ebp) simp_all

section \<open>Sequential behaviour\<close>

text \<open>Interrupts are consistent with the nesting depth: inside \<^verbatim>\<open>pushcli\<close> they are off.\<close>

definition irq_ok :: "cpu \<Rightarrow> bool" where
  "irq_ok r \<longleftrightarrow> 0 \<le> c_ncli r \<and> (0 < c_ncli r \<longrightarrow> \<not> c_if r)"

definition lock_free :: "lockid \<Rightarrow> 'a hw_scheme \<Rightarrow> bool" where
  "lock_free l s \<longleftrightarrow> locked (locks s l) = 0 \<and> lk_cpu (locks s l) = None"

text \<open>The CPU record after \<^verbatim>\<open>pushcli\<close>, and the state after a successful \<^verbatim>\<open>acquire\<close>.\<close>

definition pushed :: "cpu \<Rightarrow> cpu" where
  "pushed r = r\<lparr>c_if := False, c_ncli := c_ncli r + 1,
     c_intena := (if c_ncli r = 0 then c_if r else c_intena r)\<rparr>"

definition popped :: "cpu \<Rightarrow> cpu" where
  "popped r = (let r' = r\<lparr>c_ncli := c_ncli r - 1\<rparr>
     in if c_ncli r = 1 \<and> c_intena r then r'\<lparr>c_if := True\<rparr> else r')"

definition locked_by :: "nat \<Rightarrow> lockid \<Rightarrow> 'a hw_scheme \<Rightarrow> 'a hw_scheme" where
  "locked_by c l s = s\<lparr>locks := (locks s)(l := (locks s l)\<lparr>locked := 1, lk_cpu := Some c\<rparr>),
     cpus := (cpus s)(c := pushed (cpus s c))\<rparr>"

definition unlocked_by :: "nat \<Rightarrow> lockid \<Rightarrow> 'a hw_scheme \<Rightarrow> 'a hw_scheme" where
  "unlocked_by c l s = s\<lparr>locks := (locks s)(l := (locks s l)\<lparr>lk_cpu := None, locked := 0\<rparr>),
     cpus := (cpus s)(c := popped (cpus s c))\<rparr>"

lemma pushcli_eq: "pushcli c s = upd_cpu c pushed s"
  by (simp add: pushcli_def cli_def upd_cpu_def pushed_def Let_def)

lemma popcli_eq:
  assumes "\<not> c_if (cpus s c)" and "0 < c_ncli (cpus s c)"
  shows "popcli c s = Ok (upd_cpu c popped s)"
  using assms by (auto simp: popcli_def sti_def upd_cpu_def popped_def Let_def fun_eq_iff)

lemma acquire_free:
  assumes "lock_free l s"
  shows "acquire c l s = Ok (locked_by c l s)"
  using assms
  by (simp add: acquire_def holding_def lock_free_def pushcli_eq locked_by_def
      upd_cpu_def upd_lock_def)

lemma acquire_held_panics:
  assumes "holding c l s"
  shows "acquire c l s = Panic ''acquire''"
  using assms by (simp add: acquire_def holding_def pushcli_eq)

lemma acquire_other_spins:
  assumes "locked (locks s l) \<noteq> 0" and "lk_cpu (locks s l) \<noteq> Some c"
  shows "acquire c l s = Spin"
  using assms by (simp add: acquire_def holding_def pushcli_eq)

lemma release_held:
  assumes "holding c l s" and "\<not> c_if (cpus s c)" and "0 < c_ncli (cpus s c)"
  shows "release c l s = Ok (unlocked_by c l s)"
proof -
  let ?s = "upd_lock l (\<lambda>k. k\<lparr>lk_cpu := None, locked := 0\<rparr>) s"
  have "popcli c ?s = Ok (upd_cpu c popped ?s)"
    using assms by (intro popcli_eq) simp_all
  then show ?thesis
    using assms(1) by (simp add: release_def unlocked_by_def upd_cpu_def upd_lock_def)
qed

lemma release_not_held_panics: "\<not> holding c l s \<Longrightarrow> release c l s = Panic ''release''"
  by (simp add: release_def)

lemma locked_by_sel [simp]:
  "locks (locked_by c l s) = (locks s)(l := (locks s l)\<lparr>locked := 1, lk_cpu := Some c\<rparr>)"
  "cpus (locked_by c l s) = (cpus s)(c := pushed (cpus s c))"
  by (simp_all add: locked_by_def)

lemma unlocked_by_sel [simp]:
  "locks (unlocked_by c l s) = (locks s)(l := (locks s l)\<lparr>lk_cpu := None, locked := 0\<rparr>)"
  "cpus (unlocked_by c l s) = (cpus s)(c := popped (cpus s c))"
  by (simp_all add: unlocked_by_def)

lemma pushed_sel [simp]:
  "c_if (pushed r) = False" "c_ncli (pushed r) = c_ncli r + 1"
  "c_proc (pushed r) = c_proc r" "c_id (pushed r) = c_id r"
  "c_cr3 (pushed r) = c_cr3 r" "c_esp0 (pushed r) = c_esp0 r"
  by (simp_all add: pushed_def)

lemma popped_sel [simp]:
  "c_ncli (popped r) = c_ncli r - 1" "c_proc (popped r) = c_proc r" "c_id (popped r) = c_id r"
  "c_cr3 (popped r) = c_cr3 r" "c_esp0 (popped r) = c_esp0 r" "c_intena (popped r) = c_intena r"
  by (simp_all add: popped_def Let_def)

lemma holding_locked_by [simp]: "holding c l (locked_by c l s)"
  by (simp add: holding_def)

lemma popped_pushed: "irq_ok r \<Longrightarrow> popped (pushed r) = r\<lparr>c_intena := c_intena (pushed r)\<rparr>"
  by (cases r) (auto simp: popped_def pushed_def irq_ok_def Let_def)

lemma irq_ok_pushed: "irq_ok r \<Longrightarrow> irq_ok (pushed r)"
  by (simp add: irq_ok_def)

lemma irq_ok_popped: "irq_ok r \<Longrightarrow> 0 < c_ncli r \<Longrightarrow> irq_ok (popped r)"
  by (auto simp: irq_ok_def popped_def Let_def)

section \<open>The contract of a lock\<close>

text \<open>
  What a client of one lock relies on. \<open>free\<close> and \<open>held c\<close> describe the state, \<open>rest\<close>
  is the part of the state that taking or leaving the lock does not touch.
\<close>

locale mutex =
  fixes acq :: "nat \<Rightarrow> 's \<Rightarrow> 's outcome"
    and rel :: "nat \<Rightarrow> 's \<Rightarrow> 's outcome"
    and free :: "'s \<Rightarrow> bool"
    and held :: "nat \<Rightarrow> 's \<Rightarrow> bool"
    and rest :: "'s \<Rightarrow> 'r"
  assumes acq_ok: "free s \<Longrightarrow> \<exists>t. acq c s = Ok t \<and> held c t \<and> rest t = rest s"
    and rel_ok: "held c s \<Longrightarrow> \<exists>t. rel c s = Ok t \<and> free t \<and> rest t = rest s"
    and acq_excl: "held c s \<Longrightarrow> \<nexists>t. acq d s = Ok t"
    and rel_excl: "free s \<Longrightarrow> \<nexists>t. rel c s = Ok t"
begin

text \<open>A body that keeps the lock runs to the end between acquire and release.\<close>

lemma critical_section:
  assumes "free s"
    and body: "\<And>t. held c t \<Longrightarrow> rest t = rest s \<Longrightarrow> \<exists>u. body t = Ok u \<and> held c u \<and> P (rest u)"
  shows "\<exists>u. bnd (acq c s) (\<lambda>t. bnd (body t) (rel c)) = Ok u \<and> free u \<and> P (rest u)"
proof -
  obtain t where t: "acq c s = Ok t" "held c t" "rest t = rest s"
    using acq_ok [OF assms(1)] by blast
  obtain u where u: "body t = Ok u" "held c u" "P (rest u)"
    using body [OF t(2,3)] by blast
  obtain v where "rel c u = Ok v" "free v" "rest v = rest u"
    using rel_ok [OF u(2)] by blast
  with t u show ?thesis by auto
qed

text \<open>A body that takes the same lock again never completes.\<close>

lemma no_reentry:
  assumes "held c s"
  shows "\<nexists>u. bnd (acq d s) f = Ok u"
  using acq_excl [OF assms] by (auto simp: bnd_eq_Ok_iff)

end

text \<open>The kernel's locks satisfy it, where every CPU's interrupt nesting is consistent and
  a lock that is taken records its holder.\<close>

definition lk_free_ok :: "lockid \<Rightarrow> 'a hw_scheme \<Rightarrow> bool" where
  "lk_free_ok l s \<longleftrightarrow> lock_free l s \<and> (\<forall>c. irq_ok (cpus s c))"

definition lk_held_ok :: "lockid \<Rightarrow> nat \<Rightarrow> 'a hw_scheme \<Rightarrow> bool" where
  "lk_held_ok l c s \<longleftrightarrow> holding c l s \<and> 0 < c_ncli (cpus s c) \<and> (\<forall>d. irq_ok (cpus s d))"

definition lk_rest :: "lockid \<Rightarrow> 'a hw_scheme \<Rightarrow> (lockid \<Rightarrow> spinlock) \<times> (nat \<Rightarrow> ptr) \<times> 'a" where
  "lk_rest l s = ((locks s)(l := (locks s l)\<lparr>locked := 0, lk_cpu := None\<rparr>),
     (\<lambda>c. c_proc (cpus s c)), hw.more s)"

lemma mutex_lock: "mutex (\<lambda>c. acquire c l) (\<lambda>c. release c l) (lk_free_ok l) (lk_held_ok l) (lk_rest l)"
proof
  fix s :: "'a hw_scheme" and c
  assume f: "lk_free_ok l s"
  then have "acquire c l s = Ok (locked_by c l s)"
    by (simp add: lk_free_ok_def acquire_free)
  moreover have "lk_held_ok l c (locked_by c l s)"
    using f by (auto simp: lk_held_ok_def lk_free_ok_def irq_ok_pushed) (simp_all add: irq_ok_def)
  moreover have "lk_rest l (locked_by c l s) = lk_rest l s"
    by (auto simp: lk_rest_def locked_by_def fun_eq_iff)
  ultimately show "\<exists>t. acquire c l s = Ok t \<and> lk_held_ok l c t \<and> lk_rest l t = lk_rest l s"
    by blast
next
  fix s :: "'a hw_scheme" and c
  assume h: "lk_held_ok l c s"
  then have "release c l s = Ok (unlocked_by c l s)"
    by (intro release_held) (auto simp: lk_held_ok_def irq_ok_def)
  moreover have "lk_free_ok l (unlocked_by c l s)"
    using h by (auto simp: lk_held_ok_def lk_free_ok_def lock_free_def irq_ok_popped)
  moreover have "lk_rest l (unlocked_by c l s) = lk_rest l s"
    by (auto simp: lk_rest_def unlocked_by_def fun_eq_iff)
  ultimately show "\<exists>t. release c l s = Ok t \<and> lk_free_ok l t \<and> lk_rest l t = lk_rest l s"
    by blast
next
  fix s :: "'a hw_scheme" and c d
  assume h: "lk_held_ok l c s"
  show "\<nexists>t. acquire d l s = Ok t"
  proof (cases "d = c")
    case True
    then show ?thesis using h by (simp add: lk_held_ok_def acquire_held_panics)
  next
    case False
    then have "acquire d l s = Spin"
      using h by (intro acquire_other_spins) (auto simp: lk_held_ok_def holding_def)
    then show ?thesis by simp
  qed
next
  fix s :: "'a hw_scheme" and c
  assume "lk_free_ok l s"
  then show "\<nexists>t. release c l s = Ok t"
    by (simp add: lk_free_ok_def lock_free_def holding_def release_not_held_panics)
qed

interpretation lk: mutex "\<lambda>c. acquire c l" "\<lambda>c. release c l" "lk_free_ok l" "lk_held_ok l" "lk_rest l"
  for l
  by (rule mutex_lock)

section \<open>Interleaving on several CPUs\<close>

text \<open>
  The same two routines, one shared-memory access per step, for one lock \<open>l\<close> and any
  number of CPUs. A CPU is outside, spinning on \<^verbatim>\<open>xchg\<close>, has won the exchange but not yet
  stored \<^verbatim>\<open>lk->cpu\<close>, is inside the critical section, or has cleared \<^verbatim>\<open>lk->cpu\<close> but not
  yet \<^verbatim>\<open>lk->locked\<close>.
\<close>

datatype lk_pc = Outside | Spinning | Won | Inside | Leaving

record lk_sys = hw +
  lk_pcs :: "nat \<Rightarrow> lk_pc"

definition at_pc :: "nat \<Rightarrow> lk_pc \<Rightarrow> lk_sys \<Rightarrow> lk_sys" where
  "at_pc c p s = s\<lparr>lk_pcs := (lk_pcs s)(c := p)\<rparr>"

inductive lk_step :: "lockid \<Rightarrow> lk_sys \<Rightarrow> lk_sys \<Rightarrow> bool" for l where
  enter: "lk_pcs s c = Outside \<Longrightarrow> \<not> holding c l (pushcli c s) \<Longrightarrow>
    lk_step l s (at_pc c Spinning (pushcli c s))"
| lose: "lk_pcs s c = Spinning \<Longrightarrow> locked (locks s l) \<noteq> 0 \<Longrightarrow>
    lk_step l s (upd_lock l (\<lambda>k. k\<lparr>locked := 1\<rparr>) s)"
| win: "lk_pcs s c = Spinning \<Longrightarrow> locked (locks s l) = 0 \<Longrightarrow>
    lk_step l s (at_pc c Won (upd_lock l (\<lambda>k. k\<lparr>locked := 1\<rparr>) s))"
| note_cpu: "lk_pcs s c = Won \<Longrightarrow>
    lk_step l s (at_pc c Inside (upd_lock l (\<lambda>k. k\<lparr>lk_cpu := Some c\<rparr>) s))"
| leave: "lk_pcs s c = Inside \<Longrightarrow> holding c l s \<Longrightarrow>
    lk_step l s (at_pc c Leaving (upd_lock l (\<lambda>k. k\<lparr>lk_cpu := None\<rparr>) s))"
| clear: "lk_pcs s c = Leaving \<Longrightarrow>
    popcli c (upd_lock l (\<lambda>k. k\<lparr>locked := 0\<rparr>) s) = Ok t \<Longrightarrow>
    lk_step l s (at_pc c Outside t)"

inductive lk_reach :: "lockid \<Rightarrow> lk_sys \<Rightarrow> bool" for l where
  start: "lock_free l s \<Longrightarrow> \<forall>c. lk_pcs s c = Outside \<and> irq_ok (cpus s c) \<Longrightarrow> lk_reach l s"
| step: "lk_reach l s \<Longrightarrow> lk_step l s t \<Longrightarrow> lk_reach l t"

definition owns :: "lk_sys \<Rightarrow> nat \<Rightarrow> bool" where
  "owns s c \<longleftrightarrow> lk_pcs s c \<in> {Won, Inside, Leaving}"

definition lk_inv :: "lockid \<Rightarrow> lk_sys \<Rightarrow> nat option \<Rightarrow> bool" where
  "lk_inv l s ow \<longleftrightarrow>
     (\<forall>c. owns s c \<longleftrightarrow> ow = Some c) \<and>
     (locked (locks s l) = 0 \<longleftrightarrow> ow = None) \<and>
     lk_cpu (locks s l) = (case ow of None \<Rightarrow> None
        | Some c \<Rightarrow> if lk_pcs s c = Inside then Some c else None) \<and>
     (\<forall>c. irq_ok (cpus s c)) \<and> (\<forall>c. lk_pcs s c \<noteq> Outside \<longrightarrow> 0 < c_ncli (cpus s c))"

lemma lk_invI:
  assumes "\<And>c. owns s c \<longleftrightarrow> ow = Some c" and "locked (locks s l) = 0 \<longleftrightarrow> ow = None"
    and "lk_cpu (locks s l) = (case ow of None \<Rightarrow> None
        | Some c \<Rightarrow> if lk_pcs s c = Inside then Some c else None)"
    and "\<And>c. irq_ok (cpus s c)" and "\<And>c. lk_pcs s c \<noteq> Outside \<Longrightarrow> 0 < c_ncli (cpus s c)"
  shows "lk_inv l s ow"
  using assms by (simp add: lk_inv_def)

lemma lk_invD:
  assumes "lk_inv l s ow"
  shows "owns s c \<longleftrightarrow> ow = Some c" and "locked (locks s l) = 0 \<longleftrightarrow> ow = None"
    and "lk_cpu (locks s l) = (case ow of None \<Rightarrow> None
        | Some c \<Rightarrow> if lk_pcs s c = Inside then Some c else None)"
    and "irq_ok (cpus s c)" and "lk_pcs s c \<noteq> Outside \<Longrightarrow> 0 < c_ncli (cpus s c)"
  using assms by (simp_all add: lk_inv_def)

lemma at_pc_sel [simp]:
  "locks (at_pc c p s) = locks s" "cpus (at_pc c p s) = cpus s"
  "lk_pcs (at_pc c p s) = (lk_pcs s)(c := p)"
  by (simp_all add: at_pc_def)

lemma lk_pcs_upd [simp]:
  "lk_pcs (upd_cpu c f s) = lk_pcs s" "lk_pcs (upd_lock l g s) = lk_pcs s"
  by (simp_all add: upd_cpu_def upd_lock_def)

lemma owns_iff [simp]:
  "owns (at_pc c p s) d \<longleftrightarrow> (if d = c then p \<in> {Won, Inside, Leaving} else owns s d)"
  by (simp add: owns_def)

lemma owns_upd [simp]:
  "owns (upd_cpu c f s) = owns s" "owns (upd_lock l g s) = owns s"
  by (simp_all add: owns_def fun_eq_iff)

lemma lk_inv_step:
  assumes "lk_step l s t" and "lk_inv l s ow"
  shows "\<exists>ow'. lk_inv l t ow'"
  using assms
proof (induction rule: lk_step.induct)
  case (enter s c)
  note inv = lk_invD [OF enter.prems]
  have "ow \<noteq> Some c" using enter.hyps(1) inv(1) [of c] by (auto simp: owns_def)
  then have "lk_inv l (at_pc c Spinning (pushcli c s)) ow"
    using inv by (intro lk_invI)
      (auto simp: pushcli_eq irq_ok_pushed irq_ok_def split: option.splits if_splits)
  then show ?case by blast
next
  case (lose s c)
  note inv = lk_invD [OF lose.prems]
  have "lk_inv l (upd_lock l (\<lambda>k. k\<lparr>locked := 1\<rparr>) s) ow"
    using inv lose.hyps by (intro lk_invI) (simp_all split: option.splits)
  then show ?case by blast
next
  case (win s c)
  note inv = lk_invD [OF win.prems]
  have "lk_inv l (at_pc c Won (upd_lock l (\<lambda>k. k\<lparr>locked := 1\<rparr>) s)) (Some c)"
    using inv win.hyps by (intro lk_invI) (simp_all split: if_splits)
  then show ?case by blast
next
  case (note_cpu s c)
  note inv = lk_invD [OF note_cpu.prems]
  have "ow = Some c" using note_cpu.hyps inv(1) [of c] by (simp add: owns_def)
  then have "lk_inv l (at_pc c Inside (upd_lock l (\<lambda>k. k\<lparr>lk_cpu := Some c\<rparr>) s)) (Some c)"
    using inv note_cpu.hyps by (intro lk_invI) (simp_all split: if_splits)
  then show ?case by blast
next
  case (leave s c)
  note inv = lk_invD [OF leave.prems]
  have "ow = Some c" using leave.hyps inv(1) [of c] by (simp add: owns_def)
  then have "lk_inv l (at_pc c Leaving (upd_lock l (\<lambda>k. k\<lparr>lk_cpu := None\<rparr>) s)) (Some c)"
    using inv leave.hyps by (intro lk_invI) (simp_all split: if_splits)
  then show ?case by blast
next
  case (clear s c t)
  note inv = lk_invD [OF clear.prems]
  let ?s = "upd_lock l (\<lambda>k. k\<lparr>locked := 0\<rparr>) s"
  have ow: "ow = Some c" using clear.hyps inv(1) [of c] by (simp add: owns_def)
  have irq: "irq_ok (cpus s c)" "0 < c_ncli (cpus s c)"
    using clear.hyps inv(4,5) by simp_all
  then have "popcli c ?s = Ok (upd_cpu c popped ?s)"
    by (intro popcli_eq) (simp_all add: irq_ok_def)
  with clear.hyps have t: "t = upd_cpu c popped ?s" by simp
  have "lk_inv l (at_pc c Outside t) None"
    unfolding t using inv ow irq clear.hyps
    by (intro lk_invI) (simp_all add: irq_ok_popped split: if_splits)
  then show ?case by blast
qed

lemma lk_reach_inv: "lk_reach l s \<Longrightarrow> \<exists>ow. lk_inv l s ow"
proof (induction rule: lk_reach.induct)
  case (start s)
  then have "lk_inv l s None" by (simp add: lk_inv_def lock_free_def owns_def)
  then show ?case by blast
next
  case (step s t)
  then show ?case by (blast intro: lk_inv_step)
qed

section \<open>Properties\<close>

text \<open>C6: mutual exclusion. In every state that any number of CPUs can reach by interleaving the atomic
  steps of \<^verbatim>\<open>acquire\<close> and \<^verbatim>\<open>release\<close> on one lock, at most one CPU is between the two, and
  \<^verbatim>\<open>holding\<close> is true on a CPU exactly when it is inside its critical section.\<close>

theorem spinlock_mutual_exclusion:
  assumes "lk_reach l s" and "lk_pcs s c = Inside"
  shows "holding c l s \<and> locked (locks s l) \<noteq> 0 \<and> (\<forall>d. lk_pcs s d = Inside \<longrightarrow> d = c) \<and>
    (\<forall>d. holding d l s \<longrightarrow> d = c)"
proof -
  obtain ow where "lk_inv l s ow" using lk_reach_inv [OF assms(1)] by blast
  note inv = lk_invD [OF this]
  have ow: "ow = Some c" using inv(1) [of c] assms(2) by (simp add: owns_def)
  have "d = c" if "lk_pcs s d = Inside" for d using inv(1) [of d] that ow by (simp add: owns_def)
  moreover have "locked (locks s l) \<noteq> 0" "lk_cpu (locks s l) = Some c" using inv(2,3) ow assms(2) by simp_all
  ultimately show ?thesis by (auto simp: holding_def)
qed


text \<open>A run of CPU 0 into its critical section.\<close>

definition lk_start :: lk_sys where
  "lk_start = \<lparr>locks = (\<lambda>_. \<lparr>locked = 0, lk_name = ''kmem'', lk_cpu = None\<rparr>),
     cpus = (\<lambda>_. \<lparr>c_id = 0, c_ncli = 0, c_intena = True, c_if = True, c_proc = None, c_cr3 = 0, c_esp0 = 0\<rparr>),
     lk_pcs = (\<lambda>_. Outside)\<rparr>"

definition lk_run :: lk_sys where
  "lk_run = at_pc 0 Inside (upd_lock Lk_kmem (\<lambda>k. k\<lparr>lk_cpu := Some 0\<rparr>)
     (at_pc 0 Won (upd_lock Lk_kmem (\<lambda>k. k\<lparr>locked := 1\<rparr>) (at_pc 0 Spinning (pushcli 0 lk_start)))))"

lemma lk_run_reach: "lk_reach Lk_kmem lk_run"
proof -
  have 0: "lk_reach Lk_kmem lk_start" by (rule lk_reach.start) (simp_all add: lk_start_def lock_free_def irq_ok_def)
  have 1: "lk_reach Lk_kmem (at_pc 0 Spinning (pushcli 0 lk_start))"
    by (rule lk_reach.step [OF 0 lk_step.enter]) (simp_all add: lk_start_def holding_def pushcli_eq upd_cpu_def)
  have 2: "lk_reach Lk_kmem (at_pc 0 Won (upd_lock Lk_kmem (\<lambda>k. k\<lparr>locked := 1\<rparr>)
      (at_pc 0 Spinning (pushcli 0 lk_start))))"
    by (rule lk_reach.step [OF 1 lk_step.win]) (simp_all add: pushcli_eq, simp add: lk_start_def)
  show ?thesis unfolding lk_run_def by (rule lk_reach.step [OF 2 lk_step.note_cpu]) simp
qed

theorem spinlock_mutual_exclusion_witness:
  "holding 0 Lk_kmem lk_run \<and> lk_pcs lk_run 1 \<noteq> Inside \<and> \<not> holding 1 Lk_kmem lk_run"
proof -
  have "lk_pcs lk_run 0 = Inside" by (simp add: lk_run_def)
  from spinlock_mutual_exclusion [OF lk_run_reach this] show ?thesis using zero_neq_one by metis
qed

text \<open>a critical section. Taking a free lock succeeds with interrupts off, the holder recorded and the
  nesting count one higher; the release that ends it succeeds too, frees the lock, and puts the
  interrupt flag and the nesting count of the CPU back to what they were. Nothing else changes.\<close>

theorem acquire_release_roundtrip:
  assumes "lock_free l s" and "irq_ok (cpus s c)"
  shows "\<exists>t u. acquire c l s = Ok t \<and> holding c l t \<and> \<not> c_if (cpus t c) \<and> c_ncli (cpus t c) = c_ncli (cpus s c) + 1 \<and>
    release c l t = Ok u \<and> locks u = locks s \<and> c_if (cpus u c) = c_if (cpus s c) \<and>
    c_ncli (cpus u c) = c_ncli (cpus s c) \<and> (\<forall>d. d \<noteq> c \<longrightarrow> cpus u d = cpus s d) \<and> hw.more u = hw.more s"
proof -
  let ?t = "locked_by c l s"
  have a: "acquire c l s = Ok ?t" by (rule acquire_free [OF assms(1)])
  have r: "release c l ?t = Ok (unlocked_by c l ?t)"
    by (rule release_held) (use assms(2) in \<open>simp_all add: locked_by_def holding_def pushed_def irq_ok_def\<close>)
  have "locks (unlocked_by c l ?t) = locks s"
    using assms(1) by (auto simp: unlocked_by_def locked_by_def lock_free_def fun_eq_iff)
  moreover have "c_if (popped (pushed (cpus s c))) = c_if (cpus s c)" "c_ncli (popped (pushed (cpus s c))) = c_ncli (cpus s c)"
    using assms(2) by (auto simp: popped_def pushed_def irq_ok_def Let_def)
  ultimately show ?thesis
    using a r
    by (intro exI [of _ ?t] exI [of _ "unlocked_by c l ?t"] conjI)
      (simp_all add: locked_by_def unlocked_by_def holding_def pushed_def)
qed

theorem acquire_release_roundtrip_witness:
  "\<exists>t u. acquire 1 Lk_kmem lk_start = Ok t \<and> holding 1 Lk_kmem t \<and> release 1 Lk_kmem t = Ok u \<and>
    locks u = locks lk_start \<and> c_if (cpus u 1) = c_if (cpus lk_start 1)"
proof -
  have "lock_free Lk_kmem lk_start" "irq_ok (cpus lk_start 1)" by (simp_all add: lk_start_def lock_free_def irq_ok_def)
  from acquire_release_roundtrip [OF this] show ?thesis by blast
qed

end
