(* ===== verification/ProcLists.thy ===== *)
theory ProcLists
  imports Spinlock
begin

text \<open>
  The process table of \<^verbatim>\<open>src/proc.c\<close> and its state lists. The configuration modelled is the
  one the Makefile builds (\<^verbatim>\<open>CS333_PROJECT = 5\<close>: \<^verbatim>\<open>CS333_P1\<close>, \<^verbatim>\<open>CS333_P2\<close>, \<^verbatim>\<open>CS333_P3P4\<close> and
  \<^verbatim>\<open>CS333_P5\<close> defined). A \<^verbatim>\<open>struct proc *\<close> is a slot number of \<^verbatim>\<open>ptable.proc\<close> (or null), the
  singly linked lists run through the field \<^verbatim>\<open>next\<close>, and a head/tail pair of
  \<^verbatim>\<open>struct state_lists\<close> is named by \<open>lname\<close>, which plays the role of the two addresses that
  \<^verbatim>\<open>stateListAdd\<close>, \<^verbatim>\<open>stateListAddAtHead\<close> and \<^verbatim>\<open>stateListRemove\<close> take.
  The lemmas show that these pointer routines implement append, cons and removal on the
  abstract queues that the pointers represent; the locale \<open>state_queues\<close> is that contract.
\<close>

section \<open>Data\<close>

datatype procstate = UNUSED | EMBRYO | SLEEPING | RUNNABLE | RUNNING | ZOMBIE

text \<open>Code addresses stored in kernel contexts.\<close>

datatype kcode = K_forkret | K_trapret | K_addr uint32

record trapframe =
  tf_edi :: uint32
  tf_esi :: uint32
  tf_ebp :: uint32
  tf_oesp :: uint32
  tf_ebx :: uint32
  tf_edx :: uint32
  tf_ecx :: uint32
  tf_eax :: uint32
  tf_gs :: ushort
  tf_fs :: ushort
  tf_es :: ushort
  tf_ds :: ushort
  tf_trapno :: uint32
  tf_err :: uint32
  tf_eip :: uint32
  tf_cs :: ushort
  tf_eflags :: uint32
  tf_esp :: uint32
  tf_ss :: ushort

record kcontext =
  x_edi :: uint32
  x_esi :: uint32
  x_ebx :: uint32
  x_ebp :: uint32
  x_eip :: kcode

text \<open>Sleep channels: the kernel only compares these addresses.\<close>

datatype chan = Chan_null | Chan_proc nat | Chan_ticks | Chan_buf nat | Chan_inode nat
  | Chan_log | Chan_input | Chan_nread nat | Chan_nwrite nat

text \<open>
  \<^verbatim>\<open>struct proc\<close>. The pointers \<^verbatim>\<open>tf\<close> and \<^verbatim>\<open>context\<close> point into the kernel stack page; the
  structures they point to are kept beside them (\<open>p_tf\<close>, \<open>p_context\<close>), as is the word above
  the context that \<^verbatim>\<open>allocproc\<close> fills with the address of \<^verbatim>\<open>trapret\<close> (\<open>p_ret\<close>).
\<close>

record proc =
  p_sz :: uint32
  p_pgdir :: uint32
  p_kstack :: uint32
  p_state :: procstate
  p_pid :: uint32
  p_parent :: ptr
  p_tfp :: uint32
  p_tf :: trapframe
  p_ret :: kcode
  p_contextp :: uint32
  p_context :: kcontext
  p_chan :: chan
  p_killed :: bool
  p_ofile :: "nat \<Rightarrow> ptr"
  p_cwd :: ptr
  p_name :: string
  p_start_ticks :: uint32
  p_gid :: uint32
  p_uid :: uint32
  p_cpu_ticks_total :: uint32
  p_cpu_ticks_in :: uint32
  p_next :: ptr
  p_priority :: uint32
  p_budget :: uint32

definition NPROC :: nat where "NPROC = 64"
definition MAXPRIO :: nat where "MAXPRIO = 6"
definition MAXBUDG :: uint32 where "MAXBUDG = 200"
definition TICKS_TO_PROMOTE :: uint32 where "TICKS_TO_PROMOTE = MAXBUDG * 20"

text \<open>\<^verbatim>\<open>struct state_lists\<close>: one name per head/tail pair of fields.\<close>

datatype lname = Lready nat | Lfree | Lsleep | Lzombie | Lrunning | Lembryo

definition in_struct :: "lname \<Rightarrow> bool" where
  "in_struct l = (case l of Lready i \<Rightarrow> i \<le> MAXPRIO | _ \<Rightarrow> True)"

text \<open>\<^verbatim>\<open>ptable\<close> and the other globals of \<^verbatim>\<open>src/proc.c\<close>, with \<^verbatim>\<open>ticks\<close> of \<^verbatim>\<open>src/trap.c\<close> and
  \<^verbatim>\<open>kpgdir\<close> of \<^verbatim>\<open>src/vm.c\<close>; the lock of the table is \<open>Lk_ptable\<close>.\<close>

record ptab = hw +
  procs :: "nat \<Rightarrow> proc"
  heads :: "lname \<Rightarrow> ptr"
  tails :: "lname \<Rightarrow> ptr"
  promoteAtTime :: uint32
  nextpid :: uint32
  initproc :: ptr
  ticks :: uint32
  kpgdir :: uint32

definition upd_proc :: "nat \<Rightarrow> (proc \<Rightarrow> proc) \<Rightarrow> 'a ptab_scheme \<Rightarrow> 'a ptab_scheme" where
  "upd_proc p f s = s\<lparr>procs := (procs s)(p := f (procs s p))\<rparr>"

definition set_next :: "nat \<Rightarrow> ptr \<Rightarrow> 'a ptab_scheme \<Rightarrow> 'a ptab_scheme" where
  "set_next p q s = upd_proc p (\<lambda>r. r\<lparr>p_next := q\<rparr>) s"

definition set_state :: "nat \<Rightarrow> procstate \<Rightarrow> 'a ptab_scheme \<Rightarrow> 'a ptab_scheme" where
  "set_state p st s = upd_proc p (\<lambda>r. r\<lparr>p_state := st\<rparr>) s"

definition set_head :: "lname \<Rightarrow> ptr \<Rightarrow> 'a ptab_scheme \<Rightarrow> 'a ptab_scheme" where
  "set_head l q s = s\<lparr>heads := (heads s)(l := q)\<rparr>"

definition set_tail :: "lname \<Rightarrow> ptr \<Rightarrow> 'a ptab_scheme \<Rightarrow> 'a ptab_scheme" where
  "set_tail l q s = s\<lparr>tails := (tails s)(l := q)\<rparr>"

section \<open>List operations\<close>

definition assertState :: "nat \<Rightarrow> procstate \<Rightarrow> 'a ptab_scheme \<Rightarrow> 'a ptab_scheme outcome" where
  "assertState p st s =
     (if p_state (procs s p) \<noteq> st then Panic ''assertState - wrong state'' else Ok s)"

definition stateListAdd :: "lname \<Rightarrow> nat \<Rightarrow> 'a ptab_scheme \<Rightarrow> 'a ptab_scheme outcome" where
  "stateListAdd l p s =
     (if \<not> in_struct l then Fault
      else if heads s l = None then
        Ok (set_next p None (set_tail l (Some p) (set_head l (Some p) s)))
      else
        bnd (deref (tails s l)) (\<lambda>t.
        let s = set_next t (Some p) s;
            s = set_tail l (p_next (procs s t)) s
        in bnd (deref (tails s l)) (\<lambda>t'. Ok (set_next t' None s))))"

definition stateListAddAtHead :: "lname \<Rightarrow> nat \<Rightarrow> 'a ptab_scheme \<Rightarrow> 'a ptab_scheme outcome" where
  "stateListAddAtHead l p s =
     (if \<not> in_struct l then Fault
      else if heads s l = None then
        Ok (set_next p None (set_tail l (Some p) (set_head l (Some p) s)))
      else Ok (set_head l (Some p) (set_next p (heads s l) s)))"

text \<open>
  The \<^verbatim>\<open>while(current)\<close> loop of \<^verbatim>\<open>stateListRemove\<close>: it ends with \<^verbatim>\<open>current\<close> at \<open>p\<close> or null.
  A chain of more than \<^verbatim>\<open>NPROC\<close> steps through the table is cyclic, so fuel \<open>NPROC + 1\<close>
  runs out only where the loop never ends.
\<close>

fun sl_search :: "nat \<Rightarrow> (nat \<Rightarrow> ptr) \<Rightarrow> nat \<Rightarrow> ptr \<Rightarrow> ptr \<Rightarrow> (ptr \<times> ptr) outcome" where
  "sl_search 0 nx p cur prev = Spin"
| "sl_search (Suc n) nx p cur prev =
     (case cur of None \<Rightarrow> Ok (None, prev)
      | Some c \<Rightarrow> if c = p then Ok (cur, prev) else sl_search n nx p (nx c) cur)"

text \<open>
  Where \<^verbatim>\<open>head\<close>, \<^verbatim>\<open>tail\<close> or \<open>p\<close> is null, the code prints \<^verbatim>\<open>p->pid\<close>, \<^verbatim>\<open>(*head)->pid\<close> and
  \<^verbatim>\<open>p->priority\<close> before it returns -1: that dereferences the null pointer unless only
  \<^verbatim>\<open>tail\<close> is null.
\<close>

definition stateListRemove :: "lname \<Rightarrow> ptr \<Rightarrow> 'a ptab_scheme \<Rightarrow> (int \<times> 'a ptab_scheme) outcome" where
  "stateListRemove l p s =
     (if \<not> in_struct l then Fault
      else case (heads s l, tails s l, p) of
        (Some h, Some t, Some q) \<Rightarrow>
          if h = q then
            let s = set_head l (p_next (procs s h)) s
            in Ok (0, if t = q then set_tail l None s else s)
          else
            bnd (sl_search (Suc NPROC) (\<lambda>i. p_next (procs s i)) q (Some h) None) (\<lambda>(cur, prev).
            case cur of None \<Rightarrow> Ok (-1, s)
            | Some c \<Rightarrow>
                bnd (deref prev) (\<lambda>pr.
                let s = (if c = t then set_next pr None (set_tail l (Some pr) s)
                         else set_next pr (p_next (procs s c)) s)
                in Ok (0, set_next q None s)))
      | (Some h, None, Some q) \<Rightarrow> Ok (-1, s)
      | _ \<Rightarrow> Fault)"

definition initProcessLists :: "'a ptab_scheme \<Rightarrow> 'a ptab_scheme" where
  "initProcessLists s =
     s\<lparr>heads := (\<lambda>l. if in_struct l then None else heads s l),
       tails := (\<lambda>l. if in_struct l then None else tails s l)\<rparr>"

fun initFreeList_from :: "nat list \<Rightarrow> 'a ptab_scheme \<Rightarrow> 'a ptab_scheme outcome" where
  "initFreeList_from [] s = Ok s"
| "initFreeList_from (p # ps) s =
     bnd (stateListAdd Lfree p (set_state p UNUSED s)) (initFreeList_from ps)"

definition initFreeList :: "nat \<Rightarrow> 'a ptab_scheme \<Rightarrow> 'a ptab_scheme outcome" where
  "initFreeList c s =
     (if \<not> holding c Lk_ptable s then
        Panic ''acquire the ptable lock before calling initFreeList''
      else initFreeList_from [0..<NPROC] s)"

text \<open>
  \<^verbatim>\<open>for(p = head; p != 0; p = p->next) body\<close>: the successor is read after the body has run.
  A list of the table has at most \<^verbatim>\<open>NPROC\<close> nodes.
\<close>

fun walk :: "nat \<Rightarrow> (nat \<Rightarrow> 'a ptab_scheme \<Rightarrow> 'a ptab_scheme outcome) \<Rightarrow> ptr \<Rightarrow>
    'a ptab_scheme \<Rightarrow> 'a ptab_scheme outcome" where
  "walk n body None s = Ok s"
| "walk 0 body (Some p) s = Spin"
| "walk (Suc n) body (Some p) s =
     bnd (body p s) (\<lambda>s. walk n body (p_next (procs s p)) s)"

text \<open>A read-only search loop: the first node that satisfies \<open>P\<close>.\<close>

fun find_node :: "nat \<Rightarrow> (nat \<Rightarrow> bool) \<Rightarrow> ptr \<Rightarrow> (nat \<Rightarrow> proc) \<Rightarrow> ptr outcome" where
  "find_node n P None ps = Ok None"
| "find_node 0 P (Some p) ps = Spin"
| "find_node (Suc n) P (Some p) ps =
     (if P p then Ok (Some p) else find_node n P (p_next (ps p)) ps)"

text \<open>The two halves of the code's \<^verbatim>\<open>TRANSITION\<close> blocks: leave a list, enter a list.\<close>

definition leave_list :: "string \<Rightarrow> lname \<Rightarrow> nat \<Rightarrow> procstate \<Rightarrow> 'a ptab_scheme \<Rightarrow> 'a ptab_scheme outcome" where
  "leave_list msg l p st s =
     bnd (stateListRemove l (Some p) s) (\<lambda>(r, s).
     if r < 0 then Panic msg else assertState p st s)"

definition enter_list :: "(lname \<Rightarrow> nat \<Rightarrow> 'a ptab_scheme \<Rightarrow> 'a ptab_scheme outcome) \<Rightarrow>
    lname \<Rightarrow> nat \<Rightarrow> procstate \<Rightarrow> 'a ptab_scheme \<Rightarrow> 'a ptab_scheme outcome" where
  "enter_list add l p st s = bnd (add l p s) (assertState p st)"

section \<open>Selector rules\<close>

lemma upd_proc_sel [simp]:
  "procs (upd_proc p f s) = (procs s)(p := f (procs s p))"
  "heads (upd_proc p f s) = heads s" "tails (upd_proc p f s) = tails s"
  "locks (upd_proc p f s) = locks s" "cpus (upd_proc p f s) = cpus s"
  "promoteAtTime (upd_proc p f s) = promoteAtTime s" "nextpid (upd_proc p f s) = nextpid s"
  "initproc (upd_proc p f s) = initproc s" "ticks (upd_proc p f s) = ticks s"
  by (simp_all add: upd_proc_def)

lemma set_head_sel [simp]:
  "procs (set_head l q s) = procs s" "heads (set_head l q s) = (heads s)(l := q)"
  "tails (set_head l q s) = tails s"
  "locks (set_head l q s) = locks s" "cpus (set_head l q s) = cpus s"
  by (simp_all add: set_head_def)

lemma set_tail_sel [simp]:
  "procs (set_tail l q s) = procs s" "heads (set_tail l q s) = heads s"
  "tails (set_tail l q s) = (tails s)(l := q)"
  "locks (set_tail l q s) = locks s" "cpus (set_tail l q s) = cpus s"
  by (simp_all add: set_tail_def)

lemma lock_procs [simp]:
  "procs (locked_by c l s) = procs s" "heads (locked_by c l s) = heads s"
  "tails (locked_by c l s) = tails s" "ticks (locked_by c l s) = ticks s"
  "promoteAtTime (locked_by c l s) = promoteAtTime s" "nextpid (locked_by c l s) = nextpid s"
  "initproc (locked_by c l s) = initproc s"
  "procs (unlocked_by c l s) = procs s" "heads (unlocked_by c l s) = heads s"
  "tails (unlocked_by c l s) = tails s" "ticks (unlocked_by c l s) = ticks s"
  "promoteAtTime (unlocked_by c l s) = promoteAtTime s" "nextpid (unlocked_by c l s) = nextpid s"
  "initproc (unlocked_by c l s) = initproc s"
  by (simp_all add: locked_by_def unlocked_by_def)

lemma upd_cpu_procs [simp]:
  "procs (upd_cpu c f s) = procs s" "heads (upd_cpu c f s) = heads s"
  "tails (upd_cpu c f s) = tails s" "ticks (upd_cpu c f s) = ticks s"
  "promoteAtTime (upd_cpu c f s) = promoteAtTime s" "nextpid (upd_cpu c f s) = nextpid s"
  "initproc (upd_cpu c f s) = initproc s"
  by (simp_all add: upd_cpu_def)

section \<open>Pointer chains\<close>

text \<open>\<open>seg nx a xs b\<close>: following \<open>nx\<close> from pointer \<open>a\<close> visits exactly the nodes \<open>xs\<close> and
  arrives at \<open>b\<close>.\<close>

fun seg :: "(nat \<Rightarrow> ptr) \<Rightarrow> ptr \<Rightarrow> nat list \<Rightarrow> ptr \<Rightarrow> bool" where
  "seg nx a [] b \<longleftrightarrow> a = b"
| "seg nx a (x # xs) b \<longleftrightarrow> a = Some x \<and> seg nx (nx x) xs b"

lemma seg_append: "seg nx a (xs @ ys) b \<longleftrightarrow> (\<exists>m. seg nx a xs m \<and> seg nx m ys b)"
  by (induction xs arbitrary: a) auto

lemma seg_snoc: "seg nx a (xs @ [x]) b \<longleftrightarrow> seg nx a xs (Some x) \<and> nx x = b"
  by (auto simp: seg_append)

lemma seg_frame: "u \<notin> set xs \<Longrightarrow> seg (nx(u := v)) a xs b = seg nx a xs b"
  by (induction xs arbitrary: a) auto

lemma seg_cong: "(\<And>x. x \<in> set xs \<Longrightarrow> nx x = nx' x) \<Longrightarrow> seg nx a xs b = seg nx' a xs b"
  by (induction xs arbitrary: a) auto

lemma seg_None_unique: "seg nx a xs None \<Longrightarrow> seg nx a ys None \<Longrightarrow> xs = ys"
proof (induction xs arbitrary: a ys)
  case Nil
  then show ?case by (cases ys) auto
next
  case (Cons x xs)
  then show ?case by (cases ys) auto
qed

lemma seg_None_distinct: "seg nx a xs None \<Longrightarrow> distinct xs"
proof (induction xs arbitrary: a)
  case (Cons x xs)
  have "x \<notin> set xs"
  proof
    assume "x \<in> set xs"
    then obtain us vs where xs: "xs = us @ x # vs" by (auto dest: split_list)
    with Cons.prems have "seg nx (nx x) xs None" and "seg nx (nx x) vs None"
      by (auto simp: seg_append)
    then have "xs = vs" by (rule seg_None_unique)
    with xs show False by simp
  qed
  with Cons show ?case by auto
qed simp

lemma seg_head_None [simp]: "seg nx None xs b \<longleftrightarrow> xs = [] \<and> b = None"
  by (cases xs) auto

lemma seg_hd: "seg nx a xs None \<Longrightarrow> a = (case xs of [] \<Rightarrow> None | x # _ \<Rightarrow> Some x)"
  by (cases xs) auto

lemma sl_search_found:
  assumes "seg nx cur (xs @ p # ys) None" and "p \<notin> set xs" and "length xs < n"
  shows "sl_search n nx p cur prev = Ok (Some p, if xs = [] then prev else Some (last xs))"
  using assms
proof (induction xs arbitrary: cur prev n)
  case Nil
  then show ?case by (cases n) auto
next
  case (Cons x xs)
  then obtain m where n: "n = Suc m" by (cases n) auto
  with Cons show ?case by auto
qed

lemma sl_search_absent:
  assumes "seg nx cur xs None" and "p \<notin> set xs" and "length xs < n"
  shows "\<exists>prev'. sl_search n nx p cur prev = Ok (None, prev')"
  using assms
proof (induction xs arbitrary: cur prev n)
  case Nil
  then show ?case by (cases n) auto
next
  case (Cons x xs)
  then obtain m where n: "n = Suc m" by (cases n) auto
  with Cons show ?case by auto
qed

section \<open>The queues that the pointers represent\<close>

definition nxt :: "'a ptab_scheme \<Rightarrow> nat \<Rightarrow> ptr" where
  "nxt s p = p_next (procs s p)"

definition tail_of :: "nat list \<Rightarrow> ptr" where
  "tail_of xs = (if xs = [] then None else Some (last xs))"

definition rep :: "'a ptab_scheme \<Rightarrow> lname \<Rightarrow> nat list \<Rightarrow> bool" where
  "rep s l xs \<longleftrightarrow> seg (nxt s) (heads s l) xs None \<and> tails s l = tail_of xs"

definition queues :: "'a ptab_scheme \<Rightarrow> (lname \<Rightarrow> nat list) \<Rightarrow> bool" where
  "queues s qs \<longleftrightarrow>
     (\<forall>l. rep s l (qs l)) \<and>
     (\<forall>l l'. l \<noteq> l' \<longrightarrow> set (qs l) \<inter> set (qs l') = {}) \<and>
     (\<forall>l. set (qs l) \<subseteq> {..<NPROC}) \<and>
     (\<forall>l. \<not> in_struct l \<longrightarrow> qs l = [])"

text \<open>Everything but the links.\<close>

definition payload :: "'a ptab_scheme \<Rightarrow> 'a ptab_scheme" where
  "payload s = s\<lparr>procs := (\<lambda>i. (procs s i)\<lparr>p_next := None\<rparr>), heads := (\<lambda>_. None), tails := (\<lambda>_. None)\<rparr>"

lemma nxt_upd [simp]:
  "nxt (set_next p q s) = (nxt s)(p := q)"
  "nxt (set_head l q s) = nxt s" "nxt (set_tail l q s) = nxt s"
  by (auto simp: nxt_def set_next_def fun_eq_iff)

lemma set_next_sel [simp]:
  "heads (set_next p q s) = heads s" "tails (set_next p q s) = tails s"
  "locks (set_next p q s) = locks s" "cpus (set_next p q s) = cpus s"
  by (simp_all add: set_next_def)

lemma payload_links [simp]:
  "payload (set_next p q s) = payload s" "payload (set_head l q s) = payload s"
  "payload (set_tail l q s) = payload s"
  by (auto simp: payload_def set_next_def upd_proc_def set_head_def set_tail_def fun_eq_iff)

lemma tail_of_simps [simp]:
  "tail_of [] = None" "tail_of (xs @ [x]) = Some x" "tail_of xs = None \<longleftrightarrow> xs = []"
  by (simp_all add: tail_of_def)

lemma tail_of_Cons: "tail_of (x # xs) = (if xs = [] then Some x else tail_of xs)"
  by (simp add: tail_of_def)

lemma queuesD:
  assumes "queues s qs"
  shows queues_rep: "rep s l (qs l)"
    and queues_disj: "l \<noteq> l' \<Longrightarrow> x \<in> set (qs l) \<Longrightarrow> x \<notin> set (qs l')"
    and queues_bound: "x \<in> set (qs l) \<Longrightarrow> x < NPROC"
    and queues_struct: "qs l \<noteq> [] \<Longrightarrow> in_struct l"
  using assms unfolding queues_def by (blast, blast, blast, blast)

lemma queues_distinct: "queues s qs \<Longrightarrow> distinct (qs l)"
  using queues_rep [of s qs l] by (auto simp: rep_def dest: seg_None_distinct)

lemma queues_length: "queues s qs \<Longrightarrow> length (qs l) \<le> NPROC"
  by (rule distinct_length_le_card [OF queues_distinct]) (auto dest: queues_bound)

lemma queues_head: "queues s qs \<Longrightarrow> heads s l = (case qs l of [] \<Rightarrow> None | x # _ \<Rightarrow> Some x)"
  using queues_rep [of s qs l] by (auto simp: rep_def dest: seg_hd)

lemma queuesI:
  assumes "\<And>l. rep s l (qs l)"
    and "\<And>l l' x. l \<noteq> l' \<Longrightarrow> x \<in> set (qs l) \<Longrightarrow> x \<notin> set (qs l')"
    and "\<And>l x. x \<in> set (qs l) \<Longrightarrow> x < NPROC"
    and "\<And>l. \<not> in_struct l \<Longrightarrow> qs l = []"
  shows "queues s qs"
  using assms unfolding queues_def by (intro conjI allI impI) auto

text \<open>Changing one list, where the nodes whose links change are in no other list.\<close>

lemma queues_update:
  assumes q: "queues s qs" and st: "in_struct l"
    and new: "rep s' l xs" and xs: "set xs \<subseteq> set (qs l) \<union> N" "N \<subseteq> {..<NPROC}"
    and N: "\<And>x l'. x \<in> N \<Longrightarrow> x \<notin> set (qs l')"
    and hd: "\<And>l'. l' \<noteq> l \<Longrightarrow> heads s' l' = heads s l'"
    and tl: "\<And>l'. l' \<noteq> l \<Longrightarrow> tails s' l' = tails s l'"
    and nx: "\<And>i. i \<notin> set (qs l) \<union> N \<Longrightarrow> nxt s' i = nxt s i"
  shows "queues s' (qs(l := xs))"
proof (rule queuesI)
  fix l'
  show "rep s' l' ((qs(l := xs)) l')"
  proof (cases "l' = l")
    case True
    then show ?thesis using new by simp
  next
    case False
    have "seg (nxt s') (heads s l') (qs l') None = seg (nxt s) (heads s l') (qs l') None"
    proof (rule seg_cong)
      fix x
      assume x: "x \<in> set (qs l')"
      then have "x \<notin> set (qs l)" and "x \<notin> N"
        using queues_disj [OF q False x] N [of x l'] by auto
      then show "nxt s' x = nxt s x" by (intro nx) auto
    qed
    then show ?thesis
      using False queues_rep [OF q, of l'] by (simp add: rep_def hd tl)
  qed
next
  fix l1 l2 x
  assume "l1 \<noteq> l2" and "x \<in> set ((qs(l := xs)) l1)"
  then show "x \<notin> set ((qs(l := xs)) l2)"
    using queuesD(2) [OF q] xs(1) N by (auto split: if_splits)
next
  fix l' x
  assume "x \<in> set ((qs(l := xs)) l')"
  then show "x < NPROC"
    using queues_bound [OF q] xs by (auto split: if_splits)
next
  fix l'
  assume "\<not> in_struct l'"
  then show "(qs(l := xs)) l' = []"
    using queues_struct [OF q, of l'] st by auto
qed


section \<open>The list operations implement the queue operations\<close>

lemma stateListAdd_queues:
  assumes q: "queues s qs" and st: "in_struct l" and p: "p < NPROC" "\<And>l'. p \<notin> set (qs l')"
  shows "\<exists>s'. stateListAdd l p s = Ok s' \<and> queues s' (qs(l := qs l @ [p])) \<and> payload s' = payload s"
proof (cases "qs l" rule: rev_cases)
  case Nil
  let ?s = "set_next p None (set_tail l (Some p) (set_head l (Some p) s))"
  have "heads s l = None" using queues_head [OF q, of l] Nil by simp
  then have "stateListAdd l p s = Ok ?s" using st by (simp add: stateListAdd_def)
  moreover have "queues ?s (qs(l := [p]))"
    by (rule queues_update [OF q st, where N = "{p}"]) (use p Nil in \<open>auto simp: rep_def tail_of_def\<close>)
  ultimately show ?thesis using Nil by simp
next
  case (snoc ys t)
  let ?s = "set_next p None (set_tail l (Some p) (set_next t (Some p) s))"
  have r: "seg (nxt s) (heads s l) (ys @ [t]) None" "tails s l = Some t"
    using queues_rep [OF q, of l] snoc by (simp_all add: rep_def)
  have hd: "heads s l \<noteq> None" using r(1) by (cases ys) auto
  have tp: "t \<noteq> p" and ty: "t \<notin> set ys" and py: "p \<notin> set ys"
    using p(2) [of l] snoc seg_None_distinct [OF r(1)] by auto
  have nt: "p_next (procs (set_next t (Some p) s) t) = Some p"
    by (simp add: set_next_def)
  have "stateListAdd l p s = Ok ?s"
    using st hd r(2) nt by (auto simp add: stateListAdd_def Let_def)
  moreover have "queues ?s (qs(l := (ys @ [t]) @ [p]))"
  proof (rule queues_update [OF q st, where N = "{p}"])
    show "rep ?s l ((ys @ [t]) @ [p])"
      using r tp ty py by (auto simp: rep_def seg_append seg_frame tail_of_def)
  qed (use p snoc in auto)
  ultimately show ?thesis using snoc by auto
qed

lemma stateListAddAtHead_queues:
  assumes q: "queues s qs" and st: "in_struct l" and p: "p < NPROC" "\<And>l'. p \<notin> set (qs l')"
  shows "\<exists>s'. stateListAddAtHead l p s = Ok s' \<and> queues s' (qs(l := p # qs l)) \<and> payload s' = payload s"
proof (cases "qs l")
  case Nil
  let ?s = "set_next p None (set_tail l (Some p) (set_head l (Some p) s))"
  have "heads s l = None" using queues_head [OF q, of l] Nil by simp
  then have "stateListAddAtHead l p s = Ok ?s" using st by (simp add: stateListAddAtHead_def)
  moreover have "queues ?s (qs(l := [p]))"
    by (rule queues_update [OF q st, where N = "{p}"]) (use p Nil in \<open>auto simp: rep_def tail_of_def\<close>)
  ultimately show ?thesis using Nil by simp
next
  case (Cons x xs)
  let ?s = "set_head l (Some p) (set_next p (heads s l) s)"
  have r: "rep s l (x # xs)" using queues_rep [OF q, of l] Cons by simp
  have px: "p \<notin> set (x # xs)" using p(2) [of l] Cons by simp
  have "stateListAddAtHead l p s = Ok ?s"
    using st r by (simp add: stateListAddAtHead_def rep_def)
  moreover have "queues ?s (qs(l := p # x # xs))"
  proof (rule queues_update [OF q st, where N = "{p}"])
    show "rep ?s l (p # x # xs)"
      using r px by (simp add: rep_def seg_frame tail_of_Cons)
  qed (use p Cons in auto)
  ultimately show ?thesis using Cons by auto
qed

lemma stateListRemove_queues:
  assumes q: "queues s qs" and p: "p \<in> set (qs l)"
  shows "\<exists>s'. stateListRemove l (Some p) s = Ok (0, s') \<and> queues s' (qs(l := remove1 p (qs l)))
    \<and> payload s' = payload s"
proof -
  obtain xs ys where l: "qs l = xs @ p # ys" and px: "p \<notin> set xs"
    using split_list_first [OF p] by blast
  have st: "in_struct l" using queues_struct [OF q] p by force
  have r: "seg (nxt s) (heads s l) (xs @ p # ys) None" "tails s l = tail_of (xs @ p # ys)"
    using queues_rep [OF q, of l] l by (simp_all add: rep_def)
  have d: "distinct (xs @ p # ys)" using queues_distinct [OF q, of l] l by simp
  have rm: "remove1 p (qs l) = xs @ ys" using l px by (simp add: remove1_append_notin)
  have tl: "tails s l = Some (last (p # ys))" using r(2) by (simp add: tail_of_def)
  show ?thesis
  proof (cases xs rule: rev_cases)
    case Nil
    let ?s = "set_head l (nxt s p) s"
    let ?t = "if last (p # ys) = p then set_tail l None ?s else ?s"
    have hd: "heads s l = Some p" using r(1) Nil by simp
    have ys: "last (p # ys) = p \<longleftrightarrow> ys = []" using d by (auto simp: Nil)
    have "stateListRemove l (Some p) s = Ok (0, ?t)"
      using st hd tl by (simp add: stateListRemove_def Let_def nxt_def)
    moreover have "queues ?t (qs(l := ys))"
    proof (rule queues_update [OF q st, where N = "{}"])
      show "rep ?t l ys"
        using r Nil ys tl by (auto simp: rep_def tail_of_def)
    qed (use l in auto)
    ultimately show ?thesis using rm Nil by auto
  next
    case (snoc us pr)
    let ?s = "if ys = [] then set_next pr None (set_tail l (Some pr) s) else set_next pr (nxt s p) s"
    let ?t = "set_next p None ?s"
    have hd: "heads s l = Some (hd xs)" and hp: "hd xs \<noteq> p"
      using r(1) px snoc by (cases us; auto)+
    have "length xs < Suc NPROC" using queues_length [OF q, of l] l by simp
    from sl_search_found [OF r(1) px this, of None] hd
    have search: "sl_search (Suc NPROC) (\<lambda>i. p_next (procs s i)) p (Some (hd xs)) None
        = Ok (Some p, Some pr)"
      using snoc by (simp add: nxt_def [abs_def])
    have tp: "last (p # ys) = p \<longleftrightarrow> ys = []" using d by auto
    have "stateListRemove l (Some p) s = Ok (0, ?t)"
      using st hd tl hp search tp
      by (auto simp del: sl_search.simps simp add: stateListRemove_def Let_def nxt_def)
    moreover have "queues ?t (qs(l := us @ pr # ys))"
    proof (rule queues_update [OF q st, where N = "{}"])
      have n: "seg (nxt s) (heads s l) us (Some pr)" "nxt s pr = Some p" "seg (nxt s) (nxt s p) ys None"
        using r(1) snoc by (auto simp: seg_append)
      have out: "p \<notin> set us" "p \<noteq> pr" "p \<notin> set ys" "pr \<notin> set us" "pr \<notin> set ys"
        using d snoc by auto
      have "seg (nxt ?t) (heads s l) (us @ pr # ys) None"
        using n out by (auto simp: seg_append seg_frame)
      then show "rep ?t l (us @ pr # ys)"
        using tl by (auto simp: rep_def tail_of_def)
    qed (use l snoc in auto)
    ultimately show ?thesis using rm snoc by auto
  qed
qed

lemma stateListRemove_absent:
  assumes q: "queues s qs" and p: "p \<notin> set (qs l)" and ne: "qs l \<noteq> []"
  shows "stateListRemove l (Some p) s = Ok (-1, s)"
proof -
  obtain x xs where l: "qs l = x # xs" using ne by (cases "qs l") auto
  have r: "seg (nxt s) (Some x) (x # xs) None" "heads s l = Some x" "tails s l = Some (last (x # xs))"
    using queues_rep [OF q, of l] l by (auto simp: rep_def tail_of_def)
  have st: "in_struct l" using queues_struct [OF q ne] .
  have "length (x # xs) < Suc NPROC" using queues_length [OF q, of l] l by simp
  then obtain pv where "sl_search (Suc NPROC) (nxt s) p (Some x) None = Ok (None, pv)"
    using sl_search_absent [OF r(1)] p l by fastforce
  then have "sl_search (Suc NPROC) (\<lambda>i. p_next (procs s i)) p (Some x) None = Ok (None, pv)"
    by (simp only: nxt_def [abs_def])
  then show ?thesis
    using st r p l by (simp del: sl_search.simps add: stateListRemove_def)
qed

lemma stateListRemove_empty:
  assumes "queues s qs" and "qs l = []"
  shows "stateListRemove l (Some p) s = Fault"
  using queues_head [OF assms(1), of l] assms(2) by (simp add: stateListRemove_def)


section \<open>The contract of the state lists\<close>

text \<open>
  What the scheduler relies on: the lists represent disjoint queues of table slots, adding
  appends or prepends, removing removes, and nothing but the links changes (\<open>core\<close> is the
  state without them). \<open>touch f\<close> says that \<open>f\<close> changes no link.
\<close>

locale state_queues =
  fixes valid :: "'s \<Rightarrow> (lname \<Rightarrow> nat list) \<Rightarrow> bool"
    and core :: "'s \<Rightarrow> 's"
    and add :: "lname \<Rightarrow> nat \<Rightarrow> 's \<Rightarrow> 's outcome"
    and add_head :: "lname \<Rightarrow> nat \<Rightarrow> 's \<Rightarrow> 's outcome"
    and remove :: "lname \<Rightarrow> nat \<Rightarrow> 's \<Rightarrow> (int \<times> 's) outcome"
  assumes disjoint: "valid s qs \<Longrightarrow> l \<noteq> l' \<Longrightarrow> p \<in> set (qs l) \<Longrightarrow> p \<notin> set (qs l')"
    and distinct_q: "valid s qs \<Longrightarrow> distinct (qs l)"
    and slots: "valid s qs \<Longrightarrow> p \<in> set (qs l) \<Longrightarrow> p < NPROC"
    and add_ok: "valid s qs \<Longrightarrow> in_struct l \<Longrightarrow> p < NPROC \<Longrightarrow> (\<And>l'. p \<notin> set (qs l')) \<Longrightarrow>
      \<exists>t. add l p s = Ok t \<and> valid t (qs(l := qs l @ [p])) \<and> core t = core s"
    and add_head_ok: "valid s qs \<Longrightarrow> in_struct l \<Longrightarrow> p < NPROC \<Longrightarrow> (\<And>l'. p \<notin> set (qs l')) \<Longrightarrow>
      \<exists>t. add_head l p s = Ok t \<and> valid t (qs(l := p # qs l)) \<and> core t = core s"
    and remove_ok: "valid s qs \<Longrightarrow> p \<in> set (qs l) \<Longrightarrow>
      \<exists>t. remove l p s = Ok (0, t) \<and> valid t (qs(l := remove1 p (qs l))) \<and> core t = core s"
begin

lemma gone_after_remove:
  assumes "valid s qs" and "p \<in> set (qs l)"
  shows "p \<notin> set ((qs(l := remove1 p (qs l))) l')"
  using disjoint [OF assms(1) _ assms(2), of l'] distinct_q [OF assms(1), of l] by auto

text \<open>Moving a node from one queue to the end, or the front, of another.\<close>

lemma move:
  assumes v: "valid s qs" and p: "p \<in> set (qs l)" and st: "in_struct l'"
    and f: "\<And>t qs. valid t qs \<Longrightarrow> valid (f t) qs" "\<And>t. core (f t) = g (core t)"
  shows "\<exists>t. bnd (remove l p s) (\<lambda>(r, u). add l' p (f u)) = Ok t \<and>
    valid t ((qs(l := remove1 p (qs l)))(l' := (qs(l := remove1 p (qs l))) l' @ [p])) \<and>
    core t = g (core s)"
proof -
  let ?qs = "qs(l := remove1 p (qs l))"
  obtain u where u: "remove l p s = Ok (0, u)" "valid u ?qs" "core u = core s"
    using remove_ok [OF v p] by blast
  obtain t where "add l' p (f u) = Ok t" "valid t (?qs(l' := ?qs l' @ [p]))" "core t = core (f u)"
    using add_ok [OF f(1) [OF u(2)] st slots [OF v p] gone_after_remove [OF v p]] by blast
  then show ?thesis using u f(2) by auto
qed

end

interpretation sq: state_queues queues payload stateListAdd stateListAddAtHead
  "\<lambda>l p. stateListRemove l (Some p)"
  by unfold_locales
    (blast dest: queuesD(2) queues_distinct queuesD(3)
      intro: stateListAdd_queues stateListAddAtHead_queues stateListRemove_queues)+

section \<open>Frame rules\<close>

lemma queues_cong:
  assumes "nxt s' = nxt s" and "heads s' = heads s" and "tails s' = tails s"
  shows "queues s' qs = queues s qs"
  using assms by (simp add: queues_def rep_def)

lemma queues_upd_proc:
  assumes "\<And>r. p_next (f r) = p_next r"
  shows "queues (upd_proc p f s) qs = queues s qs"
  by (rule queues_cong) (auto simp: nxt_def assms fun_eq_iff)

lemma queues_set_state [simp]: "queues (set_state p st s) qs = queues s qs"
  unfolding set_state_def by (rule queues_upd_proc) simp

lemma queues_lock [simp]:
  "queues (locked_by c l s) qs = queues s qs" "queues (unlocked_by c l s) qs = queues s qs"
  "queues (upd_cpu c f s) qs = queues s qs"
  by (rule queues_cong; simp add: nxt_def fun_eq_iff)+

lemma payload_eqD:
  assumes "payload t = payload s"
  shows payload_proc: "(procs t i)\<lparr>p_next := None\<rparr> = (procs s i)\<lparr>p_next := None\<rparr>"
    and payload_locks: "locks t = locks s" and payload_cpus: "cpus t = cpus s"
    and payload_promote: "promoteAtTime t = promoteAtTime s" and payload_ticks: "ticks t = ticks s"
    and payload_nextpid: "nextpid t = nextpid s" and payload_initproc: "initproc t = initproc s"
    and payload_kpgdir: "kpgdir t = kpgdir s" and payload_more: "ptab.more t = ptab.more s"
proof -
  have "procs (payload t) i = procs (payload s) i" using assms by simp
  then show "(procs t i)\<lparr>p_next := None\<rparr> = (procs s i)\<lparr>p_next := None\<rparr>"
    by (simp add: payload_def)
  have "locks (payload t) = locks (payload s)" "cpus (payload t) = cpus (payload s)"
    "promoteAtTime (payload t) = promoteAtTime (payload s)" "ticks (payload t) = ticks (payload s)"
    "nextpid (payload t) = nextpid (payload s)" "initproc (payload t) = initproc (payload s)"
    "kpgdir (payload t) = kpgdir (payload s)" "ptab.more (payload t) = ptab.more (payload s)"
    using assms by simp_all
  then show "locks t = locks s" "cpus t = cpus s" "promoteAtTime t = promoteAtTime s"
    "ticks t = ticks s" "nextpid t = nextpid s" "initproc t = initproc s"
    "kpgdir t = kpgdir s" "ptab.more t = ptab.more s"
    by (simp_all add: payload_def)
qed

lemma p_next_eqD:
  assumes "(r::proc)\<lparr>p_next := None\<rparr> = r'\<lparr>p_next := None\<rparr>"
  shows "p_state r = p_state r'" "p_priority r = p_priority r'" "p_pid r = p_pid r'"
    "p_parent r = p_parent r'" "p_chan r = p_chan r'" "p_killed r = p_killed r'"
    "p_budget r = p_budget r'" "p_kstack r = p_kstack r'" "p_pgdir r = p_pgdir r'"
    "p_sz r = p_sz r'" "p_tf r = p_tf r'" "p_tfp r = p_tfp r'" "p_ret r = p_ret r'"
    "p_contextp r = p_contextp r'" "p_context r = p_context r'" "p_ofile r = p_ofile r'"
    "p_cwd r = p_cwd r'" "p_name r = p_name r'" "p_start_ticks r = p_start_ticks r'"
    "p_gid r = p_gid r'" "p_uid r = p_uid r'" "p_cpu_ticks_total r = p_cpu_ticks_total r'"
    "p_cpu_ticks_in r = p_cpu_ticks_in r'"
  using assms by (cases r; cases r'; simp)+

lemmas payload_fields = p_next_eqD [OF payload_proc]
lemmas payload_globals = payload_locks payload_cpus payload_promote payload_ticks
  payload_nextpid payload_initproc payload_kpgdir payload_more

lemma leave_list_ok:
  assumes "queues s qs" and "p \<in> set (qs l)" and "p_state (procs s p) = st"
  shows "\<exists>t. leave_list msg l p st s = Ok t \<and> queues t (qs(l := remove1 p (qs l))) \<and>
    payload t = payload s"
proof -
  obtain t where t: "stateListRemove l (Some p) s = Ok (0, t)"
    "queues t (qs(l := remove1 p (qs l)))" "payload t = payload s"
    using sq.remove_ok [OF assms(1,2)] by blast
  then have "p_state (procs t p) = st" using assms(3) payload_fields(1) [OF t(3)] by simp
  with t show ?thesis by (simp add: leave_list_def assertState_def)
qed

lemma enter_list_ok:
  assumes "queues s qs" and "in_struct l" and "p < NPROC" and "\<And>l'. p \<notin> set (qs l')"
    and "p_state (procs s p) = st"
  shows enter_tail_ok: "\<exists>t. enter_list stateListAdd l p st s = Ok t \<and> queues t (qs(l := qs l @ [p])) \<and>
      payload t = payload s"
    and enter_head_ok: "\<exists>t. enter_list stateListAddAtHead l p st s = Ok t \<and>
      queues t (qs(l := p # qs l)) \<and> payload t = payload s"
proof -
  obtain t where t: "stateListAdd l p s = Ok t" "queues t (qs(l := qs l @ [p]))" "payload t = payload s"
    using sq.add_ok [OF assms(1-4)] by blast
  then have "p_state (procs t p) = st" using assms(5) payload_fields(1) [OF t(3)] by simp
  with t show "\<exists>t. enter_list stateListAdd l p st s = Ok t \<and> queues t (qs(l := qs l @ [p])) \<and>
      payload t = payload s"
    by (simp add: enter_list_def assertState_def)
  obtain t where t: "stateListAddAtHead l p s = Ok t" "queues t (qs(l := p # qs l))"
    "payload t = payload s"
    using sq.add_head_ok [OF assms(1-4)] by blast
  then have "p_state (procs t p) = st" using assms(5) payload_fields(1) [OF t(3)] by simp
  with t show "\<exists>t. enter_list stateListAddAtHead l p st s = Ok t \<and>
      queues t (qs(l := p # qs l)) \<and> payload t = payload s"
    by (simp add: enter_list_def assertState_def)
qed

end
