(* ===== verification/Sched.thy ===== *)
theory Sched
  imports ProcLists
begin

text \<open>
  The scheduler of \<^verbatim>\<open>src/proc.c\<close>: the multi-level feedback queue (\<^verbatim>\<open>promoteAll\<close>,
  \<^verbatim>\<open>demoteProc\<close>, \<^verbatim>\<open>setPriority\<close>, \<^verbatim>\<open>getPriority\<close>, \<^verbatim>\<open>assertPriority\<close>), the transitions between
  process states (\<^verbatim>\<open>scheduler\<close>, \<^verbatim>\<open>sched\<close>, \<^verbatim>\<open>yield\<close>, \<^verbatim>\<open>sleep\<close>, \<^verbatim>\<open>wakeup1\<close>, \<^verbatim>\<open>wakeup\<close>, \<^verbatim>\<open>kill\<close>) and
  the context-switch helpers \<^verbatim>\<open>switchuvm\<close> and \<^verbatim>\<open>switchkvm\<close> of \<^verbatim>\<open>src/vm.c\<close>.
  A routine that gives up the CPU in its middle is two definitions: the part up to
  \<^verbatim>\<open>swtch\<close>, and the part that runs when the process is dispatched again (\<open>_resume\<close>).
\<close>

section \<open>Context switch helpers\<close>

definition KSTACKSIZE :: uint32 where "KSTACKSIZE = 4096"

definition v2p :: "uint32 \<Rightarrow> uint32" where "v2p a = a - KERNBASE"

definition p2v :: "uint32 \<Rightarrow> uint32" where "p2v a = a + KERNBASE"

text \<open>The process that runs on CPU \<open>c\<close> (the per-CPU variable \<^verbatim>\<open>proc\<close>).\<close>

definition cur :: "nat \<Rightarrow> 'a hw_scheme \<Rightarrow> ptr" where
  "cur c s = c_proc (cpus s c)"

definition set_cur :: "nat \<Rightarrow> ptr \<Rightarrow> 'a hw_scheme \<Rightarrow> 'a hw_scheme" where
  "set_cur c p s = upd_cpu c (\<lambda>r. r\<lparr>c_proc := p\<rparr>) s"

definition switchkvm :: "nat \<Rightarrow> 'a ptab_scheme \<Rightarrow> 'a ptab_scheme" where
  "switchkvm c s = upd_cpu c (\<lambda>r. r\<lparr>c_cr3 := v2p (kpgdir s)\<rparr>) s"

text \<open>The task-state descriptor itself is hardware layout; what it selects, the kernel stack
  for the next trap, is \<open>c_esp0\<close>.\<close>

definition switchuvm :: "nat \<Rightarrow> nat \<Rightarrow> 'a ptab_scheme \<Rightarrow> 'a ptab_scheme outcome" where
  "switchuvm c p s =
     (let s = pushcli c s
      in bnd (deref (cur c s)) (\<lambda>me.
         let s = upd_cpu c (\<lambda>r. r\<lparr>c_esp0 := p_kstack (procs s me) + KSTACKSIZE\<rparr>) s
         in if p_pgdir (procs s p) = 0 then Panic ''switchuvm: no pgdir''
            else popcli c (upd_cpu c (\<lambda>r. r\<lparr>c_cr3 := v2p (p_pgdir (procs s p))\<rparr>) s)))"

section \<open>Priorities and budgets\<close>

definition ready :: "uint32 \<Rightarrow> lname" where
  "ready pr = Lready (unat pr)"

text \<open>\<^verbatim>\<open>if (!holding(&ptable.lock)) { acquire(&ptable.lock); locked = 1; }\<close>\<close>

definition lock_if_free :: "nat \<Rightarrow> 'a ptab_scheme \<Rightarrow> (bool \<times> 'a ptab_scheme) outcome" where
  "lock_if_free c s =
     (if \<not> holding c Lk_ptable s then bnd (acquire c Lk_ptable s) (\<lambda>s. Ok (True, s))
      else Ok (False, s))"

definition unlock_if :: "nat \<Rightarrow> bool \<Rightarrow> 'a ptab_scheme \<Rightarrow> 'a ptab_scheme outcome" where
  "unlock_if c lk s = (if lk then release c Lk_ptable s else Ok s)"

definition check_priority :: "nat \<Rightarrow> nat \<Rightarrow> 'a ptab_scheme \<Rightarrow> 'a ptab_scheme outcome" where
  "check_priority i p s =
     (if p_priority (procs s p) \<noteq> of_nat i
      then Panic ''assertPriority - p not in right priority list'' else Ok s)"

definition assertPriority :: "nat \<Rightarrow> 'a ptab_scheme \<Rightarrow> 'a ptab_scheme outcome" where
  "assertPriority c s =
     bnd (lock_if_free c s) (\<lambda>(lk, s).
     bnd (for_each (\<lambda>i s. walk NPROC (check_priority i) (heads s (Lready i)) s) [0..<Suc MAXPRIO] s)
       (unlock_if c lk))"

text \<open>Lines 1307 to 1330 of \<^verbatim>\<open>promoteAll\<close>: splice list 1 behind list 0, move the others up.\<close>

definition splice01 :: "'a ptab_scheme \<Rightarrow> 'a ptab_scheme" where
  "splice01 s =
     (case (heads s (Lready 0), tails s (Lready 0)) of
        (Some h, Some t) \<Rightarrow>
          let s = set_next t (heads s (Lready 1)) s
          in if tails s (Lready 1) \<noteq> None then set_tail (Lready 0) (tails s (Lready 1)) s else s
      | _ \<Rightarrow> set_tail (Lready 0) (tails s (Lready 1)) (set_head (Lready 0) (heads s (Lready 1)) s))"

definition shift_up :: "nat \<Rightarrow> 'a ptab_scheme \<Rightarrow> 'a ptab_scheme" where
  "shift_up i s = set_tail (Lready i) (tails s (Lready (i + 1)))
     (set_head (Lready i) (heads s (Lready (i + 1))) s)"

definition clear_list :: "lname \<Rightarrow> 'a ptab_scheme \<Rightarrow> 'a ptab_scheme" where
  "clear_list l s = set_tail l None (set_head l None s)"

definition promote_lists :: "'a ptab_scheme \<Rightarrow> 'a ptab_scheme" where
  "promote_lists s =
     clear_list (Lready MAXPRIO)
       (fold shift_up [1..<MAXPRIO] (clear_list (Lready 1) (splice01 s)))"

definition reset_budget :: "nat \<Rightarrow> nat \<Rightarrow> 'a ptab_scheme \<Rightarrow> 'a ptab_scheme outcome" where
  "reset_budget i p s = Ok (upd_proc p (\<lambda>r. r\<lparr>p_budget := MAXBUDG, p_priority := of_nat i\<rparr>) s)"

definition lift_one :: "nat \<Rightarrow> 'a ptab_scheme \<Rightarrow> 'a ptab_scheme outcome" where
  "lift_one p s = Ok (upd_proc p (\<lambda>r.
     (if p_priority r > 0 then r\<lparr>p_priority := p_priority r - 1\<rparr> else r)\<lparr>p_budget := MAXBUDG\<rparr>) s)"

definition promoteAll :: "nat \<Rightarrow> 'a ptab_scheme \<Rightarrow> 'a ptab_scheme outcome" where
  "promoteAll c s =
     bnd (lock_if_free c s) (\<lambda>(lk, s).
     if ticks s < promoteAtTime s then Ok s
     else
       let s = promote_lists s
       in bnd (for_each (\<lambda>i s. walk NPROC (reset_budget i) (heads s (Lready i)) s) [0..<MAXPRIO] s) (\<lambda>s.
          bnd (walk NPROC lift_one (heads s Lsleep) s) (\<lambda>s.
          bnd (walk NPROC lift_one (heads s Lrunning) s) (\<lambda>s.
          unlock_if c lk (s\<lparr>promoteAtTime := ticks s + TICKS_TO_PROMOTE\<rparr>)))))"

definition demoteProc :: "nat \<Rightarrow> nat \<Rightarrow> 'a ptab_scheme \<Rightarrow> 'a ptab_scheme outcome" where
  "demoteProc c p s =
     (if p_budget (procs s p) \<le> MAXBUDG then Ok s
      else
        bnd (lock_if_free c s) (\<lambda>(lk, s).
        let s = (if p_priority (procs s p) < of_nat MAXPRIO
                 then upd_proc p (\<lambda>r. r\<lparr>p_priority := p_priority r + 1\<rparr>) s else s);
            s = upd_proc p (\<lambda>r. r\<lparr>p_budget := MAXBUDG\<rparr>) s
        in unlock_if c lk s))"

text \<open>The first ready list, in index order from \<open>i\<close>, with a node that satisfies \<open>P\<close>.\<close>

fun find_ready :: "nat list \<Rightarrow> (nat \<Rightarrow> bool) \<Rightarrow> 'a ptab_scheme \<Rightarrow> (nat \<times> nat) option outcome" where
  "find_ready [] P s = Ok None"
| "find_ready (i # is) P s =
     bnd (find_node NPROC P (heads s (Lready i)) (procs s)) (\<lambda>r.
     case r of Some p \<Rightarrow> Ok (Some (i, p)) | None \<Rightarrow> find_ready is P s)"

definition has_pid :: "'a ptab_scheme \<Rightarrow> int \<Rightarrow> nat \<Rightarrow> bool" where
  "has_pid s n p \<longleftrightarrow> p_pid (procs s p) = word_of_int n"

definition prio_ok :: "int \<Rightarrow> bool" where
  "prio_ok n \<longleftrightarrow> n \<le> int MAXPRIO \<and> 0 \<le> n"

text \<open>The search of \<^verbatim>\<open>setPriority\<close> in the running or the sleeping list: the caller's priority
  is stored as it is, and a bad one returns with the lock still held.\<close>

definition setPriority_in :: "nat \<Rightarrow> bool \<Rightarrow> int \<Rightarrow> nat \<Rightarrow> 'a ptab_scheme \<Rightarrow> (int \<times> 'a ptab_scheme) outcome" where
  "setPriority_in c lk prio p s =
     (if prio_ok prio then
        bnd (unlock_if c lk (upd_proc p (\<lambda>r. r\<lparr>p_priority := word_of_int prio, p_budget := MAXBUDG\<rparr>) s))
          (\<lambda>s. Ok (prio, s))
      else Ok (-1, s))"

definition setPriority :: "nat \<Rightarrow> int \<Rightarrow> int \<Rightarrow> 'a ptab_scheme \<Rightarrow> (int \<times> 'a ptab_scheme) outcome" where
  "setPriority c pid prio s =
     bnd (lock_if_free c s) (\<lambda>(lk, s).
     bnd (find_ready [0..<Suc MAXPRIO] (has_pid s pid) s) (\<lambda>r.
     case r of
       Some (i, p) \<Rightarrow>
         if of_nat i = p_priority (procs s p) then Ok (int i, s)
         else
           bnd (stateListRemove (ready (p_priority (procs s p))) (Some p) s) (\<lambda>(e, s).
           if e \<noteq> 0 then Panic ''setpriority - remove from ready failed''
           else if \<not> prio_ok prio then Panic ''setpriority - bad priority value''
           else
             let s = upd_proc p (\<lambda>r. r\<lparr>p_priority := of_nat MAXPRIO - word_of_int prio, p_budget := MAXBUDG\<rparr>) s
             in bnd (stateListAdd (ready (p_priority (procs s p))) p s) (\<lambda>s.
                bnd (unlock_if c lk s) (\<lambda>s. Ok (0, s))))
     | None \<Rightarrow>
         bnd (find_node NPROC (has_pid s pid) (heads s Lrunning) (procs s)) (\<lambda>r.
         case r of
           Some p \<Rightarrow> setPriority_in c lk prio p s
         | None \<Rightarrow>
             bnd (find_node NPROC (has_pid s pid) (heads s Lsleep) (procs s)) (\<lambda>r.
             case r of
               Some p \<Rightarrow> setPriority_in c lk prio p s
             | None \<Rightarrow> bnd (unlock_if c lk s) (\<lambda>s. Ok (-1, s))))))"

text \<open>
  \<^verbatim>\<open>getPriority\<close> loops to \<^verbatim>\<open>i <= MAXPRIO+1\<close>: the element behind the array \<^verbatim>\<open>ready\<close> is the
  field \<^verbatim>\<open>ready_tail[0]\<close>, so the last pass walks from the tail of list 0.
\<close>

definition ready_elem :: "nat \<Rightarrow> 'a ptab_scheme \<Rightarrow> ptr" where
  "ready_elem i s = (if i \<le> MAXPRIO then heads s (Lready i) else tails s (Lready (i - (MAXPRIO + 1))))"

fun find_ready_elem :: "nat list \<Rightarrow> (nat \<Rightarrow> bool) \<Rightarrow> 'a ptab_scheme \<Rightarrow> ptr outcome" where
  "find_ready_elem [] P s = Ok None"
| "find_ready_elem (i # is) P s =
     bnd (find_node NPROC P (ready_elem i s) (procs s)) (\<lambda>r.
     case r of Some p \<Rightarrow> Ok (Some p) | None \<Rightarrow> find_ready_elem is P s)"

definition prio_of :: "'a ptab_scheme \<Rightarrow> nat \<Rightarrow> int" where
  "prio_of s p = sint (p_priority (procs s p))"

definition getPriority :: "int \<Rightarrow> 'a ptab_scheme \<Rightarrow> int outcome" where
  "getPriority pid s =
     bnd (find_ready_elem [0..<MAXPRIO + 2] (has_pid s pid) s) (\<lambda>r.
     case r of Some p \<Rightarrow> Ok (prio_of s p)
     | None \<Rightarrow>
         bnd (find_node NPROC (has_pid s pid) (heads s Lrunning) (procs s)) (\<lambda>r.
         case r of Some p \<Rightarrow> Ok (prio_of s p)
         | None \<Rightarrow>
             bnd (find_node NPROC (has_pid s pid) (heads s Lsleep) (procs s)) (\<lambda>r.
             case r of Some p \<Rightarrow> Ok (prio_of s p) | None \<Rightarrow> Ok (-1))))"

section \<open>Transitions\<close>

text \<open>The messages of the \<^verbatim>\<open>TRANSITION\<close> blocks.\<close>

definition err_yield :: string where
  "err_yield = ''yield - remove from running failed''"

definition err_sleep :: string where
  "err_sleep = ''sleep - remove from running failed''"

definition err_wakeup1 :: string where
  "err_wakeup1 = ''wakeup1 - remove from sleep failed''"

definition err_kill :: string where
  "err_kill = ''kill - remove from sleep failed''"

definition err_scheduler :: string where
  "err_scheduler = ''scheduler - remove from ready failed''"

text \<open>\<^verbatim>\<open>sched\<close> up to \<^verbatim>\<open>swtch\<close>; it hands back \<^verbatim>\<open>cpu->intena\<close>, which it keeps on its stack.\<close>

definition sched :: "nat \<Rightarrow> 'a ptab_scheme \<Rightarrow> (bool \<times> 'a ptab_scheme) outcome" where
  "sched c s =
     (if \<not> holding c Lk_ptable s then Panic ''sched ptable.lock''
      else if c_ncli (cpus s c) \<noteq> 1 then Panic ''sched locks''
      else
        bnd (deref (cur c s)) (\<lambda>me.
        if p_state (procs s me) = RUNNING then Panic ''sched running''
        else if c_if (cpus s c) then Panic ''sched interruptible''
        else
          Ok (c_intena (cpus s c),
              upd_proc me (\<lambda>r. r\<lparr>p_cpu_ticks_total := p_cpu_ticks_total r + (ticks s - p_cpu_ticks_in r)\<rparr>) s)))"

definition sched_resume :: "nat \<Rightarrow> bool \<Rightarrow> 'a ptab_scheme \<Rightarrow> 'a ptab_scheme" where
  "sched_resume c ie s = upd_cpu c (\<lambda>r. r\<lparr>c_intena := ie\<rparr>) s"

definition charge :: "nat \<Rightarrow> 'a ptab_scheme \<Rightarrow> 'a ptab_scheme" where
  "charge p s = upd_proc p (\<lambda>r. r\<lparr>p_budget := p_budget r - (ticks s - p_cpu_ticks_in r)\<rparr>) s"

definition yield :: "nat \<Rightarrow> 'a ptab_scheme \<Rightarrow> (bool \<times> 'a ptab_scheme) outcome" where
  "yield c s =
     bnd (acquire c Lk_ptable s) (\<lambda>s.
     bnd (deref (cur c s)) (\<lambda>me.
     bnd (leave_list err_yield Lrunning me RUNNING s) (\<lambda>s.
     bnd (demoteProc c me (charge me (set_state me RUNNABLE s))) (\<lambda>s.
     bnd (enter_list stateListAdd (ready (p_priority (procs s me))) me RUNNABLE s) (\<lambda>s.
     sched c s)))))"

definition yield_resume :: "nat \<Rightarrow> bool \<Rightarrow> 'a ptab_scheme \<Rightarrow> 'a ptab_scheme outcome" where
  "yield_resume c ie s = release c Lk_ptable (sched_resume c ie s)"

text \<open>The part of \<^verbatim>\<open>sleep\<close> that runs under \<^verbatim>\<open>ptable.lock\<close>, up to the switch.\<close>

definition go_to_sleep :: "nat \<Rightarrow> nat \<Rightarrow> chan \<Rightarrow> 'a ptab_scheme \<Rightarrow> (bool \<times> 'a ptab_scheme) outcome" where
  "go_to_sleep c me ch s =
     (let s = upd_proc me (\<lambda>r. r\<lparr>p_chan := ch\<rparr>) s
      in bnd (leave_list err_sleep Lrunning me RUNNING s) (\<lambda>s.
         bnd (enter_list stateListAdd Lsleep me SLEEPING (set_state me SLEEPING s)) (\<lambda>s.
         bnd (demoteProc c me (charge me s)) (\<lambda>s.
         sched c s))))"

text \<open>\<^verbatim>\<open>lk\<close> is the lock that the caller passes; \<^term>\<open>None\<close> is the null pointer.\<close>

definition sleep :: "nat \<Rightarrow> chan \<Rightarrow> lockid option \<Rightarrow> 'a ptab_scheme \<Rightarrow> (bool \<times> 'a ptab_scheme) outcome" where
  "sleep c ch lk s =
     (case cur c s of None \<Rightarrow> Panic ''sleep''
      | Some me \<Rightarrow>
          bnd (if lk \<noteq> Some Lk_ptable then
                 bnd (acquire c Lk_ptable s) (\<lambda>s. case lk of Some l \<Rightarrow> release c l s | None \<Rightarrow> Ok s)
               else Ok s)
            (go_to_sleep c me ch))"

definition sleep_resume :: "nat \<Rightarrow> lockid option \<Rightarrow> bool \<Rightarrow> 'a ptab_scheme \<Rightarrow> 'a ptab_scheme outcome" where
  "sleep_resume c lk ie s =
     (let s = sched_resume c ie s
      in bnd (deref (cur c s)) (\<lambda>me.
         let s = upd_proc me (\<lambda>r. r\<lparr>p_chan := Chan_null\<rparr>) s
         in if lk \<noteq> Some Lk_ptable then
              bnd (release c Lk_ptable s) (\<lambda>s. case lk of Some l \<Rightarrow> acquire c l s | None \<Rightarrow> Ok s)
            else Ok s))"

definition make_ready :: "string \<Rightarrow> nat \<Rightarrow> 'a ptab_scheme \<Rightarrow> 'a ptab_scheme outcome" where
  "make_ready msg p s =
     bnd (leave_list msg Lsleep p SLEEPING s) (\<lambda>s.
     let s = set_state p RUNNABLE s
     in enter_list stateListAdd (ready (p_priority (procs s p))) p RUNNABLE s)"

definition wakeup1 :: "chan \<Rightarrow> 'a ptab_scheme \<Rightarrow> 'a ptab_scheme outcome" where
  "wakeup1 ch s =
     walk NPROC (\<lambda>p s. if p_chan (procs s p) = ch
       then make_ready err_wakeup1 p s else Ok s) (heads s Lsleep) s"

definition wakeup :: "nat \<Rightarrow> chan \<Rightarrow> 'a ptab_scheme \<Rightarrow> 'a ptab_scheme outcome" where
  "wakeup c ch s =
     bnd (acquire c Lk_ptable s) (\<lambda>s.
     bnd (wakeup1 ch s) (release c Lk_ptable))"

definition set_killed :: "nat \<Rightarrow> 'a ptab_scheme \<Rightarrow> 'a ptab_scheme" where
  "set_killed p s = upd_proc p (\<lambda>r. r\<lparr>p_killed := True\<rparr>) s"

text \<open>The list that \<^verbatim>\<open>kill\<close> finds the process in: embryo, ready, running, sleep, in this order.\<close>

definition kill_search :: "int \<Rightarrow> 'a ptab_scheme \<Rightarrow> (bool \<times> nat) option outcome" where
  "kill_search pid s =
     bnd (find_node NPROC (has_pid s pid) (heads s Lembryo) (procs s)) (\<lambda>r.
     case r of Some p \<Rightarrow> Ok (Some (False, p)) | None \<Rightarrow>
     bnd (find_ready [0..<Suc MAXPRIO] (has_pid s pid) s) (\<lambda>r.
     case r of Some (i, p) \<Rightarrow> Ok (Some (False, p)) | None \<Rightarrow>
     bnd (find_node NPROC (has_pid s pid) (heads s Lrunning) (procs s)) (\<lambda>r.
     case r of Some p \<Rightarrow> Ok (Some (False, p)) | None \<Rightarrow>
     bnd (find_node NPROC (has_pid s pid) (heads s Lsleep) (procs s)) (\<lambda>r.
     case r of Some p \<Rightarrow> Ok (Some (True, p)) | None \<Rightarrow> Ok None))))"

definition kill :: "nat \<Rightarrow> int \<Rightarrow> 'a ptab_scheme \<Rightarrow> (int \<times> 'a ptab_scheme) outcome" where
  "kill c pid s =
     bnd (acquire c Lk_ptable s) (\<lambda>s.
     bnd (kill_search pid s) (\<lambda>r.
     case r of
       None \<Rightarrow> bnd (release c Lk_ptable s) (\<lambda>s. Ok (-1, s))
     | Some (asleep, p) \<Rightarrow>
         bnd (if asleep then make_ready err_kill p (set_killed p s)
              else Ok (set_killed p s)) (\<lambda>s.
         bnd (release c Lk_ptable s) (\<lambda>s. Ok (0, s)))))"

section \<open>The scheduler loop\<close>

text \<open>
  One round of \<^verbatim>\<open>scheduler\<close>. \<open>scheduler_begin\<close> is the head of the outer loop;
  \<open>scheduler_from\<close> the loop over the ready lists from index \<open>i\<close>, up to the \<^verbatim>\<open>swtch\<close> to the
  chosen process (\<open>Dispatched p i\<close>) or to its end (\<open>Scan_done\<close>); \<open>scheduler_back\<close> what runs when
  the process has switched back, after which the loop goes on with index \<open>i + 1\<close>;
  \<open>scheduler_end\<close> the end of the round.
\<close>

datatype scan = Dispatched nat nat | Scan_done

definition scheduler_begin :: "nat \<Rightarrow> 'a ptab_scheme \<Rightarrow> 'a ptab_scheme outcome" where
  "scheduler_begin c s =
     bnd (acquire c Lk_ptable (sti c s)) (\<lambda>s.
     bnd (assertPriority c s) (promoteAll c))"

definition dispatch :: "nat \<Rightarrow> nat \<Rightarrow> 'a ptab_scheme \<Rightarrow> 'a ptab_scheme outcome" where
  "dispatch c p s =
     (let s = set_cur c (Some p) s;
          s = upd_proc p (\<lambda>r. r\<lparr>p_cpu_ticks_in := ticks s\<rparr>) s
      in bnd (switchuvm c p s) (\<lambda>s.
         bnd (assertPriority c s) (\<lambda>s.
         bnd (leave_list err_scheduler (ready (p_priority (procs s p))) p RUNNABLE s) (\<lambda>s.
         enter_list stateListAddAtHead Lrunning p RUNNING (set_state p RUNNING s)))))"

function scheduler_from :: "nat \<Rightarrow> nat \<Rightarrow> 'a ptab_scheme \<Rightarrow> (scan \<times> 'a ptab_scheme) outcome" where
  "scheduler_from c i s =
     (if MAXPRIO < i then Ok (Scan_done, s)
      else case heads s (Lready i) of
        None \<Rightarrow> scheduler_from c (i + 1) s
      | Some p \<Rightarrow> bnd (dispatch c p s) (\<lambda>s. Ok (Dispatched p i, s)))"
  by pat_completeness auto
termination
  by (relation "measure (\<lambda>(c, i, s). Suc MAXPRIO - i)") auto

declare scheduler_from.simps [simp del]

definition scheduler_back :: "nat \<Rightarrow> 'a ptab_scheme \<Rightarrow> 'a ptab_scheme" where
  "scheduler_back c s = set_cur c None (switchkvm c s)"

text \<open>With \<open>idle\<close> set the CPU enables interrupts and halts until the next one.\<close>

definition scheduler_end :: "nat \<Rightarrow> bool \<Rightarrow> 'a ptab_scheme \<Rightarrow> 'a ptab_scheme outcome" where
  "scheduler_end c idle s =
     bnd (release c Lk_ptable s) (\<lambda>s. Ok (if idle then sti c s else s))"

section \<open>The invariant of the process table\<close>

definition state_of :: "lname \<Rightarrow> procstate" where
  "state_of l = (case l of Lready i \<Rightarrow> RUNNABLE | Lfree \<Rightarrow> UNUSED | Lsleep \<Rightarrow> SLEEPING
     | Lzombie \<Rightarrow> ZOMBIE | Lrunning \<Rightarrow> RUNNING | Lembryo \<Rightarrow> EMBRYO)"

lemma state_of_simps [simp]:
  "state_of (Lready i) = RUNNABLE" "state_of Lfree = UNUSED" "state_of Lsleep = SLEEPING"
  "state_of Lzombie = ZOMBIE" "state_of Lrunning = RUNNING" "state_of Lembryo = EMBRYO"
  by (simp_all add: state_of_def)

text \<open>A slot is filed correctly: its state is that of its list, and a ready process is in the
  list of its priority.\<close>

definition filed :: "lname \<Rightarrow> proc \<Rightarrow> bool" where
  "filed l r \<longleftrightarrow> p_state r = state_of l \<and> (\<forall>i. l = Lready i \<longrightarrow> unat (p_priority r) = i)"

text \<open>
  The lists represent disjoint queues \<open>qs\<close>; every slot of the table is in one of them; each is
  filed correctly; priorities are in range.
\<close>

definition pinv :: "'a ptab_scheme \<Rightarrow> (lname \<Rightarrow> nat list) \<Rightarrow> bool" where
  "pinv s qs \<longleftrightarrow> queues s qs \<and>
     (\<forall>l. \<forall>p \<in> set (qs l). filed l (procs s p)) \<and>
     (\<forall>p < NPROC. \<exists>l. p \<in> set (qs l)) \<and>
     (\<forall>p < NPROC. unat (p_priority (procs s p)) \<le> MAXPRIO)"

lemma pinvD:
  assumes "pinv s qs"
  shows pinv_queues: "queues s qs"
    and pinv_filed: "p \<in> set (qs l) \<Longrightarrow> filed l (procs s p)"
    and pinv_cover: "p < NPROC \<Longrightarrow> \<exists>l. p \<in> set (qs l)"
    and pinv_prio: "p < NPROC \<Longrightarrow> unat (p_priority (procs s p)) \<le> MAXPRIO"
  using assms by (auto simp: pinv_def)

lemma pinv_bound: "pinv s qs \<Longrightarrow> p \<in> set (qs l) \<Longrightarrow> p < NPROC"
  by (blast dest: pinv_queues queuesD(3))

lemma pinv_state: "pinv s qs \<Longrightarrow> p \<in> set (qs l) \<Longrightarrow> p_state (procs s p) = state_of l"
  by (auto dest: pinv_filed simp: filed_def)

lemma pinv_ready: "pinv s qs \<Longrightarrow> p \<in> set (qs (Lready i)) \<Longrightarrow> unat (p_priority (procs s p)) = i"
  by (auto dest: pinv_filed simp: filed_def)

lemma in_struct_simps [simp]:
  "in_struct (Lready i) \<longleftrightarrow> i \<le> MAXPRIO" "in_struct Lfree" "in_struct Lsleep" "in_struct Lzombie"
  "in_struct Lrunning" "in_struct Lembryo"
  by (simp_all add: in_struct_def)

lemma in_struct_ready: "pinv s qs \<Longrightarrow> p < NPROC \<Longrightarrow> in_struct (ready (p_priority (procs s p)))"
  by (simp add: ready_def pinv_prio)

text \<open>In which list a slot is follows from its state and priority.\<close>

definition list_of :: "proc \<Rightarrow> lname" where
  "list_of r = (case p_state r of UNUSED \<Rightarrow> Lfree | EMBRYO \<Rightarrow> Lembryo | SLEEPING \<Rightarrow> Lsleep
     | RUNNABLE \<Rightarrow> ready (p_priority r) | RUNNING \<Rightarrow> Lrunning | ZOMBIE \<Rightarrow> Lzombie)"

lemma filed_list_of: "filed l r \<Longrightarrow> l = list_of r"
  by (cases l) (auto simp: filed_def list_of_def ready_def)

lemma pinv_list_of: "pinv s qs \<Longrightarrow> p < NPROC \<Longrightarrow> p \<in> set (qs (list_of (procs s p)))"
  using pinv_cover [of s qs p] pinv_filed [of s qs p] filed_list_of by metis

lemma pinv_iff:
  assumes "pinv s qs" and "p < NPROC"
  shows "p \<in> set (qs l) \<longleftrightarrow> l = list_of (procs s p)"
  using assms pinv_list_of [OF assms] pinv_filed [OF assms(1)] filed_list_of by metis

lemma pinv_cong:
  assumes "nxt s' = nxt s" and "heads s' = heads s" and "tails s' = tails s"
    and "\<And>p. p < NPROC \<Longrightarrow> p_state (procs s' p) = p_state (procs s p) \<and>
       p_priority (procs s' p) = p_priority (procs s p)"
  shows "pinv s' qs \<longleftrightarrow> pinv s qs"
proof -
  have "queues s' qs \<longleftrightarrow> queues s qs" by (rule queues_cong [OF assms(1-3)])
  moreover have "\<And>l p. queues s qs \<Longrightarrow> p \<in> set (qs l) \<Longrightarrow> filed l (procs s' p) = filed l (procs s p)"
    using assms(4) queuesD(3) unfolding filed_def by metis
  ultimately show ?thesis using assms(4) by (simp add: pinv_def) blast
qed

lemma pinv_lock [simp]:
  "pinv (locked_by c l s) qs = pinv s qs" "pinv (unlocked_by c l s) qs = pinv s qs"
  "pinv (upd_cpu c f s) qs = pinv s qs"
  by (rule pinv_cong; simp add: nxt_def fun_eq_iff)+

lemma pinv_upd_proc:
  assumes "\<And>r. p_next (f r) = p_next r" and "\<And>r. p_state (f r) = p_state r"
    and "\<And>r. p_priority (f r) = p_priority r"
  shows "pinv (upd_proc p f s) qs = pinv s qs"
  by (rule pinv_cong) (auto simp: nxt_def assms fun_eq_iff)

text \<open>Queue families after a move.\<close>

definition mv :: "lname \<Rightarrow> lname \<Rightarrow> nat \<Rightarrow> (lname \<Rightarrow> nat list) \<Rightarrow> lname \<Rightarrow> nat list" where
  "mv l l' p qs = (qs(l := remove1 p (qs l)))(l' := (qs(l := remove1 p (qs l))) l' @ [p])"

definition mvh :: "lname \<Rightarrow> lname \<Rightarrow> nat \<Rightarrow> (lname \<Rightarrow> nat list) \<Rightarrow> lname \<Rightarrow> nat list" where
  "mvh l l' p qs = (qs(l := remove1 p (qs l)))(l' := p # (qs(l := remove1 p (qs l))) l')"

lemma mv_simps [simp]:
  "l \<noteq> l' \<Longrightarrow> mv l l' p qs l = remove1 p (qs l)"
  "l \<noteq> l' \<Longrightarrow> mv l l' p qs l' = qs l' @ [p]"
  "k \<noteq> l \<Longrightarrow> k \<noteq> l' \<Longrightarrow> mv l l' p qs k = qs k"
  by (simp_all add: mv_def)

lemma mvh_simps [simp]:
  "l \<noteq> l' \<Longrightarrow> mvh l l' p qs l = remove1 p (qs l)"
  "l \<noteq> l' \<Longrightarrow> mvh l l' p qs l' = p # qs l'"
  "k \<noteq> l \<Longrightarrow> k \<noteq> l' \<Longrightarrow> mvh l l' p qs k = qs k"
  by (simp_all add: mvh_def)

text \<open>The invariant after slot \<open>p\<close> has moved to list \<open>l'\<close> and changed by \<open>f\<close>.\<close>

lemma pinv_moved:
  assumes inv: "pinv s qs" and p: "p \<in> set (qs l)" and ne: "l \<noteq> l'"
    and q: "queues t ((qs(l := remove1 p (qs l)))(l' := xs))" and xs: "set xs = insert p (set (qs l'))"
    and pl: "payload t = payload (upd_proc p f s)"
    and f: "filed l' (f (procs s p))" "unat (p_priority (f (procs s p))) \<le> MAXPRIO"
  shows "pinv t ((qs(l := remove1 p (qs l)))(l' := xs))"
proof -
  let ?qs = "(qs(l := remove1 p (qs l)))(l' := xs)"
  note fld = payload_fields [OF pl]
  have filed_eq: "filed k (procs t i) = filed k (procs (upd_proc p f s) i)" for k i
    by (simp only: filed_def fld)
  have mem: "x \<in> set (?qs k) \<longleftrightarrow> (if x = p then k = l' else x \<in> set (qs k))" for x k
    using queues_distinct [OF pinv_queues [OF inv], of l] ne p xs
      queuesD(2) [OF pinv_queues [OF inv] _ p] by auto
  have "\<forall>k. \<forall>x \<in> set (?qs k). filed k (procs t x)"
  proof (intro allI ballI)
    fix k x
    assume "x \<in> set (?qs k)"
    then have "if x = p then k = l' else x \<in> set (qs k)" by (simp only: mem)
    then show "filed k (procs t x)"
      using f(1) pinv_filed [OF inv, of x k] by (auto simp: filed_eq split: if_splits)
  qed
  moreover have "\<forall>x < NPROC. \<exists>k. x \<in> set (?qs k)"
  proof (intro allI impI)
    fix x
    assume "x < NPROC"
    then show "\<exists>k. x \<in> set (?qs k)"
      using pinv_cover [OF inv, of x] by (cases "x = p") (simp_all only: mem, auto)
  qed
  moreover have "\<forall>x < NPROC. unat (p_priority (procs t x)) \<le> MAXPRIO"
    using f(2) pinv_prio [OF inv] by (auto simp: fld)
  ultimately show ?thesis using q by (simp only: pinv_def simp_thms)
qed

section \<open>Loops over the lists\<close>

lemma walk_const:
  assumes "seg (nxt s) h xs None" and "length xs \<le> n" and "\<And>p. p \<in> set xs \<Longrightarrow> body p s = Ok s"
  shows "walk n body h s = Ok s"
  using assms
proof (induction xs arbitrary: h n)
  case (Cons x xs)
  then obtain m where "n = Suc m" by (cases n) auto
  with Cons show ?case by (simp add: nxt_def)
qed simp

lemma walk_skip:
  assumes "seg (nxt s) h (xs @ ys) None" and "length xs \<le> n" and "\<And>p. p \<in> set xs \<Longrightarrow> body p s = Ok s"
  shows "\<exists>h'. walk n body h s = walk (n - length xs) body h' s \<and> seg (nxt s) h' ys None"
  using assms
proof (induction xs arbitrary: h n)
  case (Cons x xs)
  then obtain m where "n = Suc m" by (cases n) auto
  with Cons show ?case by (simp add: nxt_def)
qed auto

lemma walk_fold:
  assumes "seg (nxt s) h xs None" and "length xs \<le> n"
    and "\<And>p t. body p t = Ok (g p t)" and "\<And>p t. nxt (g p t) = nxt t"
  shows "walk n body h s = Ok (fold g xs s)"
  using assms(1,2)
proof (induction xs arbitrary: h n s)
  case (Cons x xs)
  then obtain m where "n = Suc m" by (cases n) auto
  with Cons assms(3) show ?case
    using assms(4) [of x s] by (simp add: nxt_def [symmetric])
qed simp

lemma queues_seg: "queues s qs \<Longrightarrow> seg (nxt s) (heads s l) (qs l) None"
  using queues_rep [of s qs l] by (simp add: rep_def)

lemma find_node_seg:
  assumes "seg (\<lambda>i. p_next (ps i)) h xs None" and "length xs \<le> n"
  shows "find_node n P h ps = Ok (find P xs)"
  using assms
proof (induction xs arbitrary: h n)
  case (Cons x xs)
  then obtain m where "n = Suc m" by (cases n) auto
  with Cons show ?case by simp
qed simp

lemma find_node_queues:
  assumes "queues s qs"
  shows "find_node NPROC P (heads s l) (procs s) = Ok (find P (qs l))"
  by (rule find_node_seg)
    (use queues_seg [OF assms, of l] queues_length [OF assms, of l] in \<open>simp_all add: nxt_def [abs_def]\<close>)

text \<open>The first node with \<open>P\<close> among the ready queues of the given indices.\<close>

fun first_ready :: "nat list \<Rightarrow> (nat \<Rightarrow> bool) \<Rightarrow> (lname \<Rightarrow> nat list) \<Rightarrow> (nat \<times> nat) option" where
  "first_ready [] P qs = None"
| "first_ready (i # is) P qs =
     (case find P (qs (Lready i)) of Some p \<Rightarrow> Some (i, p) | None \<Rightarrow> first_ready is P qs)"

lemma find_ready_queues:
  assumes "queues s qs"
  shows "find_ready is P s = Ok (first_ready is P qs)"
  by (induction "is") (auto simp: find_node_queues [OF assms] split: option.splits)

lemma find_SomeD: "find P xs = Some x \<Longrightarrow> x \<in> set xs \<and> P x"
  by (induction xs) (auto split: if_splits)

lemma first_ready_None: "first_ready is P qs = None \<longleftrightarrow> (\<forall>i \<in> set is. \<forall>p \<in> set (qs (Lready i)). \<not> P p)"
  by (induction "is") (auto simp: find_None_iff split: option.splits dest: find_SomeD)

lemma first_ready_Some: "first_ready is P qs = Some (i, p) \<Longrightarrow> i \<in> set is \<and> p \<in> set (qs (Lready i)) \<and> P p"
  by (induction "is") (auto split: option.splits dest: find_SomeD)

section \<open>Transitions between lists\<close>

text \<open>Updates of a slot that neither read nor write its link.\<close>

definition link_free :: "(proc \<Rightarrow> proc) \<Rightarrow> bool" where
  "link_free f \<longleftrightarrow> (\<forall>r x. f (r\<lparr>p_next := x\<rparr>) = (f r)\<lparr>p_next := x\<rparr>)"

lemma link_free_next: "link_free f \<Longrightarrow> p_next (f r) = p_next r"
proof -
  assume "link_free f"
  then have "f (r\<lparr>p_next := p_next r\<rparr>) = (f r)\<lparr>p_next := p_next r\<rparr>"
    unfolding link_free_def by blast
  then have "p_next (f (r\<lparr>p_next := p_next r\<rparr>)) = p_next ((f r)\<lparr>p_next := p_next r\<rparr>)" by simp
  then show ?thesis by simp
qed

lemma link_free_comp: "link_free f \<Longrightarrow> link_free g \<Longrightarrow> link_free (\<lambda>r. g (f r))"
  by (simp add: link_free_def)

lemma upd_proc_upd_proc: "upd_proc p g (upd_proc p f s) = upd_proc p (\<lambda>r. g (f r)) s"
  by (simp add: upd_proc_def)

lemma payload_upd_proc:
  assumes "link_free f" and "payload t = payload s"
  shows "payload (upd_proc p f t) = payload (upd_proc p f s)"
proof -
  have "payload (upd_proc p f u) = upd_proc p f (payload u)" for u :: "'a ptab_scheme"
    using assms(1) by (auto simp: payload_def upd_proc_def link_free_def fun_eq_iff)
  then show ?thesis using assms(2) by simp
qed

lemma queues_link_free: "link_free f \<Longrightarrow> queues (upd_proc p f s) qs = queues s qs"
  by (rule queues_upd_proc) (rule link_free_next)

lemma set_state_upd: "set_state p st s = upd_proc p (\<lambda>r. r\<lparr>p_state := st\<rparr>) s"
  by (simp add: set_state_def)

text \<open>Leave list \<open>l\<close>, change the slot by \<open>f\<close>, enter list \<open>l'\<close> at the end (or the front).\<close>

lemma leave_ok:
  assumes "pinv s qs" and "p \<in> set (qs l)"
  shows "\<exists>u. leave_list msg l p (state_of l) s = Ok u \<and> queues u (qs(l := remove1 p (qs l))) \<and>
    payload u = payload s"
  by (rule leave_list_ok [OF pinv_queues [OF assms(1)] assms(2) pinv_state [OF assms]])

lemma enter_ok:
  assumes inv: "pinv s qs" and p: "p \<in> set (qs l)" and ne: "l \<noteq> l'" and st: "in_struct l'"
    and u: "queues u (qs(l := remove1 p (qs l)))" "payload u = payload s"
    and f: "link_free f" "filed l' (f (procs s p))" "unat (p_priority (f (procs s p))) \<le> MAXPRIO"
  shows enter_tail: "\<exists>t. enter_list stateListAdd l' p (state_of l') (upd_proc p f u) = Ok t \<and>
      pinv t (mv l l' p qs) \<and> payload t = payload (upd_proc p f s)"
    and enter_head: "\<exists>t. enter_list stateListAddAtHead l' p (state_of l') (upd_proc p f u) = Ok t \<and>
      pinv t (mvh l l' p qs) \<and> payload t = payload (upd_proc p f s)"
proof -
  let ?qs = "qs(l := remove1 p (qs l))" and ?u = "upd_proc p f u"
  have q: "queues ?u ?qs" using u(1) by (simp add: queues_link_free [OF f(1)])
  have out: "\<And>k. p \<notin> set (?qs k)"
    using sq.gone_after_remove [OF pinv_queues [OF inv] p] .
  have pl: "payload ?u = payload (upd_proc p f s)" by (rule payload_upd_proc [OF f(1) u(2)])
  have "p_state (procs ?u p) = state_of l'"
    using f(2) payload_fields(1) [OF pl, of p] by (simp add: filed_def)
  note ent = enter_list_ok [OF q st pinv_bound [OF inv p] out this]
  obtain t where t: "enter_list stateListAdd l' p (state_of l') ?u = Ok t"
    "queues t (?qs(l' := ?qs l' @ [p]))" "payload t = payload ?u"
    using ent(1) by blast
  have "pinv t (?qs(l' := ?qs l' @ [p]))"
    by (rule pinv_moved [OF inv p ne t(2), where f = f]) (use t(3) pl ne f(2,3) in auto)
  with t pl show "\<exists>t. enter_list stateListAdd l' p (state_of l') ?u = Ok t \<and>
      pinv t (mv l l' p qs) \<and> payload t = payload (upd_proc p f s)"
    by (simp add: mv_def)
  obtain t where t: "enter_list stateListAddAtHead l' p (state_of l') ?u = Ok t"
    "queues t (?qs(l' := p # ?qs l'))" "payload t = payload ?u"
    using ent(2) by blast
  have "pinv t (?qs(l' := p # ?qs l'))"
    by (rule pinv_moved [OF inv p ne t(2), where f = f]) (use t(3) pl ne f(2,3) in auto)
  with t pl show "\<exists>t. enter_list stateListAddAtHead l' p (state_of l') ?u = Ok t \<and>
      pinv t (mvh l l' p qs) \<and> payload t = payload (upd_proc p f s)"
    by (simp add: mvh_def)
qed

section \<open>Wake-up and kill\<close>

lemma make_ready_ok:
  assumes inv: "pinv s qs" and p: "p \<in> set (qs Lsleep)"
  shows "\<exists>t. make_ready msg p s = Ok t \<and> pinv t (mv Lsleep (ready (p_priority (procs s p))) p qs) \<and>
    payload t = payload (set_state p RUNNABLE s) \<and> nxt t p = None"
proof -
  let ?f = "\<lambda>r. r\<lparr>p_state := RUNNABLE\<rparr>" and ?l = "ready (p_priority (procs s p))"
  obtain u where u: "leave_list msg Lsleep p SLEEPING s = Ok u"
    "queues u (qs(Lsleep := remove1 p (qs Lsleep)))" "payload u = payload s"
    using leave_ok [OF inv p, unfolded state_of_simps] by blast
  have pr: "p_priority (procs u p) = p_priority (procs s p)" using payload_fields(2) [OF u(3)] .
  have "filed ?l (?f (procs s p))" by (simp add: filed_def ready_def)
  then obtain t where t: "enter_list stateListAdd ?l p RUNNABLE (upd_proc p ?f u) = Ok t"
    "pinv t (mv Lsleep ?l p qs)" "payload t = payload (upd_proc p ?f s)"
    using enter_tail [OF inv p _ in_struct_ready [OF inv pinv_bound [OF inv p]] u(2,3), of ?f]
      pinv_prio [OF inv pinv_bound [OF inv p]]
    by (auto simp: ready_def link_free_def)
  have "seg (nxt t) (heads t ?l) (qs ?l @ [p]) None"
    using queues_seg [OF pinv_queues [OF t(2)], of ?l] by (simp add: ready_def)
  then have "nxt t p = None" by (simp add: seg_snoc)
  with t u pr show ?thesis by (simp add: make_ready_def set_state_def)
qed

text \<open>The exact effect of \<^verbatim>\<open>wakeup1\<close>: at most the first sleeper on the channel is woken,
  because \<^verbatim>\<open>stateListAdd\<close> clears the link that the loop follows.\<close>

lemma wakeup1_none:
  assumes inv: "pinv s qs" and none: "\<forall>p \<in> set (qs Lsleep). p_chan (procs s p) \<noteq> ch"
  shows "wakeup1 ch s = Ok s"
  unfolding wakeup1_def
  by (rule walk_const [OF queues_seg [OF pinv_queues [OF inv]] queues_length [OF pinv_queues [OF inv]]])
    (use none in simp)

lemma wakeup1_first:
  assumes inv: "pinv s qs" and q: "qs Lsleep = xs @ p # ys"
    and p: "p_chan (procs s p) = ch" and xs: "\<forall>x \<in> set xs. p_chan (procs s x) \<noteq> ch"
  shows "\<exists>t. wakeup1 ch s = Ok t \<and> pinv t (mv Lsleep (ready (p_priority (procs s p))) p qs) \<and>
    payload t = payload (set_state p RUNNABLE s)"
proof -
  let ?body = "\<lambda>p s. if p_chan (procs s p) = ch
       then make_ready err_wakeup1 p s else Ok s"
  have len: "length xs < NPROC" using queues_length [OF pinv_queues [OF inv], of Lsleep] q by simp
  have sg: "seg (nxt s) (heads s Lsleep) (xs @ p # ys) None"
    using queues_seg [OF pinv_queues [OF inv], of Lsleep] q by simp
  obtain h where h: "walk NPROC ?body (heads s Lsleep) s = walk (NPROC - length xs) ?body h s"
    "seg (nxt s) h (p # ys) None"
    using walk_skip [OF sg, of NPROC ?body] len xs by auto
  obtain m where m: "NPROC - length xs = Suc m" using len by (cases "NPROC - length xs") auto
  obtain t where t: "make_ready err_wakeup1 p s = Ok t"
    "pinv t (mv Lsleep (ready (p_priority (procs s p))) p qs)"
    "payload t = payload (set_state p RUNNABLE s)" "nxt t p = None"
    using make_ready_ok [OF inv, of p] q by auto
  have "walk (Suc m) ?body (Some p) s = Ok t"
    using t(1,4) p by (simp add: nxt_def)
  with h m t show ?thesis by (auto simp: wakeup1_def)
qed

text \<open>CPU \<open>c\<close> is inside the critical section of the process table and holds no other lock.\<close>

definition in_ptlock :: "nat \<Rightarrow> 'a ptab_scheme \<Rightarrow> bool" where
  "in_ptlock c s \<longleftrightarrow> holding c Lk_ptable s \<and> c_ncli (cpus s c) = 1 \<and> \<not> c_if (cpus s c)"

text \<open>It is outside and holds no lock.\<close>

definition out_ptlock :: "nat \<Rightarrow> 'a ptab_scheme \<Rightarrow> bool" where
  "out_ptlock c s \<longleftrightarrow> lock_free Lk_ptable s \<and> c_ncli (cpus s c) = 0"

lemma in_ptlock_locked_by: "out_ptlock c s \<Longrightarrow> in_ptlock c (locked_by c Lk_ptable s)"
  by (simp add: in_ptlock_def out_ptlock_def)

lemma in_ptlock_holding: "in_ptlock c s \<Longrightarrow> holding c Lk_ptable s"
  by (simp add: in_ptlock_def)

lemma in_ptlock_cong:
  assumes "locks t = locks s" and "cpus t = cpus s"
  shows "in_ptlock c t = in_ptlock c s"
  using assms by (simp add: in_ptlock_def holding_def)

lemma in_ptlock_payload: "payload t = payload s \<Longrightarrow> in_ptlock c t = in_ptlock c s"
  by (rule in_ptlock_cong [OF payload_locks payload_cpus])

lemma in_ptlock_upd [simp]:
  "in_ptlock c (upd_proc p f s) = in_ptlock c s" "in_ptlock c (set_state p st s) = in_ptlock c s"
  "in_ptlock c (charge p s) = in_ptlock c s"
  by (rule in_ptlock_cong; simp add: set_state_def charge_def)+

lemma acquire_out: "out_ptlock c s \<Longrightarrow> acquire c Lk_ptable s = Ok (locked_by c Lk_ptable s)"
  by (simp add: out_ptlock_def acquire_free)

lemma release_in: "in_ptlock c s \<Longrightarrow> release c Lk_ptable s = Ok (unlocked_by c Lk_ptable s)"
  by (rule release_held) (auto simp: in_ptlock_def)

lemma out_unlocked_by: "in_ptlock c s \<Longrightarrow> out_ptlock c (unlocked_by c Lk_ptable s)"
  by (simp add: in_ptlock_def out_ptlock_def lock_free_def)

lemma lock_if_free_held: "holding c Lk_ptable s \<Longrightarrow> lock_if_free c s = Ok (False, s)"
  by (simp add: lock_if_free_def)

text \<open>What \<^verbatim>\<open>demoteProc\<close> does to the process, and when: the budget is unsigned, so a process
  that has used more than its budget is one whose budget has wrapped past \<open>MAXBUDG\<close>.\<close>

definition demoted :: "proc \<Rightarrow> proc" where
  "demoted r = (if p_budget r \<le> MAXBUDG then r
     else (if p_priority r < of_nat MAXPRIO then r\<lparr>p_priority := p_priority r + 1\<rparr> else r)\<lparr>p_budget := MAXBUDG\<rparr>)"

lemma demoteProc_held:
  assumes "holding c Lk_ptable s"
  shows "demoteProc c p s = Ok (upd_proc p demoted s)"
proof (cases "p_budget (procs s p) \<le> MAXBUDG")
  case True
  then have "upd_proc p demoted s = s" by (simp add: upd_proc_def demoted_def)
  with True show ?thesis by (simp add: demoteProc_def)
next
  case False
  then show ?thesis
    using assms
    by (auto simp: demoteProc_def demoted_def lock_if_free_def unlock_if_def Let_def upd_proc_def)
qed

lemma demoted_sel [simp]: "p_state (demoted r) = p_state r"
  by (simp add: demoted_def)

lemma link_free_demoted: "link_free demoted"
  by (simp add: link_free_def demoted_def)

lemma demoted_prio:
  assumes "unat (p_priority r) \<le> MAXPRIO"
  shows "unat (p_priority (demoted r)) \<le> MAXPRIO"
proof -
  have "unat (p_priority r + 1) \<le> MAXPRIO" if "p_priority r < of_nat MAXPRIO"
  proof -
    have "unat (p_priority r) < 6" using that by (simp add: word_less_nat_alt MAXPRIO_def)
    then have "unat (p_priority r + 1) = unat (p_priority r) + 1"
      by (simp add: unat_word_ariths)
    with \<open>unat (p_priority r) < 6\<close> show ?thesis by (simp add: MAXPRIO_def)
  qed
  then show ?thesis using assms by (simp add: demoted_def)
qed

lemma sched_ok:
  assumes "in_ptlock c s" and "cur c s = Some me" and "p_state (procs s me) \<noteq> RUNNING"
  shows "sched c s = Ok (c_intena (cpus s c),
    upd_proc me (\<lambda>r. r\<lparr>p_cpu_ticks_total := p_cpu_ticks_total r + (ticks s - p_cpu_ticks_in r)\<rparr>) s)"
  using assms by (simp add: sched_def in_ptlock_def)

lemma cur_simps [simp]:
  "cur c (upd_proc p f s) = cur c s" "cur c (locked_by d l s) = cur c s" "cur c (unlocked_by d l s) = cur c s"
  "cur c (set_state p st s) = cur c s" "cur c (charge p s) = cur c s"
  by (simp_all add: cur_def set_state_def charge_def)

lemma cur_payload: "payload t = payload s \<Longrightarrow> cur c t = cur c s"
  by (simp add: cur_def payload_cpus [of t s])

text \<open>The process record after the CPU accounting of \<^verbatim>\<open>sched\<close>.\<close>

definition accounted :: "uint32 \<Rightarrow> proc \<Rightarrow> proc" where
  "accounted tk r = r\<lparr>p_cpu_ticks_total := p_cpu_ticks_total r + (tk - p_cpu_ticks_in r)\<rparr>"

definition charged :: "uint32 \<Rightarrow> proc \<Rightarrow> proc" where
  "charged tk r = r\<lparr>p_budget := p_budget r - (tk - p_cpu_ticks_in r)\<rparr>"

lemma charge_eq: "charge p s = upd_proc p (charged (ticks s)) s"
  by (simp add: charge_def charged_def [abs_def])

lemma link_free_simps:
  "link_free (charged tk)" "link_free (accounted tk)" "link_free (\<lambda>r. r\<lparr>p_state := st\<rparr>)"
  "link_free (\<lambda>r. r\<lparr>p_chan := ch\<rparr>)" "link_free (\<lambda>r. r\<lparr>p_killed := k\<rparr>)"
  "link_free (\<lambda>r. r\<lparr>p_cpu_ticks_in := tk\<rparr>)"
  by (simp_all add: link_free_def charged_def accounted_def)

lemma pinv_accounted: "pinv (upd_proc p (accounted tk) s) qs = pinv s qs"
  by (rule pinv_upd_proc) (simp_all add: accounted_def)

text \<open>\<^verbatim>\<open>yield\<close>: the running process goes to the end of the ready list of its priority, which is
  one lower when it has used up its budget.\<close>

lemma yield_ok:
  assumes inv: "pinv s qs" and out: "out_ptlock c s"
    and me: "cur c s = Some me" "me \<in> set (qs Lrunning)"
  defines "r' \<equiv> demoted (charged (ticks s) ((procs s me)\<lparr>p_state := RUNNABLE\<rparr>))"
  shows "\<exists>ie t. yield c s = Ok (ie, t) \<and> pinv t (mv Lrunning (ready (p_priority r')) me qs) \<and>
    in_ptlock c t \<and> cur c t = Some me \<and>
    payload t = payload (upd_proc me (\<lambda>_. accounted (ticks s) r') (locked_by c Lk_ptable s))"
proof -
  let ?s = "locked_by c Lk_ptable s" and ?l = "ready (p_priority r')"
  let ?f = "\<lambda>r. demoted (charged (ticks s) (r\<lparr>p_state := RUNNABLE\<rparr>))"
  have inv': "pinv ?s qs" using inv by simp
  obtain u where u: "leave_list err_yield Lrunning me RUNNING ?s = Ok u"
    "queues u (qs(Lrunning := remove1 me (qs Lrunning)))" "payload u = payload ?s"
    using leave_ok [OF inv' me(2), unfolded state_of_simps] by blast
  have lf: "link_free ?f"
    using link_free_comp [OF link_free_comp [OF link_free_simps(3) link_free_simps(1)] link_free_demoted] .
  have b: "me < NPROC" using pinv_bound [OF inv me(2)] .
  have pr: "unat (p_priority r') \<le> MAXPRIO"
    unfolding r'_def using pinv_prio [OF inv b] by (intro demoted_prio) (simp add: charged_def)
  have lk: "in_ptlock c u"
    using in_ptlock_locked_by [OF out] in_ptlock_payload [OF u(3)] by simp
  have tk: "ticks u = ticks s" using payload_globals(4) [OF u(3)] by simp
  have dem: "demoteProc c me (charge me (set_state me RUNNABLE u)) = Ok (upd_proc me ?f u)"
    using lk tk by (simp add: demoteProc_held in_ptlock_holding set_state_def charge_eq upd_proc_upd_proc)
  have pu: "p_priority (procs (upd_proc me ?f u) me) = p_priority r'"
    using payload_fields(2) [OF payload_upd_proc [OF lf u(3), of me], of me] by (simp add: r'_def)
  have fl: "filed ?l (?f (procs ?s me))"
    by (simp add: filed_def ready_def r'_def charged_def)
  obtain t where t: "enter_list stateListAdd ?l me (state_of ?l) (upd_proc me ?f u) = Ok t"
    "pinv t (mv Lrunning ?l me qs)" "payload t = payload (upd_proc me ?f ?s)"
    using enter_tail [OF inv' me(2) _ _ u(2,3) lf fl] pr by (auto simp: ready_def r'_def)
  have tl: "in_ptlock c t" "cur c t = Some me" "ticks t = ticks s"
    "p_state (procs t me) = RUNNABLE"
    using in_ptlock_payload [OF t(3)] in_ptlock_locked_by [OF out] cur_payload [OF t(3)] me(1)
      payload_globals(4) [OF t(3)] payload_fields(1) [OF t(3), of me] by (simp_all add: charged_def)
  have sc: "sched c t = Ok (c_intena (cpus t c), upd_proc me (accounted (ticks s)) t)"
    using sched_ok [OF tl(1,2)] tl by (simp add: accounted_def [abs_def])
  have "payload (upd_proc me (accounted (ticks s)) t)
      = payload (upd_proc me (accounted (ticks s)) (upd_proc me ?f ?s))"
    by (rule payload_upd_proc [OF link_free_simps(2) t(3)])
  also have "upd_proc me (accounted (ticks s)) (upd_proc me ?f ?s)
      = upd_proc me (\<lambda>_. accounted (ticks s) r') ?s"
    by (simp add: upd_proc_def r'_def)
  finally have pl: "payload (upd_proc me (accounted (ticks s)) t)
      = payload (upd_proc me (\<lambda>_. accounted (ticks s) r') ?s)" .
  have "yield c s = Ok (c_intena (cpus t c), upd_proc me (accounted (ticks s)) t)"
    unfolding yield_def using u(1) dem pu t(1) sc me(1)
    by (simp add: acquire_out [OF out] ready_def)
  then show ?thesis
    using t(2) tl pl by (simp add: pinv_accounted)
qed

lemma pinv_upd_filed:
  assumes inv: "pinv s qs" and p: "p \<in> set (qs l)" and lf: "link_free f"
    and f: "filed l (f (procs s p))" "unat (p_priority (f (procs s p))) \<le> MAXPRIO"
  shows "pinv (upd_proc p f s) qs"
proof -
  have q: "queues (upd_proc p f s) qs" using pinv_queues [OF inv] by (simp add: queues_link_free [OF lf])
  have "filed k (procs (upd_proc p f s) x)" if "x \<in> set (qs k)" for k x
  proof (cases "x = p")
    case True
    then have "k = l" using that p pinv_queues [OF inv] queuesD(2) by metis
    then show ?thesis using True f(1) by simp
  next
    case False
    then show ?thesis using that pinv_filed [OF inv] by simp
  qed
  then show ?thesis
    using q f(2) pinv_cover [OF inv] pinv_prio [OF inv] by (simp add: pinv_def)
qed

text \<open>\<^verbatim>\<open>sleep\<close>, from the point where the process holds \<^verbatim>\<open>ptable.lock\<close>: the running process goes
  to the end of the sleep list with its channel set.\<close>

lemma go_to_sleep_ok:
  fixes ch :: chan
  assumes inv: "pinv s qs" and lk: "in_ptlock c s"
    and me: "cur c s = Some me" "me \<in> set (qs Lrunning)"
  defines "r' \<equiv> accounted (ticks s) (demoted (charged (ticks s)
     ((procs s me)\<lparr>p_chan := ch, p_state := SLEEPING\<rparr>)))"
  shows "\<exists>ie t. go_to_sleep c me ch s = Ok (ie, t) \<and> pinv t (mv Lrunning Lsleep me qs) \<and>
    in_ptlock c t \<and> cur c t = Some me \<and> payload t = payload (upd_proc me (\<lambda>_. r') s)"
proof -
  let ?f = "\<lambda>r. r\<lparr>p_chan := ch, p_state := SLEEPING\<rparr>"
  let ?g = "\<lambda>r. demoted (charged (ticks s) r)"
  let ?s = "upd_proc me (\<lambda>r. r\<lparr>p_chan := ch\<rparr>) s"
  have inv': "pinv ?s qs" using inv by (simp add: pinv_upd_proc)
  obtain u where u: "leave_list err_sleep Lrunning me RUNNING ?s = Ok u"
    "queues u (qs(Lrunning := remove1 me (qs Lrunning)))" "payload u = payload ?s"
    using leave_ok [OF inv' me(2), unfolded state_of_simps] by blast
  have b: "me < NPROC" using pinv_bound [OF inv me(2)] .
  have "filed Lsleep ((procs ?s me)\<lparr>p_state := SLEEPING\<rparr>)" by (simp add: filed_def)
  then obtain t where t: "enter_list stateListAdd Lsleep me SLEEPING (set_state me SLEEPING u) = Ok t"
    "pinv t (mv Lrunning Lsleep me qs)" "payload t = payload (set_state me SLEEPING ?s)"
    using enter_tail [OF inv' me(2) _ _ u(2,3) link_free_simps(3), of Lsleep SLEEPING] pinv_prio [OF inv b]
    by (auto simp: set_state_def)
  have st: "set_state me SLEEPING ?s = upd_proc me ?f s"
    by (simp add: set_state_def upd_proc_upd_proc)
  note fl = payload_fields [OF t(3) [unfolded st], of me]
  have tl: "in_ptlock c t" "cur c t = Some me" "ticks t = ticks s"
    using in_ptlock_payload [OF t(3)] lk cur_payload [OF t(3)] me(1) payload_ticks [OF t(3)]
    by (simp_all add: set_state_def)
  have lf: "link_free ?g" using link_free_comp [OF link_free_simps(1) link_free_demoted] .
  have dem: "demoteProc c me (charge me t) = Ok (upd_proc me ?g t)"
    using tl by (simp add: demoteProc_held in_ptlock_holding charge_eq upd_proc_upd_proc)
  have prio: "unat (p_priority (?g (procs t me))) \<le> MAXPRIO"
    using pinv_prio [OF inv b] fl(2) by (intro demoted_prio) (simp add: charged_def)
  have inv2: "pinv (upd_proc me ?g t) (mv Lrunning Lsleep me qs)"
    by (rule pinv_upd_filed [OF t(2) _ lf _ prio, where l = Lsleep])
      (use fl(1) in \<open>simp_all add: filed_def charged_def\<close>)
  have "p_state (procs (upd_proc me ?g t) me) = SLEEPING" using fl(1) by (simp add: charged_def)
  then have sc: "sched c (upd_proc me ?g t)
      = Ok (c_intena (cpus t c), upd_proc me (accounted (ticks s)) (upd_proc me ?g t))"
    using sched_ok [of c "upd_proc me ?g t" me] tl by (simp add: accounted_def [abs_def])
  have "payload (upd_proc me (accounted (ticks s)) (upd_proc me ?g t))
      = payload (upd_proc me (accounted (ticks s)) (upd_proc me ?g (upd_proc me ?f s)))"
    by (intro payload_upd_proc lf link_free_simps) (use t(3) st in simp)
  also have "upd_proc me (accounted (ticks s)) (upd_proc me ?g (upd_proc me ?f s)) = upd_proc me (\<lambda>_. r') s"
    by (simp add: upd_proc_def r'_def)
  finally have pl: "payload (upd_proc me (accounted (ticks s)) (upd_proc me ?g t))
      = payload (upd_proc me (\<lambda>_. r') s)" .
  have "go_to_sleep c me ch s
      = Ok (c_intena (cpus t c), upd_proc me (accounted (ticks s)) (upd_proc me ?g t))"
    unfolding go_to_sleep_def using u(1) t(1) dem sc by (simp add: Let_def)
  then show ?thesis using inv2 tl pl by (simp add: pinv_accounted)
qed

lemma wakeup_ok:
  assumes inv: "pinv s qs" and out: "out_ptlock c s"
  shows "\<exists>t qs'. wakeup c ch s = Ok t \<and> pinv t qs' \<and> out_ptlock c t"
proof -
  let ?s = "locked_by c Lk_ptable s"
  have inv': "pinv ?s qs" using inv by simp
  have "\<exists>t qs'. wakeup1 ch ?s = Ok t \<and> pinv t qs' \<and> in_ptlock c t"
  proof (cases "\<exists>p \<in> set (qs Lsleep). p_chan (procs s p) = ch")
    case False
    then show ?thesis
      using wakeup1_none [OF inv', of ch] inv' in_ptlock_locked_by [OF out] by auto
  next
    case True
    then obtain xs p ys where q: "qs Lsleep = xs @ p # ys" "p_chan (procs s p) = ch"
      "\<forall>x \<in> set xs. p_chan (procs s x) \<noteq> ch"
      by (rule split_list_first_pred)
    obtain t where t: "wakeup1 ch ?s = Ok t"
      "pinv t (mv Lsleep (ready (p_priority (procs s p))) p qs)"
      "payload t = payload (set_state p RUNNABLE ?s)"
      using wakeup1_first [OF inv' q(1), of ch] q(2,3) by auto
    then show ?thesis
      using in_ptlock_payload [OF t(3)] in_ptlock_locked_by [OF out] by auto
  qed
  then obtain t qs' where t: "wakeup1 ch ?s = Ok t" "pinv t qs'" "in_ptlock c t" by blast
  then show ?thesis
    using acquire_out [OF out] release_in [OF t(3)] out_unlocked_by [OF t(3)]
    by (simp add: wakeup_def) (metis pinv_lock(2))
qed

text \<open>The processes that \<^verbatim>\<open>kill\<close> can reach are those that are neither unused nor zombies.\<close>

definition killable :: "proc \<Rightarrow> bool" where
  "killable r \<longleftrightarrow> p_state r \<in> {EMBRYO, RUNNABLE, RUNNING, SLEEPING}"

lemma kill_search_ok:
  assumes inv: "pinv s qs"
  shows "\<exists>r. kill_search pid s = Ok r \<and>
    (case r of
       None \<Rightarrow> \<forall>p < NPROC. killable (procs s p) \<longrightarrow> \<not> has_pid s pid p
     | Some (b, p) \<Rightarrow> p < NPROC \<and> killable (procs s p) \<and> has_pid s pid p \<and> b = (p_state (procs s p) = SLEEPING))"
proof -
  note q = pinv_queues [OF inv]
  let ?P = "has_pid s pid"
  have cases_l: "l \<in> {Lembryo, Lrunning, Lsleep} \<or> (\<exists>i \<le> MAXPRIO. l = Lready i)"
    if "p \<in> set (qs l)" "killable (procs s p)" for p l
    using pinv_state [OF inv that(1)] queuesD(4) [OF q, of l] that by (cases l) (force simp: killable_def)+
  have hit: "p < NPROC \<and> p_state (procs s p) = state_of l \<and> ?P p" if "find ?P (qs l) = Some p" for p l
    using find_SomeD [OF that] pinv_bound [OF inv] pinv_state [OF inv] by blast
  have hit_r: "p < NPROC \<and> p_state (procs s p) = RUNNABLE \<and> ?P p"
    if "first_ready is ?P qs = Some (i, p)" for p i "is"
    using first_ready_Some [OF that] pinv_bound [OF inv, of p] pinv_state [OF inv, of p] by fastforce
  have miss: "\<not> ?P p" if *: "find ?P (qs Lembryo) = None" "first_ready [0..<Suc MAXPRIO] ?P qs = None"
      "find ?P (qs Lrunning) = None" "find ?P (qs Lsleep) = None" "p < NPROC" "killable (procs s p)" for p
  proof -
    obtain l where l: "p \<in> set (qs l)" using pinv_cover [OF inv *(5)] by blast
    show ?thesis using cases_l [OF l *(6)] l *(1-4) by (fastforce simp: find_None_iff first_ready_None)
  qed
  show ?thesis
    unfolding kill_search_def find_node_queues [OF q] find_ready_queues [OF q]
    using miss by (auto split: option.splits dest!: hit hit_r simp: killable_def)
qed

lemma kill_ok:
  assumes inv: "pinv s qs" and out: "out_ptlock c s"
  shows "\<exists>r t qs'. kill c pid s = Ok (r, t) \<and> pinv t qs' \<and> out_ptlock c t \<and>
    (if r = 0 then \<exists>p < NPROC. has_pid s pid p \<and> killable (procs s p) \<and> p_killed (procs t p) \<and>
        p_state (procs t p) = (if p_state (procs s p) = SLEEPING then RUNNABLE else p_state (procs s p))
     else r = -1 \<and> procs t = procs s \<and> (\<forall>p < NPROC. killable (procs s p) \<longrightarrow> \<not> has_pid s pid p))"
proof -
  let ?s = "locked_by c Lk_ptable s"
  have inv': "pinv ?s qs" using inv by simp
  have lk: "in_ptlock c ?s" by (rule in_ptlock_locked_by [OF out])
  obtain r where r: "kill_search pid ?s = Ok r"
    "case r of
       None \<Rightarrow> \<forall>p < NPROC. killable (procs ?s p) \<longrightarrow> \<not> has_pid ?s pid p
     | Some (b, p) \<Rightarrow> p < NPROC \<and> killable (procs ?s p) \<and> has_pid ?s pid p \<and> b = (p_state (procs ?s p) = SLEEPING)"
    using kill_search_ok [OF inv'] by blast
  have hp: "has_pid ?s pid = has_pid s pid" by (simp add: has_pid_def fun_eq_iff)
  show ?thesis
  proof (cases r)
    case None
    then show ?thesis
      using r acquire_out [OF out] release_in [OF lk] out_unlocked_by [OF lk] inv hp
      by (auto simp: kill_def)
  next
    case (Some bp)
    then obtain b p where bp: "r = Some (b, p)" by (cases bp) auto
    have p: "p < NPROC" "killable (procs s p)" "has_pid s pid p" "b = (p_state (procs s p) = SLEEPING)"
      using r(2) bp hp by auto
    let ?k = "set_killed p ?s"
    have invk: "pinv ?k qs" using inv' by (simp add: set_killed_def pinv_upd_proc)
    have lkk: "in_ptlock c ?k" using lk by (simp add: set_killed_def)
    show ?thesis
    proof (cases b)
      case False
      then show ?thesis
        using r(1) bp p acquire_out [OF out] release_in [OF lkk] out_unlocked_by [OF lkk] invk
        by (auto simp: kill_def set_killed_def)
    next
      case True
      then have "p \<in> set (qs Lsleep)" using p(4) pinv_list_of [OF inv p(1)] by (simp add: list_of_def)
      then obtain t where t: "make_ready err_kill p ?k = Ok t"
        "pinv t (mv Lsleep (ready (p_priority (procs ?k p))) p qs)"
        "payload t = payload (set_state p RUNNABLE ?k)"
        using make_ready_ok [OF invk] by blast
      have lkt: "in_ptlock c t" using in_ptlock_payload [OF t(3)] lkk by simp
      have ft: "p_killed (procs t p)" "p_state (procs t p) = RUNNABLE"
        using payload_fields(6) [OF t(3), of p] payload_fields(1) [OF t(3), of p]
        by (simp_all add: set_state_def set_killed_def)
      have "kill c pid s = Ok (0, unlocked_by c Lk_ptable t)"
        using r(1) bp True t(1) acquire_out [OF out] release_in [OF lkt] by (simp add: kill_def)
      moreover have "pinv (unlocked_by c Lk_ptable t) (mv Lsleep (ready (p_priority (procs ?k p))) p qs)"
        using t(2) by simp
      ultimately show ?thesis
        using out_unlocked_by [OF lkt] ft p True by (intro exI conjI) (auto intro!: exI [of _ p])
    qed
  qed
qed

end
