(* ===== verification/Samples.thy ===== *)
theory Samples
  imports Sched
begin

text \<open>
  Concrete process tables. From any assignment of records to the slots, \<open>mk_tab\<close> builds the table
  in which every slot is linked into the list that belongs to its state and priority; it satisfies
  the invariant, so the theorems on the process table apply to it.
\<close>

fun succ_in :: "nat list \<Rightarrow> nat \<Rightarrow> ptr" where
  "succ_in (x # y # xs) p = (if p = x then Some y else succ_in (y # xs) p)"
| "succ_in _ p = None"

definition qs_of :: "(nat \<Rightarrow> proc) \<Rightarrow> lname \<Rightarrow> nat list" where
  "qs_of r l = filter (\<lambda>p. list_of (r p) = l) [0..<NPROC]"

definition idle_cpu :: cpu where
  "idle_cpu = \<lparr>c_id = 0, c_ncli = 0, c_intena = True, c_if = True, c_proc = None, c_cr3 = 0, c_esp0 = 0\<rparr>"

definition mk_tab :: "(nat \<Rightarrow> proc) \<Rightarrow> ptab" where
  "mk_tab r =
     \<lparr>locks = (\<lambda>_. \<lparr>locked = 0, lk_name = '''', lk_cpu = None\<rparr>), cpus = (\<lambda>_. idle_cpu),
      procs = (\<lambda>p. (r p)\<lparr>p_next := succ_in (qs_of r (list_of (r p))) p\<rparr>),
      heads = (\<lambda>l. case qs_of r l of [] \<Rightarrow> None | x # _ \<Rightarrow> Some x),
      tails = (\<lambda>l. tail_of (qs_of r l)),
      promoteAtTime = 4000, nextpid = 10, initproc = Some 0, ticks = 100, kpgdir = 0x80100000\<rparr>"

text \<open>A record to start from: slot \<open>p\<close> unused.\<close>

definition blank_tf :: trapframe where
  "blank_tf = \<lparr>tf_edi = 0, tf_esi = 0, tf_ebp = 0, tf_oesp = 0, tf_ebx = 0, tf_edx = 0, tf_ecx = 0,
     tf_eax = 0, tf_gs = 0, tf_fs = 0, tf_es = 0, tf_ds = 0, tf_trapno = 0, tf_err = 0, tf_eip = 0,
     tf_cs = 0, tf_eflags = 0, tf_esp = 0, tf_ss = 0\<rparr>"

definition blank_context :: kcontext where
  "blank_context = \<lparr>x_edi = 0, x_esi = 0, x_ebx = 0, x_ebp = 0, x_eip = K_addr 0\<rparr>"

definition blank_proc :: proc where
  "blank_proc = \<lparr>p_sz = 0, p_pgdir = 0, p_kstack = 0, p_state = UNUSED, p_pid = 0, p_parent = None,
     p_tfp = 0, p_tf = blank_tf, p_ret = K_addr 0, p_contextp = 0, p_context = blank_context,
     p_chan = Chan_null, p_killed = False, p_ofile = (\<lambda>_. None), p_cwd = None, p_name = '''',
     p_start_ticks = 0, p_gid = 0, p_uid = 0, p_cpu_ticks_total = 0, p_cpu_ticks_in = 0, p_next = None,
     p_priority = 0, p_budget = 0\<rparr>"

definition mk_proc :: "procstate \<Rightarrow> uint32 \<Rightarrow> uint32 \<Rightarrow> proc" where
  "mk_proc st pid prio = blank_proc\<lparr>p_state := st, p_pid := pid, p_priority := prio, p_budget := MAXBUDG,
     p_pgdir := 0x80200000, p_kstack := 0x80300000, p_parent := Some 0\<rparr>"

lemma seg_succ_in: "distinct xs \<Longrightarrow> seg (succ_in xs) (case xs of [] \<Rightarrow> None | x # _ \<Rightarrow> Some x) xs None"
proof (induction xs)
  case (Cons x xs)
  show ?case
  proof (cases xs)
    case (Cons y ys)
    have "seg (succ_in xs) (Some y) xs None" using Cons.IH Cons.prems Cons by simp
    moreover have "succ_in (x # xs) z = succ_in xs z" if "z \<in> set xs" for z
      using that Cons.prems Cons by auto
    ultimately have "seg (succ_in (x # xs)) (Some y) xs None"
      using seg_cong [of xs "succ_in (x # xs)" "succ_in xs"] by simp
    moreover have "succ_in (x # xs) x = Some y" using Cons by simp
    ultimately show ?thesis by (simp del: succ_in.simps)
  qed simp
qed simp

lemma qs_of_in: "p \<in> set (qs_of r l) \<longleftrightarrow> p < NPROC \<and> list_of (r p) = l"
  by (auto simp: qs_of_def)

lemma list_of_next [simp]: "list_of (r\<lparr>p_next := n\<rparr>) = list_of r"
  by (simp add: list_of_def split: procstate.split)

lemma list_of_struct: "unat (p_priority r) \<le> MAXPRIO \<Longrightarrow> in_struct (list_of r)"
  by (simp add: list_of_def ready_def split: procstate.split)

theorem pinv_mk_tab:
  assumes "\<And>p. p < NPROC \<Longrightarrow> unat (p_priority (r p)) \<le> MAXPRIO"
  shows "pinv (mk_tab r) (qs_of r)"
proof -
  have seg: "seg (nxt (mk_tab r)) (heads (mk_tab r) l) (qs_of r l) None" for l
  proof -
    have "distinct (qs_of r l)" by (simp add: qs_of_def)
    then have "seg (succ_in (qs_of r l)) (heads (mk_tab r) l) (qs_of r l) None"
      using seg_succ_in by (simp add: mk_tab_def)
    moreover have "nxt (mk_tab r) p = succ_in (qs_of r l) p" if "p \<in> set (qs_of r l)" for p
      using that by (simp add: qs_of_in nxt_def mk_tab_def)
    ultimately show ?thesis using seg_cong [of "qs_of r l" "nxt (mk_tab r)" "succ_in (qs_of r l)"] by simp
  qed
  have "queues (mk_tab r) (qs_of r)"
  proof (rule queuesI)
    show "rep (mk_tab r) l (qs_of r l)" for l using seg by (simp add: rep_def) (simp add: mk_tab_def)
    show "qs_of r l = []" if "\<not> in_struct l" for l
    proof (rule ccontr)
      assume "qs_of r l \<noteq> []"
      then obtain p where "p \<in> set (qs_of r l)" by (cases "qs_of r l") auto
      then have "p < NPROC" "list_of (r p) = l" by (simp_all add: qs_of_in)
      then show False using that list_of_struct assms by blast
    qed
  qed (auto simp: qs_of_in)
  moreover have "filed l (procs (mk_tab r) p)" if "p \<in> set (qs_of r l)" for l p
    using that by (auto simp: qs_of_in mk_tab_def filed_def list_of_def ready_def split: procstate.splits)
  ultimately show ?thesis using assms by (auto simp: pinv_def qs_of_in mk_tab_def)
qed

end
