(* ===== verification/Mlfq.thy ===== *)
theory Mlfq
  imports Samples
begin

text \<open>
  The multi-level feedback queue of \<^verbatim>\<open>src/proc.c\<close>, proved on top of the transitions of
  \<^verbatim>\<open>Sched\<close>: which process \<^verbatim>\<open>scheduler\<close> dispatches, what \<^verbatim>\<open>promoteAll\<close> does to the ready lists
  and to the priorities, and what \<^verbatim>\<open>setPriority\<close> and \<^verbatim>\<open>getPriority\<close> do on each list.
\<close>


section \<open>Dispatching\<close>

lemma assertPriority_held:
  assumes inv: "pinv s qs" and lk: "holding c Lk_ptable s"
  shows "assertPriority c s = Ok s"
proof -
  note q = pinv_queues [OF inv]
  have "walk NPROC (check_priority i) (heads s (Lready i)) s = Ok s" for i
  proof (rule walk_const [OF queues_seg [OF q] queues_length [OF q]])
    fix p assume "p \<in> set (qs (Lready i))"
    then have "p_priority (procs s p) = of_nat i" using pinv_ready [OF inv] by fastforce
    then show "check_priority i p s = Ok s" by (simp add: check_priority_def)
  qed
  then show ?thesis
    using for_each_const [of "[0..<Suc MAXPRIO]" "\<lambda>i s. walk NPROC (check_priority i) (heads s (Lready i)) s" s]
    by (simp add: assertPriority_def lock_if_free_held [OF lk] unlock_if_def)
qed

text \<open>With the lock held, \<^verbatim>\<open>switchuvm\<close> changes the stack and the page directory of the CPU only.\<close>

definition user_mm :: "proc \<Rightarrow> cpu \<Rightarrow> cpu" where
  "user_mm r = (\<lambda>k. k\<lparr>c_esp0 := p_kstack r + KSTACKSIZE, c_cr3 := v2p (p_pgdir r)\<rparr>)"

lemma switchuvm_held:
  assumes lk: "in_ptlock c s" and p: "cur c s = Some p" "p_pgdir (procs s p) \<noteq> 0"
  shows "switchuvm c p s = Ok (upd_cpu c (user_mm (procs s p)) s)"
  using assms
  by (simp add: switchuvm_def pushcli_eq popcli_def user_mm_def in_ptlock_def cur_def pushed_def upd_cpu_def
      Let_def fun_eq_iff irq_ok_def)

lemma dispatch_ok:
  assumes inv: "pinv s qs" and lk: "in_ptlock c s" and p: "p \<in> set (qs (Lready i))"
    and vm: "p_pgdir (procs s p) \<noteq> 0"
  shows "\<exists>t. dispatch c p s = Ok t \<and> pinv t (mvh (Lready i) Lrunning p qs) \<and> in_ptlock c t \<and>
    cur c t = Some p \<and> c_cr3 (cpus t c) = v2p (p_pgdir (procs s p)) \<and>
    payload t = payload (upd_proc p (\<lambda>r. r\<lparr>p_cpu_ticks_in := ticks s, p_state := RUNNING\<rparr>)
      (upd_cpu c (\<lambda>k. user_mm (procs s p) (k\<lparr>c_proc := Some p\<rparr>)) s))"
proof -
  let ?m = "\<lambda>k. user_mm (procs s p) (k\<lparr>c_proc := Some p\<rparr>)"
  let ?s = "upd_proc p (\<lambda>r. r\<lparr>p_cpu_ticks_in := ticks s\<rparr>) (set_cur c (Some p) s)"
  let ?u = "upd_cpu c (user_mm (procs s p)) ?s"
  have um: "user_mm (procs ?s p) = user_mm (procs s p)" by (simp add: user_mm_def set_cur_def)
  have c1: "in_ptlock c ?s" "cur c ?s = Some p" "p_pgdir (procs ?s p) \<noteq> 0"
    using lk vm by (simp_all add: set_cur_def cur_def in_ptlock_def upd_cpu_def upd_proc_def irq_ok_def holding_def)
  have sw: "switchuvm c p ?s = Ok ?u" using switchuvm_held [OF c1] um by simp
  have lku: "in_ptlock c ?u"
    using c1(1) by (simp add: user_mm_def in_ptlock_def upd_cpu_def upd_proc_def irq_ok_def holding_def)
  have invu: "pinv ?u qs"
    using inv by (simp add: set_cur_def pinv_upd_proc)
  have pr: "ready (p_priority (procs ?u p)) = Lready i"
    using pinv_ready [OF inv p] by (simp add: ready_def set_cur_def)
  obtain v where v: "leave_list err_scheduler (Lready i) p RUNNABLE ?u = Ok v"
    "queues v (qs(Lready i := remove1 p (qs (Lready i))))" "payload v = payload ?u"
    using leave_ok [OF invu p, unfolded state_of_simps] by blast
  have "filed Lrunning ((procs ?u p)\<lparr>p_state := RUNNING\<rparr>)" by (simp add: filed_def)
  then obtain t where t: "enter_list stateListAddAtHead Lrunning p RUNNING (set_state p RUNNING v) = Ok t"
    "pinv t (mvh (Lready i) Lrunning p qs)" "payload t = payload (set_state p RUNNING ?u)"
    using enter_head [OF invu p _ _ v(2,3) link_free_simps(3), of Lrunning RUNNING]
      pinv_prio [OF invu pinv_bound [OF inv p]]
    by (auto simp: set_state_def)
  have st: "set_state p RUNNING ?u
      = upd_proc p (\<lambda>r. r\<lparr>p_cpu_ticks_in := ticks s, p_state := RUNNING\<rparr>) (upd_cpu c ?m s)"
    by (simp add: set_state_def set_cur_def upd_proc_def upd_cpu_def)
  have "dispatch c p s = Ok t"
    unfolding dispatch_def using sw v(1) t(1) pr assertPriority_held [OF invu in_ptlock_holding [OF lku]]
    by (simp add: Let_def set_cur_def)
  moreover have "in_ptlock c t" using in_ptlock_payload [OF t(3)] lku by simp
  moreover have "cur c t = Some p" "c_cr3 (cpus t c) = v2p (p_pgdir (procs s p))"
    using cur_payload [OF t(3) [unfolded st], of c] payload_cpus [OF t(3) [unfolded st]]
    by (simp_all add: cur_def user_mm_def upd_cpu_def upd_proc_def)
  ultimately show ?thesis using t(2,3) st by auto
qed

text \<open>Every process that can run has an address space.\<close>

definition vm_ok :: "'a ptab_scheme \<Rightarrow> bool" where
  "vm_ok s \<longleftrightarrow> (\<forall>p < NPROC. p_state (procs s p) \<in> {RUNNABLE, RUNNING, SLEEPING} \<longrightarrow> p_pgdir (procs s p) \<noteq> 0)"

lemma vm_okD: "vm_ok s \<Longrightarrow> pinv s qs \<Longrightarrow> p \<in> set (qs (Lready i)) \<Longrightarrow> p_pgdir (procs s p) \<noteq> 0"
  using pinv_state [of s qs p "Lready i"] pinv_bound [of s qs p "Lready i"] by (simp add: vm_ok_def)

lemma scheduler_from_idle:
  assumes inv: "pinv s qs" and e: "\<And>j. i \<le> j \<Longrightarrow> j \<le> MAXPRIO \<Longrightarrow> qs (Lready j) = []"
  shows "scheduler_from c i s = Ok (Scan_done, s)"
  using e
proof (induction "Suc MAXPRIO - i" arbitrary: i)
  case (Suc n)
  then have "heads s (Lready i) = None" using queues_head [OF pinv_queues [OF inv], of "Lready i"] by simp
  moreover have "scheduler_from c (i + 1) s = Ok (Scan_done, s)" using Suc by (intro Suc.hyps(1)) auto
  ultimately show ?case by (subst scheduler_from.simps) simp
qed (subst scheduler_from.simps, simp)

lemma scheduler_from_skip:
  assumes inv: "pinv s qs" and e: "\<And>j. i \<le> j \<Longrightarrow> j < k \<Longrightarrow> qs (Lready j) = []" and k: "i \<le> k" "k \<le> MAXPRIO"
    and p: "qs (Lready k) = p # ps"
  shows "scheduler_from c i s = bnd (dispatch c p s) (\<lambda>s. Ok (Dispatched p k, s))"
  using e k(1)
proof (induction "k - i" arbitrary: i)
  case 0
  then have "heads s (Lready i) = Some p" "i = k"
    using queues_head [OF pinv_queues [OF inv], of "Lready i"] p by simp_all
  with k(2) show ?case by (subst scheduler_from.simps) simp
next
  case (Suc n)
  then have "heads s (Lready i) = None" using queues_head [OF pinv_queues [OF inv], of "Lready i"] by simp
  moreover have "scheduler_from c (i + 1) s = bnd (dispatch c p s) (\<lambda>s. Ok (Dispatched p k, s))"
    using Suc by (intro Suc.hyps(1)) auto
  moreover have "i \<le> MAXPRIO" using Suc.hyps(2) k(2) by linarith
  ultimately show ?case by (subst scheduler_from.simps) simp
qed



section \<open>Promotion\<close>

text \<open>An update of a set of records at once: the effect of a loop over a list.\<close>

definition upd_procs :: "nat set \<Rightarrow> (proc \<Rightarrow> proc) \<Rightarrow> 'a ptab_scheme \<Rightarrow> 'a ptab_scheme" where
  "upd_procs A f s = s\<lparr>procs := (\<lambda>p. if p \<in> A then f (procs s p) else procs s p)\<rparr>"

lemma upd_procs_sel [simp]:
  "heads (upd_procs A f s) = heads s" "tails (upd_procs A f s) = tails s"
  "cpus (upd_procs A f s) = cpus s" "locks (upd_procs A f s) = locks s"
  "ticks (upd_procs A f s) = ticks s" "upd_procs {} f s = s"
  by (simp_all add: upd_procs_def)

lemma nxt_upd_procs: "link_free f \<Longrightarrow> nxt (upd_procs A f s) = nxt s"
  by (auto simp: nxt_def upd_procs_def link_free_next fun_eq_iff)

lemma queues_upd_procs: "link_free f \<Longrightarrow> queues (upd_procs A f s) qs = queues s qs"
  by (rule queues_cong) (simp_all add: nxt_upd_procs)

lemma fold_upd_proc: "distinct xs \<Longrightarrow> fold (\<lambda>p. upd_proc p f) xs s = upd_procs (set xs) f s"
proof (induction xs arbitrary: s)
  case (Cons x xs)
  then show ?case by (auto simp: upd_proc_def upd_procs_def fun_eq_iff)
qed simp

lemma walk_upd:
  assumes q: "queues s qs" and lf: "link_free f" and body: "\<And>p t. body p t = Ok (upd_proc p f t)"
  shows "walk NPROC body (heads s l) s = Ok (upd_procs (set (qs l)) f s)"
proof -
  have "nxt (upd_proc p f t) = nxt t" for p and t :: "'a ptab_scheme"
    by (auto simp: nxt_def link_free_next [OF lf] upd_proc_def fun_eq_iff)
  then show ?thesis
    using walk_fold [OF queues_seg [OF q] queues_length [OF q] body, where l2 = l]
      fold_upd_proc [OF queues_distinct [OF q]] by auto
qed

lemma for_each_walk_upd:
  assumes q: "queues s qs" and lf: "\<And>i. link_free (f i)"
    and body: "\<And>i p t. body i p t = Ok (upd_proc p (f i) t)" and d: "distinct is"
  shows "for_each (\<lambda>i s. walk NPROC (body i) (heads s (Lready i)) s) is s
    = Ok (s\<lparr>procs := (\<lambda>p. case find (\<lambda>i. p \<in> set (qs (Lready i))) is of
        None \<Rightarrow> procs s p | Some i \<Rightarrow> f i (procs s p))\<rparr>)"
  using q d
proof (induction "is" arbitrary: s)
  case (Cons i "is")
  let ?s = "upd_procs (set (qs (Lready i))) (f i) s"
  have q': "queues ?s qs" using Cons.prems(1) by (simp add: queues_upd_procs lf)
  have w: "walk NPROC (body i) (heads s (Lready i)) s = Ok ?s"
    by (rule walk_upd [OF Cons.prems(1) lf body])
  have "find (\<lambda>j. p \<in> set (qs (Lready j))) is = None" if "p \<in> set (qs (Lready i))" for p
  proof -
    have "p \<notin> set (qs (Lready j))" if "j \<in> set is" for j
      using queuesD(2) [OF Cons.prems(1) _ \<open>p \<in> set (qs (Lready i))\<close>, of "Lready j"] Cons.prems(2) that by auto
    then show ?thesis by (simp add: find_None_iff)
  qed
  then have "(\<lambda>p. case find (\<lambda>i. p \<in> set (qs (Lready i))) is of
        None \<Rightarrow> procs ?s p | Some j \<Rightarrow> f j (procs ?s p))
      = (\<lambda>p. case find (\<lambda>i. p \<in> set (qs (Lready i))) (i # is) of
        None \<Rightarrow> procs s p | Some j \<Rightarrow> f j (procs s p))"
    by (auto simp: upd_procs_def fun_eq_iff split: option.splits)
  then show ?case using Cons.IH [OF q'] Cons.prems(2) w by (simp add: upd_procs_def)
qed simp

text \<open>What \<^verbatim>\<open>promoteAll\<close> does to the queues: the first two ready lists are joined and every
  other one moves up by one.\<close>

definition promoted :: "(lname \<Rightarrow> nat list) \<Rightarrow> lname \<Rightarrow> nat list" where
  "promoted qs l = (case l of
       Lready i \<Rightarrow> if i = 0 then qs (Lready 0) @ qs (Lready 1)
                 else if i < MAXPRIO then qs (Lready (i + 1)) else []
     | _ \<Rightarrow> qs l)"

definition lifted :: "proc \<Rightarrow> proc" where
  "lifted r = r\<lparr>p_priority := (if p_priority r > 0 then p_priority r - 1 else p_priority r),
     p_budget := MAXBUDG\<rparr>"

lemma splice01_rep:
  assumes q: "queues s qs"
  shows "rep (splice01 s) (Lready 0) (qs (Lready 0) @ qs (Lready 1))"
    and "l \<noteq> Lready 0 \<Longrightarrow> rep (splice01 s) l (qs l)"
    and "l \<noteq> Lready 0 \<Longrightarrow> heads (splice01 s) l = heads s l \<and> tails (splice01 s) l = tails s l"
    and "payload (splice01 s) = payload s"
proof -
  note r = queuesD(1) [OF q, unfolded rep_def] and d = queuesD(2) [OF q]
  note h = queues_head [OF q, of "Lready 0"]
  have e: "splice01 s = set_tail (Lready 0) (tails s (Lready 1)) (set_head (Lready 0) (heads s (Lready 1)) s)"
    if "qs (Lready 0) = []" using that h by (simp add: splice01_def)
  have ne: "splice01 s = (if qs (Lready 1) \<noteq> [] then set_tail (Lready 0) (tails s (Lready 1)) u else u)"
    if "qs (Lready 0) = xs @ [x]" "u = set_next x (heads s (Lready 1)) s" for xs x u
    using that h r [of "Lready 0"] r [of "Lready 1"] by (auto simp: splice01_def Let_def split: list.splits)
  show "rep (splice01 s) (Lready 0) (qs (Lready 0) @ qs (Lready 1))"
  proof (cases "qs (Lready 0)" rule: rev_cases)
    case Nil
    then show ?thesis using r [of "Lready 1"] by (simp add: e rep_def)
  next
    case (snoc xs x)
    have x: "x \<notin> set (qs (Lready 1))" using d [of "Lready 0" "Lready 1" x] snoc by simp
    have xs: "x \<notin> set xs" using queues_distinct [OF q, of "Lready 0"] snoc by simp
    show ?thesis
      using r [of "Lready 0"] r [of "Lready 1"] snoc x xs ne [OF snoc refl]
      by (cases "qs (Lready 1)" rule: rev_cases)
        (auto simp: rep_def seg_append seg_frame simp flip: append_assoc)
  qed
  show "rep (splice01 s) l (qs l)" if "l \<noteq> Lready 0"
  proof (cases "qs (Lready 0)" rule: rev_cases)
    case Nil
    then show ?thesis using r that by (simp add: e rep_def)
  next
    case (snoc xs x)
    then have "x \<notin> set (qs l)" using d [of "Lready 0" l x] that by simp
    then show ?thesis using r that ne [OF snoc refl] by (simp add: rep_def seg_frame)
  qed
  show "l \<noteq> Lready 0 \<Longrightarrow> heads (splice01 s) l = heads s l \<and> tails (splice01 s) l = tails s l"
    and "payload (splice01 s) = payload s"
    using e ne by (cases "qs (Lready 0)" rule: rev_cases; simp)+
qed


lemma rep_cong:
  "nxt t = nxt s \<Longrightarrow> heads t l = heads s k \<Longrightarrow> tails t l = tails s k \<Longrightarrow> rep t l xs = rep s k xs"
  by (simp add: rep_def)

lemma shift_up_sel [simp]:
  "nxt (shift_up i s) = nxt s" "payload (shift_up i s) = payload s"
  "heads (shift_up i s) = (heads s)(Lready i := heads s (Lready (i + 1)))"
  "tails (shift_up i s) = (tails s)(Lready i := tails s (Lready (i + 1)))"
  by (simp_all add: shift_up_def)

lemma clear_list_sel [simp]:
  "nxt (clear_list l s) = nxt s" "payload (clear_list l s) = payload s"
  "heads (clear_list l s) = (heads s)(l := None)" "tails (clear_list l s) = (tails s)(l := None)"
  by (simp_all add: clear_list_def)

lemma promote_lists_sel:
  "nxt (promote_lists s) = nxt (splice01 s)" "payload (promote_lists s) = payload (splice01 s)"
  "heads (promote_lists s) l = (case l of
       Lready i \<Rightarrow> if i = 0 then heads (splice01 s) l
         else if i < MAXPRIO then heads (splice01 s) (Lready (i + 1))
         else if i = MAXPRIO then None else heads (splice01 s) l
     | _ \<Rightarrow> heads (splice01 s) l)"
  "tails (promote_lists s) l = (case l of
       Lready i \<Rightarrow> if i = 0 then tails (splice01 s) l
         else if i < MAXPRIO then tails (splice01 s) (Lready (i + 1))
         else if i = MAXPRIO then None else tails (splice01 s) l
     | _ \<Rightarrow> tails (splice01 s) l)"
  by (simp_all add: promote_lists_def MAXPRIO_def upt_rec split: lname.split)

lemma promote_lists_queues:
  assumes q: "queues s qs"
  shows "queues (promote_lists s) (promoted qs)" and "payload (promote_lists s) = payload s"
proof -
  note sp = splice01_rep [OF q]
  have r: "rep (promote_lists s) l (promoted qs l)" for l
  proof (cases l)
    case (Lready i)
    consider "i = 0" | "0 < i" "i < MAXPRIO" | "i = MAXPRIO" | "MAXPRIO < i" by linarith
    then show ?thesis
    proof cases
      case 1
      have "rep (promote_lists s) l xs = rep (splice01 s) (Lready 0) xs" for xs
        by (rule rep_cong) (simp_all add: promote_lists_sel Lready 1)
      then show ?thesis using sp(1) by (simp add: promoted_def Lready 1)
    next
      case 2
      have "rep (promote_lists s) l xs = rep (splice01 s) (Lready (i + 1)) xs" for xs
        by (rule rep_cong) (use 2 in \<open>simp_all add: promote_lists_sel Lready\<close>)
      then show ?thesis using sp(2) [of "Lready (i + 1)"] 2 by (simp add: promoted_def Lready)
    next
      case 3
      then show ?thesis by (simp add: rep_def promote_lists_sel promoted_def Lready MAXPRIO_def)
    next
      case 4
      then have "qs l = []" using queuesD(4) [OF q, of l] Lready by auto
      moreover have "rep (promote_lists s) l xs = rep (splice01 s) l xs" for xs
        by (rule rep_cong) (use 4 in \<open>simp_all add: promote_lists_sel Lready\<close>)
      ultimately show ?thesis using sp(2) [of l] 4 by (simp add: promoted_def Lready)
    qed
  qed (use sp(2) [of l] in \<open>simp_all add: rep_def promote_lists_sel promoted_def\<close>)
  have src: "p < NPROC" if "p \<in> set (promoted qs l)" for p l
    using that queuesD(3) [OF q] by (cases l) (auto simp: promoted_def split: if_splits)
  have st: "promoted qs l = []" if "\<not> in_struct l" for l
    using that by (cases l) (auto simp: promoted_def)
  have uni: "k = k'" if "x \<in> set (qs k)" "x \<in> set (qs k')" for x k k'
    using that queuesD(2) [OF q] by blast
  show "queues (promote_lists s) (promoted qs)"
  proof (rule queuesI)
    fix l l' x assume "l \<noteq> l'" "x \<in> set (promoted qs l)"
    show "x \<notin> set (promoted qs l')"
    proof
      assume "x \<in> set (promoted qs l')"
      with \<open>l \<noteq> l'\<close> \<open>x \<in> set (promoted qs l)\<close> show False
        by (cases l; cases l') (auto simp: promoted_def split: if_splits dest: uni)
    qed
  qed (use r src st in auto)
  show "payload (promote_lists s) = payload s" by (simp add: promote_lists_sel sp(4))
qed


lemma link_free_lifted: "link_free lifted"
  by (simp add: link_free_def lifted_def)

lemma unat_minus_1: "0 < (w :: uint32) \<Longrightarrow> unat (w - 1) = unat w - 1"
  by (metis unat_gt_0 unat_minus_one word_greater_zero_iff)

lemma lifted_prio: "unat (p_priority (lifted r)) = unat (p_priority r) - 1"
  by (auto simp: lifted_def unat_minus_1 not_less)

lemma lift_one_eq: "lift_one p s = Ok (upd_proc p lifted s)"
  by (auto simp: lift_one_def lifted_def upd_proc_def fun_eq_iff)

text \<open>The processes in a ready list are lifted too: the list index is their new priority.\<close>

definition live :: "proc \<Rightarrow> bool" where
  "live r \<longleftrightarrow> p_state r \<in> {RUNNABLE, RUNNING, SLEEPING}"

definition promoted_st :: "'a ptab_scheme \<Rightarrow> 'a ptab_scheme" where
  "promoted_st s = s\<lparr>procs := (\<lambda>p. if p < NPROC \<and> live (procs s p) then lifted (procs s p) else procs s p),
     promoteAtTime := ticks s + TICKS_TO_PROMOTE\<rparr>"


lemma find_False [simp]: "find (\<lambda>i. False) xs = None"
  by (induction xs) auto

lemma payload_eqI:
  assumes "\<And>i. (procs t i)\<lparr>p_next := None\<rparr> = (procs s i)\<lparr>p_next := None\<rparr>"
    and "locks t = locks s" "cpus t = cpus s" "promoteAtTime t = promoteAtTime s" "ticks t = ticks s"
    "nextpid t = nextpid s" "initproc t = initproc s" "kpgdir t = kpgdir s" "ptab.more t = ptab.more s"
  shows "payload t = payload s"
  using assms by (cases t; cases s) (simp add: payload_def fun_eq_iff)

lemma p_next_with: "(r::proc)\<lparr>p_next := None\<rparr> = r'\<lparr>p_next := None\<rparr> \<Longrightarrow> r = r'\<lparr>p_next := p_next r\<rparr>"
  by (cases r; cases r') simp

lemma find_unique: "i \<in> set xs \<Longrightarrow> (\<And>j. j \<in> set xs \<Longrightarrow> P j \<longleftrightarrow> j = i) \<Longrightarrow> find P xs = Some i"
  by (induction xs) auto

text \<open>Where \<^verbatim>\<open>promoteAll\<close> files a process.\<close>

definition lifted_list :: "lname \<Rightarrow> lname" where
  "lifted_list l = (case l of Lready i \<Rightarrow> Lready (i - 1) | _ \<Rightarrow> l)"

lemma promoted_iff:
  assumes inv: "pinv s qs" and p: "p < NPROC"
  shows "p \<in> set (promoted qs l) \<longleftrightarrow> l = lifted_list (list_of (procs s p))"
proof -
  have i: "\<And>l. p \<in> set (qs l) \<longleftrightarrow> l = list_of (procs s p)" by (rule pinv_iff [OF inv p])
  have "i \<le> MAXPRIO" if "list_of (procs s p) = Lready i" for i
    using in_struct_ready [OF inv p] that by (auto simp: list_of_def split: procstate.splits)
  then show ?thesis
    by (cases l; cases "list_of (procs s p)") (auto simp: promoted_def lifted_list_def i MAXPRIO_def split: if_splits)
qed

lemma reset_budget_lifted:
  "r\<lparr>p_budget := MAXBUDG, p_priority := of_nat (unat (p_priority r) - 1)\<rparr> = lifted r"
proof -
  have "of_nat (unat w - 1) = (if w > 0 then w - 1 else w)" for w :: uint32
    using unat_minus_1 [of w, symmetric] by (cases "w > 0") (simp_all add: not_less)
  then show ?thesis by (simp add: lifted_def)
qed

lemma promoteAll_procs:
  assumes inv: "pinv s qs" and p: "procs u p = (procs s p)\<lparr>p_next := n\<rparr>"
  shows "(let r = (case find (\<lambda>i. p \<in> set (promoted qs (Lready i))) [0..<MAXPRIO] of
                None \<Rightarrow> procs u p
              | Some i \<Rightarrow> (procs u p)\<lparr>p_budget := MAXBUDG, p_priority := of_nat i\<rparr>);
            r = (if p \<in> set (promoted qs Lsleep) then lifted r else r)
        in if p \<in> set (promoted qs Lrunning) then lifted r else r)
    = (if p < NPROC \<and> live (procs s p) then lifted (procs u p) else procs u p)"
proof (cases "p < NPROC")
  case False
  then have "p \<notin> set (promoted qs l)" for l
    using pinv_bound [OF inv] by (cases l) (auto simp: promoted_def split: if_splits)
  then show ?thesis using False by (simp add: find_None_iff)
next
  case True
  let ?r = "procs s p"
  note i = promoted_iff [OF inv True]
  show ?thesis
  proof (cases "p_state ?r = RUNNABLE")
    case R: True
    let ?i = "unat (p_priority ?r)"
    have b: "?i \<le> MAXPRIO" by (rule pinv_prio [OF inv True])
    have l: "lifted_list (list_of ?r) = Lready (?i - 1)" by (simp add: R list_of_def ready_def lifted_list_def)
    have "find (\<lambda>i. p \<in> set (promoted qs (Lready i))) [0..<MAXPRIO] = Some (?i - 1)"
      by (rule find_unique) (use b l i in \<open>auto simp: MAXPRIO_def\<close>)
    then show ?thesis
      using True R l i reset_budget_lifted [of "procs u p"] p by (simp add: live_def MAXPRIO_def)
  next
    case False
    then have l: "lifted_list (list_of ?r) = list_of ?r" "\<And>i. list_of ?r \<noteq> Lready i"
      by (auto simp: list_of_def lifted_list_def split: procstate.splits)
    then have "find (\<lambda>i. p \<in> set (promoted qs (Lready i))) [0..<MAXPRIO] = None"
      using i l(2) [symmetric] by (simp add: find_None_iff)
    then show ?thesis using True False l i
      by (cases "p_state ?r") (simp_all add: live_def list_of_def)
  qed
qed

lemma pinv_promoted:
  assumes inv: "pinv s qs" and q: "queues t (promoted qs)"
    and p: "\<And>p. p < NPROC \<Longrightarrow> p_state (procs t p) = p_state (procs s p) \<and> p_priority (procs t p) =
      (if live (procs s p) then p_priority (lifted (procs s p)) else p_priority (procs s p))"
  shows "pinv t (promoted qs)"
proof -
  have u: "unat (p_priority (procs t x)) = (if live (procs s x) then unat (p_priority (procs s x)) - 1
      else unat (p_priority (procs s x)))" if "x < NPROC" for x
    using p [OF that] lifted_prio [of "procs s x"] by simp
  have lo: "list_of (procs t x) = lifted_list (list_of (procs s x))" if "x < NPROC" for x
    using p [OF that] u [OF that]
    by (cases "p_state (procs s x)") (simp_all add: list_of_def lifted_list_def ready_def live_def)
  have "filed l (procs t x)" if "x \<in> set (promoted qs l)" for l x
  proof -
    have b: "x < NPROC" using queuesD(3) [OF q that] .
    then have "l = list_of (procs t x)" using promoted_iff [OF inv b] lo that by simp
    then show ?thesis by (auto simp: filed_def list_of_def ready_def split: procstate.splits)
  qed
  moreover have "\<exists>l. x \<in> set (promoted qs l)" if "x < NPROC" for x
    using promoted_iff [OF inv that] by blast
  moreover have "unat (p_priority (procs t x)) \<le> MAXPRIO" if "x < NPROC" for x
    using u [OF that] pinv_prio [OF inv that] by (simp split: if_splits)
  ultimately show ?thesis using q by (simp add: pinv_def)
qed

lemma promoteAll_early:
  "holding c Lk_ptable s \<Longrightarrow> ticks s < promoteAtTime s \<Longrightarrow> promoteAll c s = Ok s"
  by (simp add: promoteAll_def lock_if_free_held)


lemma promoteAll_ok:
  assumes inv: "pinv s qs" and lk: "holding c Lk_ptable s" and due: "\<not> ticks s < promoteAtTime s"
  shows "\<exists>t. promoteAll c s = Ok t \<and> pinv t (promoted qs) \<and> payload t = payload (promoted_st s)"
proof -
  let ?u = "promote_lists s"
  let ?f = "\<lambda>i r. r\<lparr>p_budget := MAXBUDG, p_priority := of_nat i\<rparr> :: proc"
  note q = promote_lists_queues [OF pinv_queues [OF inv]]
  have lf: "link_free (?f i)" for i by (simp add: link_free_def)
  define u1 where "u1 = ?u\<lparr>procs := (\<lambda>p. case find (\<lambda>i. p \<in> set (promoted qs (Lready i))) [0..<MAXPRIO] of
        None \<Rightarrow> procs ?u p | Some i \<Rightarrow> ?f i (procs ?u p))\<rparr>"
  have w1: "for_each (\<lambda>i s. walk NPROC (reset_budget i) (heads s (Lready i)) s) [0..<MAXPRIO] ?u = Ok u1"
    unfolding u1_def by (rule for_each_walk_upd [OF q(1) lf]) (simp_all add: reset_budget_def)
  have n1: "nxt u1 = nxt ?u" by (auto simp: nxt_def u1_def fun_eq_iff split: option.splits)
  have q1: "queues u1 (promoted qs)" using q(1) queues_cong [OF n1] by (simp add: u1_def)
  define u2 where "u2 = upd_procs (set (promoted qs Lsleep)) lifted u1"
  have w2: "walk NPROC lift_one (heads u1 Lsleep) u1 = Ok u2"
    unfolding u2_def by (rule walk_upd [OF q1 link_free_lifted lift_one_eq])
  have q2: "queues u2 (promoted qs)" using q1 by (simp add: u2_def queues_upd_procs link_free_lifted)
  define u3 where "u3 = upd_procs (set (promoted qs Lrunning)) lifted u2"
  have w3: "walk NPROC lift_one (heads u2 Lrunning) u2 = Ok u3"
    unfolding u3_def by (rule walk_upd [OF q2 link_free_lifted lift_one_eq])
  let ?t = "u3\<lparr>promoteAtTime := ticks u3 + TICKS_TO_PROMOTE\<rparr>"
  have "queues u3 (promoted qs)" using q2 by (simp add: u3_def queues_upd_procs link_free_lifted)
  then have q3: "queues ?t (promoted qs)" by (subst queues_cong [of _ u3]) (simp_all add: nxt_def fun_eq_iff)
  have pu: "procs ?u p = (procs s p)\<lparr>p_next := nxt ?u p\<rparr>" for p
    using p_next_with [OF payload_proc [OF q(2), of p]] by (simp add: nxt_def)
  have p3: "procs u3 p = (if p < NPROC \<and> live (procs s p) then lifted (procs ?u p) else procs ?u p)" for p
    by (subst promoteAll_procs [OF inv pu, symmetric])
      (simp add: u3_def u2_def u1_def upd_procs_def Let_def)
  have "pinv ?t (promoted qs)"
    by (rule pinv_promoted [OF inv q3]) (simp add: p3 pu lifted_def)
  moreover have "payload ?t = payload (promoted_st s)"
    by (rule payload_eqI)
      (use payload_locks [OF q(2)] payload_cpus [OF q(2)] payload_ticks [OF q(2)] payload_nextpid [OF q(2)]
        payload_initproc [OF q(2)] payload_kpgdir [OF q(2)] payload_more [OF q(2)]
       in \<open>simp_all add: promoted_st_def p3 pu lifted_def\<close>, simp_all add: u3_def u2_def u1_def upd_procs_def)
  moreover have "promoteAll c s = Ok ?t"
    using due w1 w2 w3 by (simp add: promoteAll_def lock_if_free_held [OF lk] Let_def unlock_if_def)
  ultimately show ?thesis by blast
qed

section \<open>Reading and setting priorities\<close>

lemma find_node_tail:
  assumes q: "queues s qs"
  shows "find_node NPROC P (tails s l) (procs s)
    = Ok (if qs l \<noteq> [] \<and> P (last (qs l)) then Some (last (qs l)) else None)"
proof (cases "qs l" rule: rev_cases)
  case Nil
  then show ?thesis using queuesD(1) [OF q, of l] by (simp add: rep_def NPROC_def numeral_eq_Suc)
next
  case (snoc xs x)
  then have "tails s l = Some x" "nxt s x = None"
    using queuesD(1) [OF q, of l] by (simp_all add: rep_def seg_snoc)
  then show ?thesis using snoc by (simp add: NPROC_def numeral_eq_Suc nxt_def)
qed

lemma first_ready_all_None:
  "first_ready [0..<Suc MAXPRIO] P qs = None \<longleftrightarrow> (\<forall>i \<le> MAXPRIO. \<forall>p \<in> set (qs (Lready i)). \<not> P p)"
  unfolding first_ready_None by (auto simp del: upt_Suc simp: less_Suc_eq_le)

lemma find_ready_elem_in:
  assumes q: "queues s qs" and "\<forall>i \<in> set is. i \<le> MAXPRIO"
  shows "find_ready_elem (is @ js) P s = (case first_ready is P qs of
      Some (i, p) \<Rightarrow> Ok (Some p) | None \<Rightarrow> find_ready_elem js P s)"
  using assms(2)
  by (induction "is") (auto simp: ready_elem_def find_node_queues [OF q] split: option.splits)

text \<open>The pass behind the array looks at a node that the first pass has already looked at.\<close>

lemma find_ready_elem_all:
  assumes q: "queues s qs"
  shows "find_ready_elem [0..<MAXPRIO + 2] P s
    = Ok (case first_ready [0..<Suc MAXPRIO] P qs of Some (i, p) \<Rightarrow> Some p | None \<Rightarrow> None)"
proof -
  have u: "[0..<MAXPRIO + 2] = [0..<Suc MAXPRIO] @ [Suc MAXPRIO]" by simp
  have f0: "\<not> P (last (qs (Lready 0)))" if "first_ready [0..<Suc MAXPRIO] P qs = None" "qs (Lready 0) \<noteq> []"
    using that(1) last_in_set [OF that(2)] le0 [of MAXPRIO] unfolding first_ready_all_None by blast
  have "find_ready_elem [Suc MAXPRIO] P s = Ok None" if "first_ready [0..<Suc MAXPRIO] P qs = None"
    using f0 [OF that] by (auto simp: ready_elem_def find_node_tail [OF q])
  moreover have "\<forall>i \<in> set [0..<Suc MAXPRIO]. i \<le> MAXPRIO" by auto
  ultimately show ?thesis
    unfolding u by (subst find_ready_elem_in [OF q]) (auto split: option.splits)
qed

lemma find_hit:
  "pinv s qs \<Longrightarrow> find P (qs l) = Some p \<Longrightarrow> p < NPROC \<and> p_state (procs s p) = state_of l \<and> P p"
  using find_SomeD pinv_bound pinv_state by metis

lemma first_ready_hit:
  "pinv s qs \<Longrightarrow> first_ready is P qs = Some (i, p) \<Longrightarrow>
   p < NPROC \<and> p_state (procs s p) = RUNNABLE \<and> P p \<and> i = unat (p_priority (procs s p))"
  using first_ready_Some [of "is" P qs i p] pinv_bound [of s qs p "Lready i"] pinv_state [of s qs p "Lready i"]
    pinv_ready [of s qs p i] by simp

lemma live_miss:
  assumes inv: "pinv s qs" and n: "first_ready [0..<Suc MAXPRIO] P qs = None"
    "find P (qs Lrunning) = None" "find P (qs Lsleep) = None" and p: "p < NPROC" "live (procs s p)"
  shows "\<not> P p"
proof -
  have l: "p \<in> set (qs (list_of (procs s p)))" by (rule pinv_list_of [OF inv p(1)])
  have "unat (p_priority (procs s p)) \<le> MAXPRIO" by (rule pinv_prio [OF inv p(1)])
  then show ?thesis
    using l p(2) n by (auto simp: live_def list_of_def ready_def find_None_iff first_ready_all_None
        simp del: upt_Suc)
qed

lemma prio_of_eq:
  assumes "pinv s qs" and "p < NPROC"
  shows "prio_of s p = int (unat (p_priority (procs s p)))"
proof -
  let ?w = "p_priority (procs s p)"
  have "unat ?w \<in> {0, 1, 2, 3, 4, 5, 6}" using pinv_prio [OF assms] by (auto simp: MAXPRIO_def)
  moreover have "sint (of_nat n :: uint32) = int n" if "n \<in> {0, 1, 2, 3, 4, 5, 6}" for n
    using that by auto
  ultimately have "sint (of_nat (unat ?w) :: uint32) = int (unat ?w)" by blast
  then show ?thesis by (simp add: prio_of_def)
qed

lemma getPriority_ok:
  assumes inv: "pinv s qs"
  shows "\<exists>r. getPriority pid s = Ok r \<and>
    ((\<exists>p < NPROC. live (procs s p) \<and> has_pid s pid p \<and> r = int (unat (p_priority (procs s p))))
     \<or> r = -1 \<and> (\<forall>p < NPROC. live (procs s p) \<longrightarrow> \<not> has_pid s pid p))"
proof -
  note q = pinv_queues [OF inv]
  have e: "getPriority pid s = Ok (case first_ready [0..<Suc MAXPRIO] (has_pid s pid) qs of
      Some (i, p) \<Rightarrow> prio_of s p
    | None \<Rightarrow> (case find (has_pid s pid) (qs Lrunning) of Some p \<Rightarrow> prio_of s p
      | None \<Rightarrow> (case find (has_pid s pid) (qs Lsleep) of Some p \<Rightarrow> prio_of s p | None \<Rightarrow> -1)))"
    unfolding getPriority_def find_ready_elem_all [OF q]
    by (auto simp: find_node_queues [OF q] split: option.splits)
  have "(\<exists>p < NPROC. live (procs s p) \<and> has_pid s pid p \<and> r = int (unat (p_priority (procs s p))))
      \<or> r = -1 \<and> (\<forall>p < NPROC. live (procs s p) \<longrightarrow> \<not> has_pid s pid p)"
    if "getPriority pid s = Ok r" for r
    using that live_miss [OF inv, of "has_pid s pid"] unfolding e
    by (auto split: option.splits dest!: find_hit [OF inv] first_ready_hit [OF inv]
        simp: live_def prio_of_eq [OF inv])
  with e show ?thesis by blast
qed

lemma setPriority_ready:
  assumes inv: "pinv s qs" and out: "out_ptlock c s"
    and f: "first_ready [0..<Suc MAXPRIO] (has_pid s pid) qs = Some (i, p)"
  shows "setPriority c pid prio s = Ok (int i, locked_by c Lk_ptable s)"
proof -
  let ?s = "locked_by c Lk_ptable s"
  have hp: "has_pid ?s pid = has_pid s pid" by (simp add: has_pid_def fun_eq_iff)
  have q: "queues ?s qs" using pinv_queues [OF inv] by simp
  have "lock_if_free c s = Ok (True, ?s)"
    using out acquire_out [OF out] by (auto simp: lock_if_free_def out_ptlock_def lock_free_def holding_def)
  moreover have "p_priority (procs s p) = of_nat i" using first_ready_hit [OF inv f] by simp
  ultimately show ?thesis using f by (simp add: setPriority_def find_ready_queues [OF q] hp)
qed


text \<open>On a running or a sleeping process: a good priority is stored and the budget refilled; a bad
  one is refused with the lock still held.\<close>

definition repriced :: "int \<Rightarrow> proc \<Rightarrow> proc" where
  "repriced prio r = r\<lparr>p_priority := word_of_int prio, p_budget := MAXBUDG\<rparr>"

lemma prio_ok_unat: "prio_ok prio \<Longrightarrow> unat (word_of_int prio :: uint32) = nat prio \<and> nat prio \<le> MAXPRIO"
  by (auto simp: prio_ok_def MAXPRIO_def unat_eq_nat_uint uint_word_of_int_eq take_bit_int_eq_self)

lemma setPriority_other:
  assumes inv: "pinv s qs" and out: "out_ptlock c s"
    and n: "first_ready [0..<Suc MAXPRIO] (has_pid s pid) qs = None"
  defines "u \<equiv> locked_by c Lk_ptable s"
  shows "setPriority c pid prio s =
    (case (case find (has_pid s pid) (qs Lrunning) of None \<Rightarrow> find (has_pid s pid) (qs Lsleep) | r \<Rightarrow> r) of
       None \<Rightarrow> Ok (-1, unlocked_by c Lk_ptable u)
     | Some p \<Rightarrow> if prio_ok prio then Ok (prio, unlocked_by c Lk_ptable (upd_proc p (repriced prio) u))
               else Ok (-1, u))"
proof -
  have hp: "has_pid u pid = has_pid s pid" by (simp add: u_def has_pid_def fun_eq_iff)
  have q: "queues u qs" using pinv_queues [OF inv] by (simp add: u_def)
  have lk: "in_ptlock c u" unfolding u_def by (rule in_ptlock_locked_by [OF out])
  have l: "lock_if_free c s = Ok (True, u)"
    using out acquire_out [OF out] by (auto simp: u_def lock_if_free_def out_ptlock_def lock_free_def holding_def)
  have in_eq: "setPriority_in c True prio p u =
      (if prio_ok prio then Ok (prio, unlocked_by c Lk_ptable (upd_proc p (repriced prio) u)) else Ok (-1, u))" for p
    using release_in [of c "upd_proc p (repriced prio) u"] lk
    by (simp add: setPriority_in_def unlock_if_def repriced_def [abs_def])
  show ?thesis
    unfolding setPriority_def l bnd_simps prod.case find_ready_queues [OF q] find_node_queues [OF q] hp n
    using release_in [OF lk] by (auto simp: in_eq unlock_if_def split: option.splits)
qed

lemma pinv_repriced:
  assumes inv: "pinv s qs" and p: "p \<in> set (qs Lrunning) \<or> p \<in> set (qs Lsleep)" and ok: "prio_ok prio"
  shows "pinv (upd_proc p (repriced prio) s) qs"
proof -
  obtain l where l: "p \<in> set (qs l)" "\<forall>i. l \<noteq> Lready i" using p by auto
  show ?thesis
    by (rule pinv_upd_filed [OF inv l(1)])
      (use pinv_filed [OF inv l(1)] l(2) prio_ok_unat [OF ok] in \<open>auto simp: link_free_def repriced_def filed_def\<close>)
qed

end
