(* ===== verification/ProcProps.thy ===== *)
theory ProcProps
  imports Mlfq
begin

text \<open>
  The properties of the process table and the scheduler of \<^verbatim>\<open>src/proc.c\<close>: the pointer lists refine
  queues, every transition keeps the invariant \<^const>\<open>pinv\<close>, the scheduler runs the highest priority,
  budgets and promotion work on the unsigned fields, and what the priority calls do.
\<close>


section \<open>Sample tables\<close>

text \<open>Slot 0 runs, slots 1 and 2 sleep on the same channel, slots 3 and 4 are ready at
  priorities 2 and 4, the rest is unused.\<close>

definition demo :: "nat \<Rightarrow> proc" where
  "demo p = (if p = 0 then mk_proc RUNNING 1 0
     else if p = 1 then (mk_proc SLEEPING 2 0)\<lparr>p_chan := Chan_ticks\<rparr>
     else if p = 2 then (mk_proc SLEEPING 3 1)\<lparr>p_chan := Chan_ticks\<rparr>
     else if p = 3 then mk_proc RUNNABLE 4 2
     else if p = 4 then mk_proc RUNNABLE 5 4
     else blank_proc)"

text \<open>Every slot on the free list.\<close>

definition all_free :: "nat list \<Rightarrow> lname \<Rightarrow> nat list" where
  "all_free xs l = (if l = Lfree then xs else [])"

definition demo_st :: ptab where
  "demo_st = set_cur 0 (Some 0) (mk_tab demo)"

lemma demo_simps [simp]:
  "procs (mk_tab r) p = (r p)\<lparr>p_next := succ_in (qs_of r (list_of (r p))) p\<rparr>"
  "p_state (mk_proc st pid prio) = st" "p_priority (mk_proc st pid prio) = prio"
  "p_pid (mk_proc st pid prio) = pid" "p_pgdir (mk_proc st pid prio) = 0x80200000"
  "p_state blank_proc = UNUSED" "p_priority blank_proc = 0" "p_pid blank_proc = 0"
  "procs demo_st = procs (mk_tab demo)"
  by (simp_all add: mk_tab_def mk_proc_def blank_proc_def demo_st_def set_cur_def)

lemma demo_fields:
  "p_state (demo p) = (if p = 0 then RUNNING else if p = 1 \<or> p = 2 then SLEEPING
     else if p = 3 \<or> p = 4 then RUNNABLE else UNUSED)"
  "p_priority (demo p) = (if p = 2 then 1 else if p = 3 then 2 else if p = 4 then 4 else 0)"
  by (simp_all add: demo_def)

lemma demo_inv: "pinv demo_st (qs_of demo)"
  by (simp add: demo_st_def set_cur_def) (rule pinv_mk_tab, simp add: demo_fields MAXPRIO_def)

lemma list_of_demo: "list_of (demo p) = (if p = 0 then Lrunning else if p = 1 \<or> p = 2 then Lsleep
     else if p = 3 then Lready 2 else if p = 4 then Lready 4 else Lfree)"
  by (simp add: list_of_def demo_fields ready_def)

lemma upt_64: "[0..<NPROC] = 0 # 1 # 2 # 3 # 4 # [5..<NPROC]"
  by (simp add: NPROC_def upt_conv_Cons)

lemma demo_qs:
  "qs_of demo Lrunning = [0]" "qs_of demo Lsleep = [1, 2]"
  "qs_of demo (Lready i) = (if i = 2 then [3] else if i = 4 then [4] else [])"
  unfolding qs_of_def upt_64 list_of_demo by (auto intro!: filter_False)

lemma demo_out: "out_ptlock c demo_st"
  by (simp add: out_ptlock_def lock_free_def demo_st_def set_cur_def mk_tab_def idle_cpu_def upd_cpu_def)

lemma demo_cur: "cur 0 demo_st = Some 0"
  by (simp add: cur_def demo_st_def set_cur_def upd_cpu_def mk_tab_def)

section \<open>Properties\<close>

text \<open>C4: \<^verbatim>\<open>stateListRemove\<close> takes a node out of the list that holds it and changes nothing else:
  the other lists, the order of the remaining nodes, and every field but the links stay.\<close>

theorem stateListRemove_refines:
  assumes "queues s qs" and "p \<in> set (qs l)"
  shows "\<exists>t. stateListRemove l (Some p) s = Ok (0, t) \<and> queues t (qs(l := remove1 p (qs l))) \<and>
    payload t = payload s"
  by (rule sq.remove_ok [OF assms])

theorem stateListRemove_refines_witness:
  "\<exists>t. stateListRemove Lsleep (Some 1) demo_st = Ok (0, t) \<and>
    queues t ((qs_of demo)(Lsleep := [2])) \<and> payload t = payload demo_st"
  using stateListRemove_refines [OF pinv_queues [OF demo_inv], of 1 Lsleep] by (simp add: demo_qs)

text \<open>C2: one pass of the loop of \<^verbatim>\<open>scheduler\<close> dispatches the first process of the first ready list
  that is not empty, so no ready process has a higher priority; the invariant of the table and the
  lock are kept.\<close>

theorem scheduler_dispatches_highest:
  assumes "pinv s qs" and "in_ptlock c s" and "vm_ok s" and "\<exists>i \<le> MAXPRIO. qs (Lready i) \<noteq> []"
  shows "\<exists>i p t. scheduler_from c 0 s = Ok (Dispatched p i, t) \<and> p \<in> set (qs (Lready i)) \<and>
    hd (qs (Lready i)) = p \<and> pinv t (mvh (Lready i) Lrunning p qs) \<and> in_ptlock c t \<and>
    cur c t = Some p \<and> p_state (procs t p) = RUNNING \<and> c_cr3 (cpus t c) = v2p (p_pgdir (procs s p)) \<and>
    (\<forall>q < NPROC. p_state (procs s q) = RUNNABLE \<longrightarrow> p_priority (procs s p) \<le> p_priority (procs s q))"
proof -
  define i where "i = (LEAST i. i \<le> MAXPRIO \<and> qs (Lready i) \<noteq> [])"
  have i: "i \<le> MAXPRIO" "qs (Lready i) \<noteq> []" using LeastI_ex [OF assms(4)] by (auto simp: i_def)
  have low: "qs (Lready j) = []" if "j < i" for j
    using not_less_Least [of j "\<lambda>i. i \<le> MAXPRIO \<and> qs (Lready i) \<noteq> []"] that i(1) by (auto simp: i_def)
  obtain p ps where p: "qs (Lready i) = p # ps" using i(2) by (cases "qs (Lready i)") auto
  then have pi: "p \<in> set (qs (Lready i))" by simp
  obtain t where t: "dispatch c p s = Ok t" "pinv t (mvh (Lready i) Lrunning p qs)" "in_ptlock c t"
    "cur c t = Some p" "c_cr3 (cpus t c) = v2p (p_pgdir (procs s p))"
    using dispatch_ok [OF assms(1,2) pi vm_okD [OF assms(3,1) pi]] by blast
  have "p_state (procs t p) = RUNNING" using pinv_state [OF t(2), of p Lrunning] by simp
  moreover have "p_priority (procs s p) \<le> p_priority (procs s q)"
    if "q < NPROC" "p_state (procs s q) = RUNNABLE" for q
  proof -
    have "q \<in> set (qs (Lready (unat (p_priority (procs s q)))))"
      using pinv_list_of [OF assms(1) that(1)] that(2) by (simp add: list_of_def ready_def)
    then have "i \<le> unat (p_priority (procs s q))" using low by (metis emptyE linorder_not_less list.set(1))
    then show ?thesis using pinv_ready [OF assms(1) pi] by (simp add: word_le_nat_alt)
  qed
  moreover have "scheduler_from c 0 s = Ok (Dispatched p i, t)"
    using scheduler_from_skip [OF assms(1) low _ i(1) p, of 0] t(1) by simp
  ultimately show ?thesis using t p pi by auto
qed

theorem scheduler_dispatches_highest_witness:
  "\<exists>i p t. scheduler_from 1 0 (locked_by 1 Lk_ptable demo_st) = Ok (Dispatched p i, t) \<and> p \<in> set (qs_of demo (Lready i)) \<and>
    hd (qs_of demo (Lready i)) = p \<and> pinv t (mvh (Lready i) Lrunning p (qs_of demo)) \<and> cur 1 t = Some p"
proof -
  have "vm_ok (locked_by 1 Lk_ptable demo_st)" by (simp add: vm_ok_def demo_fields) (simp add: demo_def)
  moreover have "\<exists>i \<le> MAXPRIO. qs_of demo (Lready i) \<noteq> []"
    by (rule exI [of _ 2]) (simp add: demo_qs MAXPRIO_def)
  moreover have "pinv (locked_by 1 Lk_ptable demo_st) (qs_of demo)" using demo_inv by simp
  ultimately show ?thesis
    using scheduler_dispatches_highest [of "locked_by 1 Lk_ptable demo_st" "qs_of demo" 1]
      in_ptlock_locked_by [OF demo_out] by blast
qed


text \<open>C13: \<^verbatim>\<open>yield\<close> puts the running process at the end of the ready list of its priority, which drops by
  one where the time since its dispatch exceeds its budget; the invariant holds when the scheduler
  gets the CPU.\<close>

theorem yield_requeues:
  assumes "pinv s qs" and "out_ptlock c s" and "cur c s = Some me" and "me \<in> set (qs Lrunning)"
  shows "\<exists>ie t. yield c s = Ok (ie, t) \<and> in_ptlock c t \<and> p_state (procs t me) = RUNNABLE \<and>
    pinv t (mv Lrunning (ready (p_priority (procs t me))) me qs) \<and>
    p_priority (procs t me) = p_priority (demoted (charged (ticks s) (procs s me))) \<and>
    (\<forall>q. q \<noteq> me \<longrightarrow> (procs t q)\<lparr>p_next := None\<rparr> = (procs s q)\<lparr>p_next := None\<rparr>)"
proof -
  let ?r = "demoted (charged (ticks s) ((procs s me)\<lparr>p_state := RUNNABLE\<rparr>))"
  obtain ie t where t: "yield c s = Ok (ie, t)" "pinv t (mv Lrunning (ready (p_priority ?r)) me qs)"
    "in_ptlock c t" "payload t = payload (upd_proc me (\<lambda>_. accounted (ticks s) ?r) (locked_by c Lk_ptable s))"
    using yield_ok [OF assms] by blast
  have "p_priority (procs t me) = p_priority ?r" "p_state (procs t me) = RUNNABLE"
    using payload_fields(1,2) [OF t(4), of me] by (simp_all add: accounted_def charged_def)
  moreover have "p_priority ?r = p_priority (demoted (charged (ticks s) (procs s me)))"
    by (simp add: demoted_def charged_def)
  moreover have "(procs t q)\<lparr>p_next := None\<rparr> = (procs s q)\<lparr>p_next := None\<rparr>" if "q \<noteq> me" for q
    using payload_proc [OF t(4), of q] that by simp
  ultimately show ?thesis using t by auto
qed

theorem yield_requeues_witness:
  "\<exists>ie t. yield 0 demo_st = Ok (ie, t) \<and> p_state (procs t 0) = RUNNABLE \<and>
    pinv t (mv Lrunning (ready (p_priority (procs t 0))) 0 (qs_of demo))"
  using yield_requeues [OF demo_inv demo_out demo_cur] by (auto simp: demo_qs)

text \<open>C16: \<^verbatim>\<open>sleep\<close>, called with \<^verbatim>\<open>ptable.lock\<close>, puts the running process at the end of the sleep list with
  its channel recorded, and keeps the invariant and the lock, so a wake-up under the lock cannot be
  missed.\<close>

theorem sleep_files_process:
  assumes "pinv s qs" and "in_ptlock c s" and "cur c s = Some me" and "me \<in> set (qs Lrunning)"
  shows "\<exists>ie t. sleep c ch (Some Lk_ptable) s = Ok (ie, t) \<and> in_ptlock c t \<and>
    pinv t (mv Lrunning Lsleep me qs) \<and> p_state (procs t me) = SLEEPING \<and> p_chan (procs t me) = ch \<and>
    (\<forall>q. q \<noteq> me \<longrightarrow> (procs t q)\<lparr>p_next := None\<rparr> = (procs s q)\<lparr>p_next := None\<rparr>)"
proof -
  let ?r = "accounted (ticks s) (demoted (charged (ticks s) ((procs s me)\<lparr>p_chan := ch, p_state := SLEEPING\<rparr>)))"
  obtain ie t where t: "go_to_sleep c me ch s = Ok (ie, t)" "pinv t (mv Lrunning Lsleep me qs)"
    "in_ptlock c t" "payload t = payload (upd_proc me (\<lambda>_. ?r) s)"
    using go_to_sleep_ok [OF assms] by blast
  have "p_state (procs t me) = SLEEPING" "p_chan (procs t me) = ch"
    using payload_fields(1) [OF t(4), of me] payload_fields(5) [OF t(4), of me]
    by (simp_all add: accounted_def charged_def demoted_def)
  moreover have "(procs t q)\<lparr>p_next := None\<rparr> = (procs s q)\<lparr>p_next := None\<rparr>" if "q \<noteq> me" for q
    using payload_proc [OF t(4), of q] that by simp
  ultimately show ?thesis using t assms(3) by (auto simp: sleep_def)
qed

theorem sleep_files_process_witness:
  "\<exists>ie t. sleep 0 Chan_input (Some Lk_ptable) (locked_by 0 Lk_ptable demo_st) = Ok (ie, t) \<and>
    pinv t (mv Lrunning Lsleep 0 (qs_of demo)) \<and> p_state (procs t 0) = SLEEPING \<and> p_chan (procs t 0) = Chan_input"
proof -
  have "pinv (locked_by 0 Lk_ptable demo_st) (qs_of demo)" using demo_inv by simp
  moreover have "cur 0 (locked_by 0 Lk_ptable demo_st) = Some 0"
    using demo_cur by (simp add: cur_def locked_by_def pushed_def)
  ultimately show ?thesis
    using sleep_files_process [of "locked_by 0 Lk_ptable demo_st" "qs_of demo" 0 0 Chan_input]
      in_ptlock_locked_by [OF demo_out] by (auto simp: demo_qs)
qed

text \<open>C28: \<^verbatim>\<open>wakeup1\<close> makes ready the first process of the sleep list that sleeps on the channel, and only
  that one: the loop follows \<^verbatim>\<open>p->next\<close> after \<^verbatim>\<open>stateListAdd\<close> has cleared it. Every other sleeper
  on the channel stays asleep.\<close>

theorem wakeup1_wakes_first_only:
  assumes "pinv s qs" and "qs Lsleep = xs @ p # ys" and "p_chan (procs s p) = ch"
    and "\<forall>x \<in> set xs. p_chan (procs s x) \<noteq> ch"
  shows "\<exists>t. wakeup1 ch s = Ok t \<and> pinv t (mv Lsleep (ready (p_priority (procs s p))) p qs) \<and>
    p_state (procs t p) = RUNNABLE \<and> (\<forall>q \<in> set ys. p_state (procs t q) = SLEEPING)"
proof -
  obtain t where t: "wakeup1 ch s = Ok t" "pinv t (mv Lsleep (ready (p_priority (procs s p))) p qs)"
    using wakeup1_first [OF assms] by blast
  have "p_state (procs t p) = RUNNABLE"
    using pinv_state [OF t(2), of p "ready (p_priority (procs s p))"] by (simp add: ready_def)
  moreover have "p_state (procs t q) = SLEEPING" if "q \<in> set ys" for q
  proof -
    have "q \<noteq> p" using that queues_distinct [OF pinv_queues [OF assms(1)], of Lsleep] assms(2) by auto
    then have "q \<in> set (mv Lsleep (ready (p_priority (procs s p))) p qs Lsleep)"
      using that assms(2) by (simp add: mv_def ready_def remove1_append)
    then show ?thesis using pinv_state [OF t(2)] by fastforce
  qed
  ultimately show ?thesis using t by blast
qed

theorem wakeup1_wakes_first_only_witness:
  "\<exists>t. wakeup1 Chan_ticks demo_st = Ok t \<and> p_state (procs t 1) = RUNNABLE \<and> p_state (procs t 2) = SLEEPING \<and>
    p_chan (procs demo_st 2) = Chan_ticks"
proof -
  have c: "p_chan (procs demo_st 1) = Chan_ticks" "p_chan (procs demo_st 2) = Chan_ticks"
    by (simp_all add: demo_def)
  have "\<exists>t. wakeup1 Chan_ticks demo_st = Ok t \<and> pinv t (mv Lsleep (ready (p_priority (procs demo_st 1))) 1 (qs_of demo)) \<and>
      p_state (procs t 1) = RUNNABLE \<and> (\<forall>q \<in> set [2]. p_state (procs t q) = SLEEPING)"
    by (rule wakeup1_wakes_first_only [OF demo_inv _ c(1), of "[]"]) (simp_all add: demo_qs)
  then show ?thesis using c(2) by auto
qed

text \<open>C26: \<^verbatim>\<open>kill\<close> returns 0 exactly when it found a process with the given pid that is an embryo, ready,
  running or asleep; it marks that process killed and makes a sleeper ready; otherwise it returns -1
  and changes no process. The invariant and the lock are restored on both paths.\<close>

theorem kill_correct:
  assumes "pinv s qs" and "out_ptlock c s"
  shows "\<exists>r t qs'. kill c pid s = Ok (r, t) \<and> pinv t qs' \<and> out_ptlock c t \<and>
    (if r = 0 then \<exists>p < NPROC. has_pid s pid p \<and> killable (procs s p) \<and> p_killed (procs t p) \<and>
        p_state (procs t p) = (if p_state (procs s p) = SLEEPING then RUNNABLE else p_state (procs s p))
     else r = -1 \<and> procs t = procs s \<and> (\<forall>p < NPROC. killable (procs s p) \<longrightarrow> \<not> has_pid s pid p))"
  by (rule kill_ok [OF assms])

theorem kill_correct_witness:
  "\<exists>r t qs'. kill 0 3 demo_st = Ok (r, t) \<and> r = 0 \<and> pinv t qs' \<and> out_ptlock 0 t"
proof -
  have "2 < NPROC" "killable (procs demo_st 2)" "has_pid demo_st 3 2"
    by (simp_all add: NPROC_def killable_def has_pid_def demo_def)
  moreover obtain r t qs' where k: "kill 0 3 demo_st = Ok (r, t)" "pinv t qs'" "out_ptlock 0 t"
    "r = 0 \<or> (\<forall>p < NPROC. killable (procs demo_st p) \<longrightarrow> \<not> has_pid demo_st 3 p)"
    using kill_correct [OF demo_inv demo_out, of 0 3] by (metis (no_types, lifting))
  ultimately show ?thesis by blast
qed

text \<open>C12: when it is due, \<^verbatim>\<open>promoteAll\<close> appends ready list 1 to ready list 0, moves every other ready list up
  by one, raises the priority of every ready, running and sleeping process by one level and refills
  its budget, and sets the next promotion time; the invariant holds again, so every process is in
  the list of its new priority.\<close>

theorem promoteAll_correct:
  assumes "pinv s qs" and "holding c Lk_ptable s" and "\<not> ticks s < promoteAtTime s"
  shows "\<exists>t. promoteAll c s = Ok t \<and> pinv t (promoted qs) \<and> promoteAtTime t = ticks s + TICKS_TO_PROMOTE \<and>
    (\<forall>p < NPROC. if live (procs s p)
       then unat (p_priority (procs t p)) = unat (p_priority (procs s p)) - 1 \<and> p_budget (procs t p) = MAXBUDG
       else (procs t p)\<lparr>p_next := None\<rparr> = (procs s p)\<lparr>p_next := None\<rparr>)"
proof -
  obtain t where t: "promoteAll c s = Ok t" "pinv t (promoted qs)" "payload t = payload (promoted_st s)"
    using promoteAll_ok [OF assms] by blast
  have "promoteAtTime t = ticks s + TICKS_TO_PROMOTE"
    using payload_promote [OF t(3)] by (simp add: promoted_st_def)
  moreover have "unat (p_priority (procs t p)) = unat (p_priority (procs s p)) - 1 \<and> p_budget (procs t p) = MAXBUDG"
    if "p < NPROC" "live (procs s p)" for p
    using payload_fields(2) [OF t(3), of p] payload_fields(7) [OF t(3), of p] that lifted_prio [of "procs s p"]
    by (simp add: promoted_st_def) (simp add: lifted_def)
  moreover have "(procs t p)\<lparr>p_next := None\<rparr> = (procs s p)\<lparr>p_next := None\<rparr>" if "p < NPROC" "\<not> live (procs s p)" for p
    using payload_proc [OF t(3), of p] that by (simp add: promoted_st_def)
  ultimately show ?thesis using t by auto
qed

theorem promoteAll_correct_witness:
  "\<exists>t. promoteAll 0 ((locked_by 0 Lk_ptable demo_st)\<lparr>ticks := 4000\<rparr>) = Ok t \<and> pinv t (promoted (qs_of demo)) \<and>
    unat (p_priority (procs t 4)) = 3 \<and> promoteAtTime t = 8000"
proof -
  let ?s = "(locked_by 0 Lk_ptable demo_st)\<lparr>ticks := 4000\<rparr>"
  have "pinv ?s (qs_of demo) = pinv demo_st (qs_of demo)"
    by (rule pinv_cong) (simp_all add: nxt_def fun_eq_iff)
  moreover have "holding 0 Lk_ptable ?s"
    using in_ptlock_holding [OF in_ptlock_locked_by [OF demo_out]] by (simp add: holding_def)
  moreover have "\<not> ticks ?s < promoteAtTime ?s" by (simp add: demo_st_def set_cur_def mk_tab_def)
  moreover have "live (procs ?s 4)" "4 < NPROC" "p_priority (procs ?s 4) = 4"
    by (simp_all add: live_def NPROC_def demo_fields)
  ultimately show ?thesis
    using promoteAll_correct [of ?s "qs_of demo" 0] demo_inv by (fastforce simp: TICKS_TO_PROMOTE_def MAXBUDG_def)
qed


lemma charged_budget:
  assumes "p_budget r \<le> MAXBUDG" and "unat (tk - p_cpu_ticks_in r) \<le> 4294967000"
  shows "p_budget (charged tk r) \<le> MAXBUDG \<longleftrightarrow> tk - p_cpu_ticks_in r \<le> p_budget r"
proof -
  let ?e = "tk - p_cpu_ticks_in r"
  have b: "unat (p_budget r) \<le> 200" using assms(1) by (simp add: MAXBUDG_def word_le_nat_alt)
  have c: "p_budget (charged tk r) = p_budget r - ?e" by (simp add: charged_def)
  show ?thesis
  proof (cases "?e \<le> p_budget r")
    case True
    then have "unat (p_budget r - ?e) \<le> 200" using b by (simp add: unat_diff_no_wrap)
    then show ?thesis using True c by (simp add: MAXBUDG_def word_le_nat_alt)
  next
    case False
    then have "unat (p_budget r - ?e) = 4294967296 + unat (p_budget r) - unat ?e"
      by (intro unat_diff_wrap) (simp add: not_le)
    then have "\<not> unat (p_budget r - ?e) \<le> 200" using assms(2) by linarith
    then show ?thesis using False c by (simp add: MAXBUDG_def word_le_nat_alt)
  qed
qed

text \<open>charging a process for its time slice and then calling \<^verbatim>\<open>demoteProc\<close> implements the budget rule
  although the budget is unsigned and never negative: a slice within the budget only reduces the
  budget; a longer one makes it wrap around past \<^verbatim>\<open>MAXBUDG\<close>, which lowers the priority by one level
  (down to the lowest one) and refills the budget.\<close>

theorem demote_on_budget_exhaustion:
  assumes "holding c Lk_ptable s" and "p_budget (procs s p) \<le> MAXBUDG"
    and "unat (p_priority (procs s p)) \<le> MAXPRIO"
    and "unat (ticks s - p_cpu_ticks_in (procs s p)) \<le> 4294967000"
  shows "\<exists>t. demoteProc c p (charge p s) = Ok t \<and>
    (if ticks s - p_cpu_ticks_in (procs s p) \<le> p_budget (procs s p)
     then p_priority (procs t p) = p_priority (procs s p) \<and>
       p_budget (procs t p) = p_budget (procs s p) - (ticks s - p_cpu_ticks_in (procs s p))
     else unat (p_priority (procs t p)) = min MAXPRIO (unat (p_priority (procs s p)) + 1) \<and>
       p_budget (procs t p) = MAXBUDG)"
proof -
  let ?r = "procs s p"
  let ?c = "charged (ticks s) ?r"
  have d: "demoteProc c p (charge p s) = Ok (upd_proc p demoted (charge p s))"
    using assms(1) by (intro demoteProc_held) (simp add: charge_eq holding_def)
  have "unat (p_priority ?r + 1) = min MAXPRIO (unat (p_priority ?r) + 1)" if "p_priority ?r < of_nat MAXPRIO"
    using that by (simp add: word_less_nat_alt MAXPRIO_def unat_word_ariths)
  moreover have "unat (p_priority ?r) = min MAXPRIO (unat (p_priority ?r) + 1)" if "\<not> p_priority ?r < of_nat MAXPRIO"
    using that assms(3) by (simp add: word_less_nat_alt MAXPRIO_def)
  ultimately have pr: "unat (if p_priority ?r < of_nat MAXPRIO then p_priority ?r + 1 else p_priority ?r)
      = min MAXPRIO (unat (p_priority ?r) + 1)" by simp
  note cb = charged_budget [OF assms(2,4)]
  have cs: "p_priority ?c = p_priority ?r" "p_budget ?c = p_budget ?r - (ticks s - p_cpu_ticks_in ?r)"
    by (simp_all add: charged_def)
  have tp: "procs (upd_proc p demoted (charge p s)) p = demoted ?c" by (simp add: charge_eq)
  show ?thesis
  proof (cases "ticks s - p_cpu_ticks_in ?r \<le> p_budget ?r")
    case True
    then have "demoted ?c = ?c" using cb by (simp add: demoted_def)
    then show ?thesis using d tp cs True by simp
  next
    case False
    then have "p_priority (demoted ?c) = (if p_priority ?r < of_nat MAXPRIO then p_priority ?r + 1 else p_priority ?r)"
      "p_budget (demoted ?c) = MAXBUDG" using cb cs(1) by (simp_all add: demoted_def)
    then show ?thesis using d tp pr False by simp
  qed
qed

theorem demote_on_budget_exhaustion_witness:
  "\<exists>t. demoteProc 0 0 (charge 0 ((locked_by 0 Lk_ptable demo_st)\<lparr>ticks := 300\<rparr>)) = Ok t \<and>
    unat (p_priority (procs t 0)) = 1 \<and> p_budget (procs t 0) = MAXBUDG"
proof -
  let ?s = "(locked_by 0 Lk_ptable demo_st)\<lparr>ticks := 300\<rparr>"
  have "holding 0 Lk_ptable ?s"
    using in_ptlock_holding [OF in_ptlock_locked_by [OF demo_out]] by (simp add: holding_def)
  then show ?thesis
    using demote_on_budget_exhaustion [of 0 ?s 0]
    by (auto simp: demo_def mk_proc_def blank_proc_def MAXBUDG_def MAXPRIO_def)
qed

text \<open>C29: on a ready process \<^verbatim>\<open>setPriority\<close> changes nothing, returns the priority the process has, and
  returns with \<^verbatim>\<open>ptable.lock\<close> held: the list index that the search stops at is always the priority,
  so the code that would move the process is never reached.\<close>

theorem setPriority_ready_no_effect:
  assumes "pinv s qs" and "out_ptlock c s" and "p < NPROC" and "p_state (procs s p) = RUNNABLE" and "has_pid s pid p"
  shows "\<exists>i. setPriority c pid prio s = Ok (int i, locked_by c Lk_ptable s) \<and>
    procs (locked_by c Lk_ptable s) = procs s \<and> holding c Lk_ptable (locked_by c Lk_ptable s)"
proof -
  have "p \<in> set (qs (Lready (unat (p_priority (procs s p)))))"
    using pinv_list_of [OF assms(1,3)] assms(4) by (simp add: list_of_def ready_def)
  moreover have "unat (p_priority (procs s p)) \<le> MAXPRIO" by (rule pinv_prio [OF assms(1,3)])
  ultimately have "first_ready [0..<Suc MAXPRIO] (has_pid s pid) qs \<noteq> None"
    unfolding first_ready_all_None using assms(5) by blast
  then obtain i q where "first_ready [0..<Suc MAXPRIO] (has_pid s pid) qs = Some (i, q)" by fast
  then show ?thesis
    using setPriority_ready [OF assms(1,2)] in_ptlock_holding [OF in_ptlock_locked_by [OF assms(2)]] by auto
qed

theorem setPriority_ready_no_effect_witness:
  "\<exists>i. setPriority 0 4 6 demo_st = Ok (int i, locked_by 0 Lk_ptable demo_st) \<and>
    holding 0 Lk_ptable (locked_by 0 Lk_ptable demo_st)"
  using setPriority_ready_no_effect [OF demo_inv demo_out, of 3 4 0 6]
  by (auto simp: NPROC_def demo_fields has_pid_def demo_def)

text \<open>\<^verbatim>\<open>getPriority\<close> terminates and returns the priority of a ready, running or sleeping process with
  the given pid, and -1 exactly when there is none, although its loop bound runs one past the
  array of ready lists.\<close>

theorem getPriority_correct:
  assumes "pinv s qs"
  shows "\<exists>r. getPriority pid s = Ok r \<and>
    ((\<exists>p < NPROC. live (procs s p) \<and> has_pid s pid p \<and> r = int (unat (p_priority (procs s p))))
     \<or> r = -1 \<and> (\<forall>p < NPROC. live (procs s p) \<longrightarrow> \<not> has_pid s pid p))"
  by (rule getPriority_ok [OF assms])

theorem getPriority_correct_witness:
  "\<exists>r. getPriority 5 demo_st = Ok r \<and> 0 \<le> r"
proof -
  have "4 < NPROC" "live (procs demo_st 4)" "has_pid demo_st 5 4"
    by (simp_all add: NPROC_def live_def demo_fields has_pid_def) (simp add: demo_def)
  then show ?thesis using getPriority_correct [OF demo_inv, of 5] by auto
qed

lemma all_free_upd [simp]: "(all_free xs)(Lfree := ys) = all_free ys"
  by (auto simp: all_free_def fun_eq_iff)

lemma all_free_sel [simp]: "all_free xs Lfree = xs" "l \<noteq> Lfree \<Longrightarrow> all_free xs l = []"
  by (simp_all add: all_free_def)

lemma payload_upd_procs:
  assumes lf: "link_free f" and e: "payload t = payload s"
  shows "payload (upd_procs A f t) = payload (upd_procs A f s)"
proof (rule payload_eqI)
  fix i
  have "(f (procs t i))\<lparr>p_next := None\<rparr> = (f (procs s i))\<lparr>p_next := None\<rparr>"
    using payload_proc [OF e, of i] lf unfolding link_free_def by metis
  then show "(procs (upd_procs A f t) i)\<lparr>p_next := None\<rparr> = (procs (upd_procs A f s) i)\<lparr>p_next := None\<rparr>"
    using payload_proc [OF e, of i] by (simp add: upd_procs_def)
qed (use payload_eqD [OF e] in \<open>simp_all add: upd_procs_def\<close>)

lemma initFreeList_from_ok:
  assumes "queues s (all_free xs)" and "distinct (xs @ ps)" and "set (xs @ ps) \<subseteq> {..<NPROC}"
  shows "\<exists>t. initFreeList_from ps s = Ok t \<and> queues t (all_free (xs @ ps)) \<and>
    payload t = payload (upd_procs (set ps) (\<lambda>r. r\<lparr>p_state := UNUSED\<rparr>) s)"
  using assms
proof (induction ps arbitrary: xs s)
  case (Cons p ps)
  let ?u = "\<lambda>r :: proc. r\<lparr>p_state := UNUSED\<rparr>"
  have "p \<notin> set (all_free xs l)" for l using Cons.prems(2) by (cases "l = Lfree") simp_all
  then obtain u where u: "stateListAdd Lfree p (set_state p UNUSED s) = Ok u"
    "queues u (all_free (xs @ [p]))" "payload u = payload (set_state p UNUSED s)"
    using sq.add_ok [of "set_state p UNUSED s" "all_free xs" Lfree p] Cons.prems(1,3) by auto
  have "distinct ((xs @ [p]) @ ps)" "set ((xs @ [p]) @ ps) \<subseteq> {..<NPROC}" using Cons.prems(2,3) by auto
  then obtain t where t: "initFreeList_from ps u = Ok t" "queues t (all_free ((xs @ [p]) @ ps))"
    "payload t = payload (upd_procs (set ps) ?u u)"
    using Cons.IH [OF u(2)] by blast
  have "payload (upd_procs (set ps) ?u u) = payload (upd_procs (set ps) ?u (set_state p UNUSED s))"
    by (rule payload_upd_procs [OF link_free_simps(3) u(3)])
  also have "upd_procs (set ps) ?u (set_state p UNUSED s) = upd_procs (set (p # ps)) ?u s"
    by (auto simp: upd_procs_def set_state_def upd_proc_def fun_eq_iff)
  finally have "payload (upd_procs (set ps) ?u u) = payload (upd_procs (set (p # ps)) ?u s)" .
  then show ?case using u(1) t by simp
qed simp

text \<open>C30: \<^verbatim>\<open>initProcessLists\<close> followed by \<^verbatim>\<open>initFreeList\<close>, on zeroed memory, establishes the invariant of the
  process table with every slot unused and on the free list, in table order.\<close>

theorem init_lists_establish_invariant:
  assumes "holding c Lk_ptable s" and "\<forall>l. \<not> in_struct l \<longrightarrow> heads s l = None \<and> tails s l = None"
    and "\<forall>p < NPROC. p_priority (procs s p) = 0"
  shows "\<exists>t. initFreeList c (initProcessLists s) = Ok t \<and> pinv t (all_free [0..<NPROC]) \<and>
    (\<forall>p < NPROC. p_state (procs t p) = UNUSED)"
proof -
  let ?s = "initProcessLists s"
  have "queues ?s (all_free [])"
    using assms(2) by (auto intro!: queuesI simp: rep_def initProcessLists_def all_free_def split: if_splits)
  then obtain t where t: "initFreeList_from [0..<NPROC] ?s = Ok t" "queues t (all_free [0..<NPROC])"
    "payload t = payload (upd_procs (set [0..<NPROC]) (\<lambda>r. r\<lparr>p_state := UNUSED\<rparr>) ?s)"
    using initFreeList_from_ok [of ?s "[]" "[0..<NPROC]"] by (auto simp: atLeast0LessThan)
  have f: "p_state (procs t p) = UNUSED" "p_priority (procs t p) = 0" if "p < NPROC" for p
    using payload_fields(1,2) [OF t(3), of p] that assms(3) by (simp_all add: upd_procs_def initProcessLists_def)
  then have "pinv t (all_free [0..<NPROC])" using t(2) by (auto simp: pinv_def filed_def all_free_def split: if_splits)
  moreover have "holding c Lk_ptable ?s" using assms(1) by (simp add: holding_def initProcessLists_def)
  ultimately show ?thesis using t(1) f by (auto simp: initFreeList_def)
qed

theorem init_lists_establish_invariant_witness:
  "\<exists>t. initFreeList 0 (initProcessLists (locked_by 0 Lk_ptable (mk_tab (\<lambda>_. blank_proc)))) = Ok t \<and>
    pinv t (all_free [0..<NPROC])"
proof -
  let ?s = "locked_by 0 Lk_ptable (mk_tab (\<lambda>_. blank_proc))"
  have "qs_of (\<lambda>_. blank_proc) l = []" if "\<not> in_struct l" for l
    using that by (cases l) (simp_all add: qs_of_def list_of_def)
  then have "\<forall>l. \<not> in_struct l \<longrightarrow> heads ?s l = None \<and> tails ?s l = None" by (simp add: mk_tab_def locked_by_def)
  moreover have "holding 0 Lk_ptable ?s" by (simp add: holding_def locked_by_def)
  moreover have "\<forall>p < NPROC. p_priority (procs ?s p) = 0" by simp
  ultimately show ?thesis using init_lists_establish_invariant [of 0 ?s] by blast
qed

end
