(* ===== verification/Env.thy ===== *)
theory Env
  imports Mlfq
begin

text \<open>
  Kernel code in process context. \<open>env c L s\<close> says that CPU \<open>c\<close> holds exactly the locks \<open>L\<close>, that every other
  lock is free, that the interrupt state of the CPU agrees with that, and that the process table satisfies
  its invariant. The locking calls and \<^verbatim>\<open>wakeup\<close> move between such states and leave the rest of the kernel
  state (the record extension of the process table) alone, which is all that the device, log and
  file-system layers need to know about them.
\<close>

definition env :: "nat \<Rightarrow> lockid set \<Rightarrow> 'a ptab_scheme \<Rightarrow> bool" where
  "env c L s \<longleftrightarrow> finite L \<and> (\<forall>l. if l \<in> L then holding c l s else lock_free l s) \<and>
     c_ncli (cpus s c) = int (card L) \<and> (L \<noteq> {} \<longrightarrow> \<not> c_if (cpus s c)) \<and> (\<exists>qs. pinv s qs)"

lemma env_more:
  assumes "locks t = locks s" and "cpus t = cpus s" and "procs t = procs s" and "heads t = heads s" and "tails t = tails s"
  shows "env c L t = env c L s"
proof -
  have "pinv t qs = pinv s qs" for qs by (rule pinv_cong) (simp_all add: assms nxt_def fun_eq_iff)
  then show ?thesis by (simp add: env_def holding_def lock_free_def assms)
qed

lemma more_locked_by [simp]: "ptab.more (locked_by c l s) = ptab.more s" "ptab.more (unlocked_by c l s) = ptab.more s"
  by (simp_all add: locked_by_def unlocked_by_def)

lemma pinv_lock_fun [simp]: "pinv (locked_by c l s) = pinv s" "pinv (unlocked_by c l s) = pinv s"
  by (simp_all add: fun_eq_iff)

lemma lock_state_upd:
  "holding c k (locked_by c l s) \<longleftrightarrow> k = l \<or> holding c k s"
  "lock_free k (locked_by c l s) \<longleftrightarrow> k \<noteq> l \<and> lock_free k s"
  "holding c k (unlocked_by c l s) \<longleftrightarrow> k \<noteq> l \<and> holding c k s"
  "lock_free k (unlocked_by c l s) \<longleftrightarrow> k = l \<or> lock_free k s"
  by (auto simp: holding_def lock_free_def)

lemma env_acquire:
  assumes e: "env c L s" and l: "l \<notin> L"
  shows "acquire c l s = Ok (locked_by c l s)" and "env c (insert l L) (locked_by c l s)"
proof -
  have lf: "lock_free l s" using e l by (auto simp: env_def split: if_splits)
  then show "acquire c l s = Ok (locked_by c l s)" by (rule acquire_free)
  have "if k \<in> insert l L then holding c k (locked_by c l s) else lock_free k (locked_by c l s)" for k
    using e by (auto simp: env_def lock_state_upd split: if_splits)
  then show "env c (insert l L) (locked_by c l s)"
    using e l unfolding env_def by simp
qed

lemma env_release:
  assumes e: "env c L s" and l: "l \<in> L"
  shows "release c l s = Ok (unlocked_by c l s)" and "env c (L - {l}) (unlocked_by c l s)"
proof -
  have h: "holding c l s" "\<not> c_if (cpus s c)" "0 < c_ncli (cpus s c)" "finite L"
    using e l by (auto simp: env_def card_gt_0_iff split: if_splits)
  show "release c l s = Ok (unlocked_by c l s)" by (rule release_held [OF h(1-3)])
  have 1: "if k \<in> L - {l} then holding c k (unlocked_by c l s) else lock_free k (unlocked_by c l s)" for k
    using e by (auto simp: env_def lock_state_upd split: if_splits)
  have card: "card L = Suc (card (L - {l}))" using l h(4) by (metis card_Suc_Diff1)
  have 2: "\<not> c_if (popped (cpus s c))" if "L - {l} \<noteq> {}"
  proof -
    have "c_ncli (cpus s c) \<noteq> 1" using that card h(4) e by (simp add: env_def)
    then show ?thesis using h(2) by (simp add: popped_def Let_def)
  qed
  show "env c (L - {l}) (unlocked_by c l s)"
    using e h(4) 1 2 card unfolding env_def by simp
qed

lemma env_procs:
  assumes e: "env c L s" and p: "payload t = payload (set_state p st s)" and inv: "pinv t qs"
  shows "env c L t"
proof -
  have "locks t = locks s" "cpus t = cpus s" using payload_eqD [OF p] by (simp_all add: set_state_upd)
  then have "holding c l t = holding c l s" "lock_free l t = lock_free l s" "cpus t c = cpus s c" for l
    by (simp_all add: holding_def lock_free_def)
  then show ?thesis using e inv by (simp add: env_def) blast
qed

lemma env_wakeup1:
  assumes e: "env c L s"
  shows "\<exists>t. wakeup1 ch s = Ok t \<and> env c L t \<and> ptab.more t = ptab.more s"
proof -
  obtain qs where inv: "pinv s qs" using e by (auto simp: env_def)
  show ?thesis
  proof (cases "\<exists>p \<in> set (qs Lsleep). p_chan (procs s p) = ch")
    case False
    then show ?thesis using wakeup1_none [OF inv, of ch] e by auto
  next
    case True
    then obtain xs p ys where q: "qs Lsleep = xs @ p # ys" "p_chan (procs s p) = ch"
      "\<forall>x \<in> set xs. p_chan (procs s x) \<noteq> ch"
      by (rule split_list_first_pred)
    obtain t where t: "wakeup1 ch s = Ok t" "pinv t (mv Lsleep (ready (p_priority (procs s p))) p qs)"
      "payload t = payload (set_state p RUNNABLE s)"
      using wakeup1_first [OF inv q(1), of ch] q(2,3) by auto
    have "ptab.more t = ptab.more s" using payload_more [OF t(3)] by (simp add: set_state_upd upd_proc_def)
    then show ?thesis using t env_procs [OF e t(3,2)] by blast
  qed
qed

lemma env_wakeup:
  assumes e: "env c L s" and p: "Lk_ptable \<notin> L"
  shows "\<exists>t. wakeup c ch s = Ok t \<and> env c L t \<and> ptab.more t = ptab.more s"
proof -
  note a = env_acquire [OF e p]
  obtain t where t: "wakeup1 ch (locked_by c Lk_ptable s) = Ok t" "env c (insert Lk_ptable L) t"
    "ptab.more t = ptab.more s"
    using env_wakeup1 [OF a(2), of ch] by auto
  note r = env_release [OF t(2), of Lk_ptable]
  show ?thesis using a(1) t r p by (simp add: wakeup_def)
qed

end
