(* ===== verification/Memory.thy ===== *)
theory Memory
  imports Prelude
begin

text \<open>
  Byte-addressed memory and the routines of \<^verbatim>\<open>src/string.c\<close> and the string part of \<^verbatim>\<open>src/ulib.c\<close>
  on it. An address is a 32-bit word and pointer arithmetic wraps around. A counted loop is recursion
  on the count; a loop that runs up to a NUL byte may not end and is a \<^verbatim>\<open>partial_function\<close>, with
  \<^const>\<open>None\<close> for not returning. The pointer that a routine returns is its first argument and is left out.
\<close>

type_synonym memory = "uint32 \<Rightarrow> uchar"

section \<open>Words in memory\<close>

text \<open>A 32-bit load and store, little-endian as on the x86.\<close>

definition ld32 :: "uint32 \<Rightarrow> memory \<Rightarrow> uint32" where
  "ld32 a m = ucast (m a) OR push_bit 8 (ucast (m (a + 1))) OR push_bit 16 (ucast (m (a + 2)))
     OR push_bit 24 (ucast (m (a + 3)))"

definition st32 :: "uint32 \<Rightarrow> uint32 \<Rightarrow> memory \<Rightarrow> memory" where
  "st32 a w m = m(a := ucast w, a + 1 := ucast (drop_bit 8 w), a + 2 := ucast (drop_bit 16 w),
     a + 3 := ucast (drop_bit 24 w))"

section \<open>string.c\<close>

fun stosb :: "uint32 \<Rightarrow> uchar \<Rightarrow> nat \<Rightarrow> memory \<Rightarrow> memory" where
  "stosb a v 0 m = m"
| "stosb a v (Suc n) m = stosb (a + 1) v n (m(a := v))"

fun stosl :: "uint32 \<Rightarrow> uint32 \<Rightarrow> nat \<Rightarrow> memory \<Rightarrow> memory" where
  "stosl a w 0 m = m"
| "stosl a w (Suc n) m = stosl (a + 4) w n (st32 a w m)"

definition memset :: "uint32 \<Rightarrow> uint32 \<Rightarrow> uint32 \<Rightarrow> memory \<Rightarrow> memory" where
  "memset dst c n m =
     (if dst mod 4 = 0 \<and> n mod 4 = 0 then
        let c = c AND 0xFF
        in stosl dst (push_bit 24 c OR push_bit 16 c OR push_bit 8 c OR c) (unat (n div 4)) m
      else stosb dst (ucast c) (unat n) m)"

fun memcmp_loop :: "uint32 \<Rightarrow> uint32 \<Rightarrow> nat \<Rightarrow> memory \<Rightarrow> int" where
  "memcmp_loop s1 s2 0 m = 0"
| "memcmp_loop s1 s2 (Suc n) m =
     (if m s1 \<noteq> m s2 then uint (m s1) - uint (m s2) else memcmp_loop (s1 + 1) (s2 + 1) n m)"

definition memcmp :: "uint32 \<Rightarrow> uint32 \<Rightarrow> uint32 \<Rightarrow> memory \<Rightarrow> int" where
  "memcmp v1 v2 n m = memcmp_loop v1 v2 (unat n) m"

fun copy_up :: "uint32 \<Rightarrow> uint32 \<Rightarrow> nat \<Rightarrow> memory \<Rightarrow> memory" where
  "copy_up d s 0 m = m"
| "copy_up d s (Suc n) m = copy_up (d + 1) (s + 1) n (m(d := m s))"

fun copy_down :: "uint32 \<Rightarrow> uint32 \<Rightarrow> nat \<Rightarrow> memory \<Rightarrow> memory" where
  "copy_down d s 0 m = m"
| "copy_down d s (Suc n) m = copy_down (d - 1) (s - 1) n (m(d - 1 := m (s - 1)))"

definition memmove :: "uint32 \<Rightarrow> uint32 \<Rightarrow> uint32 \<Rightarrow> memory \<Rightarrow> memory" where
  "memmove dst src n m =
     (if src < dst \<and> src + n > dst then copy_down (dst + n) (src + n) (unat n) m
      else copy_up dst src (unat n) m)"

definition memcpy :: "uint32 \<Rightarrow> uint32 \<Rightarrow> uint32 \<Rightarrow> memory \<Rightarrow> memory" where
  "memcpy dst src n m = memmove dst src n m"

fun strncmp_loop :: "uint32 \<Rightarrow> uint32 \<Rightarrow> nat \<Rightarrow> memory \<Rightarrow> int" where
  "strncmp_loop p q 0 m = 0"
| "strncmp_loop p q (Suc n) m =
     (if m p \<noteq> 0 \<and> m p = m q then strncmp_loop (p + 1) (q + 1) n m
      else uint (m p) - uint (m q))"

definition strncmp :: "uint32 \<Rightarrow> uint32 \<Rightarrow> uint32 \<Rightarrow> memory \<Rightarrow> int" where
  "strncmp p q n m = strncmp_loop p q (unat n) m"

fun zero_fill :: "uint32 \<Rightarrow> nat \<Rightarrow> memory \<Rightarrow> memory" where
  "zero_fill s 0 m = m"
| "zero_fill s (Suc n) m = zero_fill (s + 1) n (m(s := 0))"

fun strncpy_loop :: "uint32 \<Rightarrow> uint32 \<Rightarrow> nat \<Rightarrow> memory \<Rightarrow> memory" where
  "strncpy_loop s t 0 m = m"
| "strncpy_loop s t (Suc n) m =
     (let m' = m(s := m t) in if m t \<noteq> 0 then strncpy_loop (s + 1) (t + 1) n m' else zero_fill (s + 1) n m')"

text \<open>The count of \<^verbatim>\<open>strncpy\<close> and \<^verbatim>\<open>safestrcpy\<close> is an \<^verbatim>\<open>int\<close>.\<close>

definition strncpy :: "uint32 \<Rightarrow> uint32 \<Rightarrow> int \<Rightarrow> memory \<Rightarrow> memory" where
  "strncpy s t n m = strncpy_loop s t (nat n) m"

fun safestrcpy_loop :: "uint32 \<Rightarrow> uint32 \<Rightarrow> nat \<Rightarrow> memory \<Rightarrow> memory" where
  "safestrcpy_loop s t 0 m = m(s := 0)"
| "safestrcpy_loop s t (Suc n) m =
     (let m' = m(s := m t) in if m t \<noteq> 0 then safestrcpy_loop (s + 1) (t + 1) n m' else m'(s + 1 := 0))"

definition safestrcpy :: "uint32 \<Rightarrow> uint32 \<Rightarrow> int \<Rightarrow> memory \<Rightarrow> memory" where
  "safestrcpy s t n m = (if n \<le> 0 then m else safestrcpy_loop s t (nat n - 1) m)"

partial_function (option) strlen_loop :: "uint32 \<Rightarrow> nat \<Rightarrow> memory \<Rightarrow> nat option" where
  "strlen_loop s n m = (if m (s + of_nat n) \<noteq> 0 then strlen_loop s (n + 1) m else Some n)"

definition strlen :: "uint32 \<Rightarrow> memory \<Rightarrow> nat option" where
  "strlen s m = strlen_loop s 0 m"

section \<open>The string part of ulib.c\<close>

partial_function (option) strcpy :: "uint32 \<Rightarrow> uint32 \<Rightarrow> memory \<Rightarrow> memory option" where
  "strcpy s t m = (let m' = m(s := m t) in if m t \<noteq> 0 then strcpy (s + 1) (t + 1) m' else Some m')"

partial_function (option) strcmp :: "uint32 \<Rightarrow> uint32 \<Rightarrow> memory \<Rightarrow> int option" where
  "strcmp p q m =
     (if m p \<noteq> 0 \<and> m p = m q then strcmp (p + 1) (q + 1) m else Some (uint (m p) - uint (m q)))"

definition u_memset :: "uint32 \<Rightarrow> uint32 \<Rightarrow> uint32 \<Rightarrow> memory \<Rightarrow> memory" where
  "u_memset dst c n m = stosb dst (ucast c) (unat n) m"

partial_function (option) strchr :: "uint32 \<Rightarrow> uchar \<Rightarrow> memory \<Rightarrow> uint32 option" where
  "strchr s c m = (if m s = 0 then Some 0 else if m s = c then Some s else strchr (s + 1) c m)"

partial_function (option) skip_spaces :: "uint32 \<Rightarrow> memory \<Rightarrow> uint32 option" where
  "skip_spaces s m = (if m s = 32 then skip_spaces (s + 1) m else Some s)"

text \<open>\<open>base\<close> is 10 in \<^verbatim>\<open>atoi\<close> and 8 in \<^verbatim>\<open>atoo\<close>; the accumulator is an \<^verbatim>\<open>int\<close> that wraps.\<close>

partial_function (option) digits :: "uint32 \<Rightarrow> uint32 \<Rightarrow> uint32 \<Rightarrow> memory \<Rightarrow> uint32 option" where
  "digits base n s m =
     (if 48 \<le> m s \<and> m s < 48 + ucast base then digits base (n * base + ucast (m s) - 48) (s + 1) m else Some n)"

definition ato :: "uint32 \<Rightarrow> uint32 \<Rightarrow> memory \<Rightarrow> uint32 option" where
  "ato base s m = Option.bind (skip_spaces s m) (\<lambda>s.
     let sign = (if m s = 45 then - 1 else 1);
         s = (if m s = 43 \<or> m s = 45 then s + 1 else s)
     in Option.bind (digits base 0 s m) (\<lambda>n. Some (sign * n)))"

definition atoi :: "uint32 \<Rightarrow> memory \<Rightarrow> uint32 option" where "atoi s m = ato 10 s m"

definition atoo :: "uint32 \<Rightarrow> memory \<Rightarrow> uint32 option" where "atoo s m = ato 8 s m"

definition u_memmove :: "uint32 \<Rightarrow> uint32 \<Rightarrow> int \<Rightarrow> memory \<Rightarrow> memory" where
  "u_memmove dst src n m = copy_up dst src (nat n) m"

section \<open>Addresses and blocks\<close>

text \<open>\<open>a\<close> is in the block of \<open>n\<close> bytes at \<open>d\<close>.\<close>

definition within :: "uint32 \<Rightarrow> uint32 \<Rightarrow> nat \<Rightarrow> bool" where
  "within a d n \<longleftrightarrow> unat (a - d) < n"

lemma within_0 [simp]: "\<not> within a d 0"
  by (simp add: within_def)

lemma unat_pred: "w \<noteq> 0 \<Longrightarrow> unat ((w :: uint32) - 1) = unat w - 1"
  by (metis unat_minus_one)

lemma within_self [simp]: "within d d (Suc n)"
  by (simp add: within_def)

lemma within_Suc:
  assumes "n < 4294967296"
  shows "within a d (Suc n) \<longleftrightarrow> a = d \<or> within a (d + 1) n"
proof (cases "a = d")
  case False
  then have "unat (a - d - 1) = unat (a - d) - 1" "0 < unat (a - d)"
    by (simp_all add: unat_pred unat_gt_0)
  then show ?thesis using False by (auto simp: within_def diff_diff_eq algebra_simps)
qed (use assms in \<open>simp add: within_def\<close>)

lemma unat_m1: "unat (- 1 :: uint32) = 4294967295"
  by (simp add: unsigned_minus_1_eq_mask mask_eq_exp_minus_1)

lemma not_within_next: "n < 4294967296 \<Longrightarrow> \<not> within d (d + 1) n"
  by (simp add: within_def unat_m1)

lemma within_last:
  assumes "n < 4294967296"
  shows "within a d (Suc n) \<longleftrightarrow> a = d + of_nat n \<or> within a d n"
proof -
  have "unat (a - d) = n \<longleftrightarrow> a = d + of_nat n"
  proof
    assume "unat (a - d) = n"
    then have "of_nat n = a - d" by auto
    then show "a = d + of_nat n" by simp
  next
    assume "a = d + of_nat n"
    then show "unat (a - d) = n" using assms by (simp add: unat_of_nat)
  qed
  then show ?thesis by (auto simp: within_def less_Suc_eq)
qed

lemma stosb_eq: "n \<le> 4294967296 \<Longrightarrow> stosb d v n m = (\<lambda>a. if within a d n then v else m a)"
proof (induction n arbitrary: d m)
  case (Suc n)
  then have n: "n < 4294967296" by linarith
  then have "stosb (d + 1) v n (m(d := v)) = (\<lambda>a. if within a (d + 1) n then v else (m(d := v)) a)"
    by (intro Suc.IH) linarith
  then show ?case using within_Suc [OF n, of _ d] not_within_next [OF n, of d] by (simp add: fun_eq_iff)
qed simp

lemma zero_fill_stosb: "zero_fill s n m = stosb s 0 n m"
  by (induction n arbitrary: s m) simp_all

text \<open>A forward copy is right where the destination does not start inside the source.\<close>

lemma copy_up_eq:
  assumes "n \<le> 4294967296" and "d = s \<or> n \<le> unat (d - s)"
  shows "copy_up d s n m = (\<lambda>a. if within a d n then m (s + (a - d)) else m a)"
  using assms
proof (induction n arbitrary: d s m)
  case (Suc n)
  have n: "n < 4294967296" using Suc.prems(1) by linarith
  let ?m = "m(d := m s)"
  have ih: "copy_up (d + 1) (s + 1) n ?m = (\<lambda>a. if within a (d + 1) n then ?m (s + 1 + (a - (d + 1))) else ?m a)"
    using Suc.prems(2) n by (intro Suc.IH) auto
  have e: "s + 1 + (a - (d + 1)) = s + (a - d)" for a by simp
  have clash: "?m (s + (a - d)) = m (s + (a - d))" if "within a (d + 1) n" for a
  proof (cases "d = s")
    case False
    have ne: "a \<noteq> d" using that not_within_next [OF n, of d] by auto
    then have "within a d (Suc n)" using that within_Suc [OF n] by blast
    then have "unat (a - d) < Suc n" by (simp add: within_def)
    moreover have "Suc n \<le> unat (d - s)" using Suc.prems(2) False by simp
    ultimately have "a - d \<noteq> d - s" by auto
    then show ?thesis by (auto simp: algebra_simps)
  qed auto
  show ?case
    unfolding copy_up.simps ih e using within_Suc [OF n, of _ d] clash by (auto simp: fun_eq_iff)
qed simp

lemma copy_down_eq:
  assumes "n \<le> 4294967296" and "d = s \<or> n \<le> unat (s - d)"
  shows "copy_down (d + of_nat n) (s + of_nat n) n m = (\<lambda>a. if within a d n then m (s + (a - d)) else m a)"
  using assms
proof (induction n arbitrary: m)
  case (Suc n)
  have n: "n < 4294967296" using Suc.prems(1) by linarith
  let ?m = "m(d + of_nat n := m (s + of_nat n))"
  have ih: "copy_down (d + of_nat n) (s + of_nat n) n ?m = (\<lambda>a. if within a d n then ?m (s + (a - d)) else ?m a)"
    using Suc.prems(2) n by (intro Suc.IH) auto
  have clash: "?m (s + (a - d)) = m (s + (a - d))" if "within a d n" for a
  proof (cases "d = s")
    case False
    have k: "unat (a - d) < n" using that by (simp add: within_def)
    have "s - d \<noteq> of_nat n - (a - d)"
    proof
      assume e: "s - d = of_nat n - (a - d)"
      have "a - d \<le> of_nat n" using k n by (simp add: word_le_nat_alt unat_of_nat)
      then have "unat (of_nat n - (a - d)) = n - unat (a - d)"
        using n by (simp only: unat_diff_no_wrap) (simp add: unat_of_nat)
      then have "unat (s - d) = n - unat (a - d)" unfolding e .
      then show False using Suc.prems(2) False by simp
    qed
    then show ?thesis by (auto simp: algebra_simps)
  next
    case True
    have "a \<noteq> d + of_nat n" using that n by (auto simp: within_def unat_of_nat)
    then show ?thesis using True by simp
  qed
  have 1: "d + of_nat (Suc n) - 1 = d + of_nat n" "s + of_nat (Suc n) - 1 = s + of_nat n" by simp_all
  show ?case
    unfolding copy_down.simps 1 ih using within_last [OF n, of _ d] clash by (auto simp: fun_eq_iff)
qed simp


section \<open>Properties of the copying routines\<close>

lemma memmove_eq:
  assumes "unat src + unat n < 4294967296" and "unat dst + unat n < 4294967296"
  shows "memmove dst src n m = (\<lambda>a. if within a dst (unat n) then m (src + (a - dst)) else m a)"
proof (cases "src < dst \<and> src + n > dst")
  case True
  have lt: "unat src < unat dst" using True by (simp add: word_less_nat_alt)
  have "unat (src - dst) = 4294967296 + unat src - unat dst"
    using True by (intro unat_diff_wrap) simp
  then have "unat n \<le> unat (src - dst)" using assms(2) lt by linarith
  then have "copy_down (dst + of_nat (unat n)) (src + of_nat (unat n)) (unat n) m
      = (\<lambda>a. if within a dst (unat n) then m (src + (a - dst)) else m a)"
    by (intro copy_down_eq) (use unat_lt32 [of n] in simp_all)
  then show ?thesis using True by (simp add: memmove_def)
next
  case False
  have "dst = src \<or> unat n \<le> unat (dst - src)"
  proof (cases "src < dst")
    case lt: True
    then have "\<not> src + n > dst" using False by simp
    moreover have "unat (src + n) = unat src + unat n" using assms(1) by (rule unat_add_no_wrap)
    ultimately have "unat src + unat n \<le> unat dst" by (simp add: word_less_nat_alt not_less)
    moreover have "unat (dst - src) = unat dst - unat src" using lt by (intro unat_diff_no_wrap) simp
    ultimately show ?thesis by linarith
  next
    case ge: False
    show ?thesis
    proof (cases "dst = src")
      case ne: False
      then have "dst < src" using ge by simp
      then have "unat (dst - src) = 4294967296 + unat dst - unat src" by (intro unat_diff_wrap) simp
      then show ?thesis using assms(1) by linarith
    qed simp
  qed
  then have "copy_up dst src (unat n) m = (\<lambda>a. if within a dst (unat n) then m (src + (a - dst)) else m a)"
    by (intro copy_up_eq) (use unat_lt32 [of n] in simp_all)
  then show ?thesis unfolding memmove_def if_not_P [OF False] .
qed


lemma stosb_add: "stosb d v (k + n) m = stosb (d + of_nat k) v n (stosb d v k m)"
  by (induction k arbitrary: d m) (simp_all add: add.assoc)

lemma st32_rep:
  fixes c :: uint32
  defines "w \<equiv> push_bit 24 (c AND 0xFF) OR push_bit 16 (c AND 0xFF) OR push_bit 8 (c AND 0xFF) OR (c AND 0xFF)"
  shows "st32 a w m = stosb a (ucast c) 4 m"
proof -
  have m: "(0xFF :: uint32) = mask 8" by (simp add: mask_eq_exp_minus_1)
  have b: "(ucast w :: uchar) = ucast c" "(ucast (drop_bit 8 w) :: uchar) = ucast c"
    "(ucast (drop_bit 16 w) :: uchar) = ucast c" "(ucast (drop_bit 24 w) :: uchar) = ucast c"
    unfolding w_def m by (rule bit_word_eqI; auto simp: bit_simps)+
  show ?thesis unfolding st32_def b by (simp add: numeral_eq_Suc add.assoc)
qed

lemma stosl_stosb:
  assumes "\<And>a m. st32 a w m = stosb a v 4 m"
  shows "stosl d w n m = stosb d v (4 * n) m"
proof (induction n arbitrary: d m)
  case (Suc n)
  have "stosb d v (4 + 4 * n) m = stosb (d + of_nat 4) v (4 * n) (stosb d v 4 m)" by (rule stosb_add)
  then show ?case using Suc assms by simp
qed simp

lemma memset_eq: "memset d c n m = (\<lambda>a. if within a d (unat n) then ucast c else m a)"
proof (cases "d mod 4 = 0 \<and> n mod 4 = 0")
  case True
  have "unat (n div 4) = unat n div 4" "unat (n mod 4) = unat n mod 4" by (simp_all add: unat_div unat_mod)
  then have "4 * unat (n div 4) = unat n" using True by auto
  then have "memset d c n m = stosb d (ucast c) (unat n) m"
    unfolding memset_def Let_def if_P [OF True] stosl_stosb [OF st32_rep] by (rule arg_cong)
  then show ?thesis using stosb_eq [of "unat n" d "ucast c" m] unat_lt32 [of n] by simp
next
  case False
  then show ?thesis
    unfolding memset_def if_not_P [OF False] using unat_lt32 [of n] by (intro stosb_eq) simp
qed

section \<open>C strings\<close>

fun cstr :: "uint32 \<Rightarrow> uchar list \<Rightarrow> memory \<Rightarrow> bool" where
  "cstr s [] m \<longleftrightarrow> m s = 0"
| "cstr s (x # xs) m \<longleftrightarrow> m s = x \<and> x \<noteq> 0 \<and> cstr (s + 1) xs m"

lemma cstr_frame:
  "length xs < 4294967296 \<Longrightarrow> (\<And>a. within a s (Suc (length xs)) \<Longrightarrow> m' a = m a) \<Longrightarrow> cstr s xs m' = cstr s xs m"
proof (induction xs arbitrary: s)
  case (Cons x xs)
  have n: "Suc (length xs) < 4294967296" using Cons.prems(1) by simp
  have w: "within a s (Suc (Suc (length xs)))" if "a = s \<or> within a (s + 1) (Suc (length xs))" for a
    using within_Suc [OF n] that by blast
  then have "cstr (s + 1) xs m' = cstr (s + 1) xs m"
    using Cons.prems n by (intro Cons.IH) auto
  moreover have "m' s = m s" using w Cons.prems(2) by simp
  ultimately show ?case by simp
qed (simp add: within_def)

lemma strlen_loop_cstr: "cstr (s + of_nat n) xs m \<Longrightarrow> strlen_loop s n m = Some (n + length xs)"
proof (induction xs arbitrary: n)
  case Nil
  then show ?case by (subst strlen_loop.simps) simp
next
  case (Cons x xs)
  have "strlen_loop s (n + 1) m = Some (n + 1 + length xs)"
    using Cons.prems by (intro Cons.IH) (simp add: ac_simps)
  then show ?case using Cons.prems by (subst strlen_loop.simps) simp
qed

lemma strlen_cstr: "cstr s xs m \<Longrightarrow> strlen s m = Some (length xs)"
  using strlen_loop_cstr [of s 0 xs m] by (simp add: strlen_def)

lemma byte_uint_eq: "uint (a :: uchar) = uint b \<longleftrightarrow> a = b" "uint (a :: uchar) = 0 \<longleftrightarrow> a = 0"
  by (simp_all add: word_uint_eq_iff)

lemma strncmp_loop_cstr:
  "cstr p xs m \<Longrightarrow> cstr q ys m \<Longrightarrow> strncmp_loop p q n m = 0 \<longleftrightarrow> take n xs = take n ys"
proof (induction n arbitrary: p q xs ys)
  case (Suc n)
  then show ?case by (cases xs; cases ys) (auto simp: byte_uint_eq)
qed simp

lemma strcmp_cstr:
  "cstr p xs m \<Longrightarrow> cstr q ys m \<Longrightarrow> \<exists>r. strcmp p q m = Some r \<and> (r = 0 \<longleftrightarrow> xs = ys)"
proof (induction xs arbitrary: p q ys)
  case Nil
  then show ?case by (subst strcmp.simps) (cases ys; auto simp: byte_uint_eq)
next
  case (Cons x xs)
  show ?case
  proof (cases ys)
    case Nil
    then show ?thesis using Cons.prems by (subst strcmp.simps) (auto simp: byte_uint_eq)
  next
    case ys: (Cons y zs)
    show ?thesis
    proof (cases "x = y")
      case True
      then obtain r where "strcmp (p + 1) (q + 1) m = Some r" "r = 0 \<longleftrightarrow> xs = zs"
        using Cons ys by fastforce
      then show ?thesis using True Cons.prems ys by (subst strcmp.simps) (auto simp: byte_uint_eq)
    next
      case False
      then show ?thesis using Cons.prems ys by (subst strcmp.simps) (auto simp: byte_uint_eq)
    qed
  qed
qed


lemma safestrcpy_loop_cstr:
  assumes "cstr t xs m" and "k < 4294967295" and "length xs < 4294967295"
    and "\<And>a. within a t (Suc (length xs)) \<Longrightarrow> \<not> within a s (Suc k)"
  shows "cstr s (take k xs) (safestrcpy_loop s t k m) \<and>
    (\<forall>a. \<not> within a s (Suc k) \<longrightarrow> safestrcpy_loop s t k m a = m a)"
  using assms
proof (induction k arbitrary: s t xs m)
  case 0
  have "a \<noteq> s" if "\<not> within a s (Suc 0)" for a using that by auto
  then show ?case by auto
next
  case (Suc k)
  have k: "Suc k < 4294967296" "k < 4294967296" using Suc.prems(2) by linarith+
  have s1: "s \<noteq> s + 1" by simp
  show ?case
  proof (cases xs)
    case Nil
    have "within (s + 1) s (Suc (Suc k))"
      using within_Suc [OF k(1), of "s + 1" s] by simp
    then show ?thesis using Suc.prems(1) Nil s1 by (auto simp: Let_def)
  next
    case (Cons x ys)
    let ?m = "m(s := x)"
    have n: "Suc (length ys) < 4294967296" using Suc.prems(3) Cons by simp
    have ap: "\<not> within a s (Suc (Suc k))" if "a = t \<or> within a (t + 1) (Suc (length ys))" for a
      using Suc.prems(4) [of a] within_Suc [OF n, of a t] that Cons by auto
    have "cstr (t + 1) ys ?m = cstr (t + 1) ys m"
      using n ap [of s] by (intro cstr_frame) auto
    then have c: "cstr (t + 1) ys ?m" using Suc.prems(1) Cons by simp
    have sep: "\<not> within a (s + 1) (Suc k)" if "within a (t + 1) (Suc (length ys))" for a
      using ap [of a] that within_Suc [OF k(1), of a s] by blast
    have len: "k < 4294967295" "length ys < 4294967295" using Suc.prems(2,3) Cons by simp_all
    have ih: "cstr (s + 1) (take k ys) (safestrcpy_loop (s + 1) (t + 1) k ?m)"
      "\<And>a. \<not> within a (s + 1) (Suc k) \<Longrightarrow> safestrcpy_loop (s + 1) (t + 1) k ?m a = ?m a"
      using Suc.IH [OF c len sep] by blast+
    have ne: "\<not> within s (s + 1) (Suc k)" by (rule not_within_next [OF k(1)])
    have "safestrcpy_loop s t (Suc k) m = safestrcpy_loop (s + 1) (t + 1) k ?m"
      using Suc.prems(1) Cons by simp
    moreover have "safestrcpy_loop (s + 1) (t + 1) k ?m s = x" using ih(2) [OF ne] by simp
    moreover have "safestrcpy_loop (s + 1) (t + 1) k ?m a = m a" if "\<not> within a s (Suc (Suc k))" for a
      using that ih(2) [of a] within_Suc [OF k(1), of a s] by simp
    ultimately show ?thesis using ih(1) Suc.prems(1) Cons by simp
  qed
qed


section \<open>Loads after stores\<close>

lemma word_of_bytes:
  fixes w :: uint32
  shows "ucast (ucast w :: uchar) OR push_bit 8 (ucast (ucast (drop_bit 8 w) :: uchar))
      OR push_bit 16 (ucast (ucast (drop_bit 16 w) :: uchar)) OR push_bit 24 (ucast (ucast (drop_bit 24 w) :: uchar)) = w"
  (is "?w = w")
proof (rule bit_word_eqI)
  fix n assume "n < LENGTH(32)"
  then consider "n < 8" | "8 \<le> n" "n < 16" | "16 \<le> n" "n < 24" | "24 \<le> n" "n < 32" by force
  then show "bit ?w n \<longleftrightarrow> bit w n" by cases (auto simp: bit_simps)
qed

lemma ld32_st32 [simp]: "ld32 a (st32 a w m) = w"
proof -
  have "a + 1 \<noteq> a" "a + 2 \<noteq> a" "a + 3 \<noteq> a" "a + 2 \<noteq> a + 1" "a + 3 \<noteq> a + 1" "a + 3 \<noteq> a + 2" by simp_all
  then show ?thesis using word_of_bytes [of w] by (simp add: ld32_def st32_def)
qed

lemma st32_outside: "\<not> within b a 4 \<Longrightarrow> st32 a w m b = m b"
proof -
  assume "\<not> within b a 4"
  then have "b \<noteq> a" "b \<noteq> a + 1" "b \<noteq> a + 2" "b \<noteq> a + 3" by (auto simp: within_def)
  then show ?thesis by (simp add: st32_def)
qed

lemma ld32_cong: "(\<And>b. within b a 4 \<Longrightarrow> m' b = m b) \<Longrightarrow> ld32 a m' = ld32 a m"
  by (simp add: ld32_def within_def)

lemma ld32_st32_other:
  assumes "\<And>c. within c b 4 \<Longrightarrow> \<not> within c a 4"
  shows "ld32 b (st32 a w m) = ld32 b m"
  by (rule ld32_cong) (use assms st32_outside in blast)

section \<open>Properties\<close>

text \<open>C31: \<^verbatim>\<open>memmove\<close> copies as if through a buffer, whether or not source and destination overlap, and
  writes nothing outside the destination; the blocks must not reach the end of the address space.\<close>

theorem memmove_correct:
  assumes "unat src + unat n < 4294967296" and "unat dst + unat n < 4294967296"
  shows "memmove dst src n m a = (if within a dst (unat n) then m (src + (a - dst)) else m a)"
  by (simp add: memmove_eq [OF assms])

theorem memmove_correct_witness:
  "memmove 0x1001 0x1000 3 (\<lambda>a. if a = 0x1000 then 65 else if a = 0x1001 then 66 else 0) 0x1002 = 66"
  using memmove_correct [of "0x1000" 3 "0x1001" "\<lambda>a. if a = 0x1000 then 65 else if a = 0x1001 then 66 else 0" "0x1002"]
  by (simp add: within_def)

text \<open>\<^verbatim>\<open>memset\<close>, with its word-at-a-time path for aligned blocks, fills exactly the given block with
  the low byte of its argument.\<close>

theorem memset_correct: "memset d c n m a = (if within a d (unat n) then ucast c else m a)"
  by (simp add: memset_eq)

text \<open>\<^verbatim>\<open>safestrcpy\<close> leaves a terminated string in the destination: the source, cut to the size of the
  buffer less one; it writes nothing outside the \<open>n\<close> bytes of the destination.\<close>

theorem safestrcpy_correct:
  assumes "cstr t xs m" and "0 < n" and "n < 4294967296" and "length xs < 4294967295"
    and "\<forall>a. within a t (Suc (length xs)) \<longrightarrow> \<not> within a s (nat n)"
  shows "cstr s (take (nat n - 1) xs) (safestrcpy s t n m) \<and>
    (\<forall>a. \<not> within a s (nat n) \<longrightarrow> safestrcpy s t n m a = m a)"
proof -
  have "Suc (nat n - 1) = nat n" "nat n - 1 < 4294967295" using assms(2,3) by linarith+
  then show ?thesis
    using safestrcpy_loop_cstr [OF assms(1) _ assms(4), of "nat n - 1" s] assms(2,5) by (simp add: safestrcpy_def)
qed

theorem safestrcpy_correct_witness:
  "cstr 0x2000 [105] (safestrcpy 0x2000 0x1000 2 (\<lambda>a. if a = 0x1000 then 105 else if a = 0x1001 then 110 else 0))"
proof -
  let ?m = "\<lambda>a :: uint32. if a = 0x1000 then 105 else if a = 0x1001 then 110 else 0 :: uchar"
  have "\<not> within a 0x2000 (nat 2)" if "within a 0x1000 (Suc (length [105, 110 :: uchar]))" for a
  proof -
    have "unat (a - 0x1000) \<in> {0, 1, 2}" using that by (auto simp: within_def)
    then have "a - 0x1000 \<in> {0, 1, 2}" by (auto simp: word_unat_eq_iff)
    then have "a \<in> {0x1000, 0x1001, 0x1002}" by (auto simp: algebra_simps)
    then show ?thesis by (auto simp: within_def)
  qed
  then show ?thesis
    using safestrcpy_correct [of "0x1000" "[105, 110]" ?m 2 "0x2000"] by simp
qed

end
