(* ===== verification/Kalloc.thy ===== *)
theory Kalloc
  imports Samples Memory
begin

text \<open>
  The physical page allocator, \<^verbatim>\<open>src/kalloc.c\<close>. The free list runs through the free pages themselves: the
  first word of a free page is the address of the next one. The state adds the memory, the two fields of
  \<^verbatim>\<open>kmem\<close> and the linker symbols \<^verbatim>\<open>end\<close> and \<^verbatim>\<open>data\<close> (\<open>kimage_end\<close>, \<open>kdata\<close>) to the kernel state.
\<close>

section \<open>Definitions\<close>

definition PGSIZE :: uint32 where "PGSIZE = 4096"
definition PHYSTOP :: uint32 where "PHYSTOP = 0xE000000"

definition PGROUNDUP :: "uint32 \<Rightarrow> uint32" where
  "PGROUNDUP sz = (sz + PGSIZE - 1) AND NOT (PGSIZE - 1)"

definition PGROUNDDOWN :: "uint32 \<Rightarrow> uint32" where
  "PGROUNDDOWN a = a AND NOT (PGSIZE - 1)"

record kmem = ptab +
  mem :: memory
  use_lock :: bool
  freelist :: uint32
  kimage_end :: uint32
  kdata :: uint32

definition kmem_acquire :: "nat \<Rightarrow> 'a kmem_scheme \<Rightarrow> 'a kmem_scheme outcome" where
  "kmem_acquire c s = (if use_lock s then acquire c Lk_kmem s else Ok s)"

definition kmem_release :: "nat \<Rightarrow> 'a kmem_scheme \<Rightarrow> 'a kmem_scheme outcome" where
  "kmem_release c s = (if use_lock s then release c Lk_kmem s else Ok s)"

definition kfree :: "nat \<Rightarrow> uint32 \<Rightarrow> 'a kmem_scheme \<Rightarrow> 'a kmem_scheme outcome" where
  "kfree c v s =
     (if v mod PGSIZE \<noteq> 0 \<or> v < kimage_end s \<or> PHYSTOP \<le> v2p v then Panic ''kfree''
      else
        let s = s\<lparr>mem := memset v 1 PGSIZE (mem s)\<rparr>
        in bnd (kmem_acquire c s) (\<lambda>s.
           kmem_release c (s\<lparr>mem := st32 v (freelist s) (mem s), freelist := v\<rparr>)))"

definition kalloc :: "nat \<Rightarrow> 'a kmem_scheme \<Rightarrow> (uint32 \<times> 'a kmem_scheme) outcome" where
  "kalloc c s =
     bnd (kmem_acquire c s) (\<lambda>s.
     let r = freelist s;
         s = (if r \<noteq> 0 then s\<lparr>freelist := ld32 r (mem s)\<rparr> else s)
     in bnd (kmem_release c s) (\<lambda>s. Ok (r, s)))"

text \<open>The loop of \<^verbatim>\<open>freerange\<close>: the address space has \<open>2 ^ 20\<close> pages, and \<^verbatim>\<open>kfree\<close> panics on the first
  one past \<^verbatim>\<open>PHYSTOP\<close>, so this bound is never reached.\<close>

fun freerange_loop :: "nat \<Rightarrow> nat \<Rightarrow> uint32 \<Rightarrow> uint32 \<Rightarrow> 'a kmem_scheme \<Rightarrow> 'a kmem_scheme outcome" where
  "freerange_loop 0 c p vend s = Spin"
| "freerange_loop (Suc n) c p vend s =
     (if p + PGSIZE \<le> vend then bnd (kfree c p s) (freerange_loop n c (p + PGSIZE) vend) else Ok s)"

definition freerange :: "nat \<Rightarrow> uint32 \<Rightarrow> uint32 \<Rightarrow> 'a kmem_scheme \<Rightarrow> 'a kmem_scheme outcome" where
  "freerange c vstart vend s = freerange_loop 1048576 c (PGROUNDUP vstart) vend s"

definition kinit1 :: "nat \<Rightarrow> uint32 \<Rightarrow> uint32 \<Rightarrow> 'a kmem_scheme \<Rightarrow> 'a kmem_scheme outcome" where
  "kinit1 c vstart vend s = freerange c vstart vend ((initlock Lk_kmem ''kmem'' s)\<lparr>use_lock := False\<rparr>)"

definition kinit2 :: "nat \<Rightarrow> uint32 \<Rightarrow> uint32 \<Rightarrow> 'a kmem_scheme \<Rightarrow> 'a kmem_scheme outcome" where
  "kinit2 c vstart vend s = bnd (freerange c vstart vend s) (\<lambda>s. Ok (s\<lparr>use_lock := True\<rparr>))"

section \<open>The free list\<close>

fun klist :: "uint32 \<Rightarrow> uint32 list \<Rightarrow> memory \<Rightarrow> bool" where
  "klist r [] m \<longleftrightarrow> r = 0"
| "klist r (p # ps) m \<longleftrightarrow> r = p \<and> p \<noteq> 0 \<and> klist (ld32 p m) ps m"

text \<open>A page frame that the allocator accepts.\<close>

definition page_ok :: "uint32 \<Rightarrow> uint32 \<Rightarrow> bool" where
  "page_ok e v \<longleftrightarrow> v mod PGSIZE = 0 \<and> e \<le> v \<and> v2p v < PHYSTOP \<and> v \<noteq> 0"

definition kinv :: "'a kmem_scheme \<Rightarrow> uint32 list \<Rightarrow> bool" where
  "kinv s ps \<longleftrightarrow> klist (freelist s) ps (mem s) \<and> distinct ps \<and> (\<forall>p \<in> set ps. page_ok (kimage_end s) p)"

text \<open>The CPU may take the allocator's lock.\<close>

definition klockable :: "nat \<Rightarrow> 'a kmem_scheme \<Rightarrow> bool" where
  "klockable c s \<longleftrightarrow> irq_ok (cpus s c) \<and> lock_free Lk_kmem s"

text \<open>A lock taken and released leaves one trace: the saved interrupt flag of the CPU.\<close>

definition cycled :: "cpu \<Rightarrow> cpu" where
  "cycled r = (if c_ncli r = 0 then r\<lparr>c_intena := c_if r\<rparr> else r)"

definition kcycle :: "nat \<Rightarrow> 'a kmem_scheme \<Rightarrow> 'a kmem_scheme" where
  "kcycle c s = (if use_lock s then upd_cpu c cycled s else s)"

lemma popped_pushed_cycled: "irq_ok r \<Longrightarrow> popped (pushed r) = cycled r"
  by (cases r) (auto simp: popped_def pushed_def cycled_def irq_ok_def Let_def)

lemma kmem_sandwich:
  assumes k: "klockable c s"
    and f: "\<And>u. use_lock (f u) = use_lock u" "\<And>u. locks (f u) = locks u" "\<And>u. cpus (f u) = cpus u"
      "\<And>u l k. f (u\<lparr>locks := l, cpus := k\<rparr>) = (f u)\<lparr>locks := l, cpus := k\<rparr>"
  shows "bnd (kmem_acquire c s) (\<lambda>u. kmem_release c (f u)) = Ok (f (kcycle c s))"
proof (cases "use_lock s")
  case True
  have lf: "lock_free Lk_kmem s" and irq: "irq_ok (cpus s c)" using k by (simp_all add: klockable_def)
  let ?u = "locked_by c Lk_kmem s"
  have ul: "use_lock ?u" using True by (simp add: locked_by_def)
  have rel: "release c Lk_kmem (f ?u) = Ok (unlocked_by c Lk_kmem (f ?u))"
    by (rule release_held) (use irq in \<open>simp_all add: holding_def f locked_by_def pushed_def irq_ok_def\<close>)
  have lk: "(locks s)(Lk_kmem := (locks s Lk_kmem)\<lparr>lk_cpu := None, locked := 0\<rparr>) = locks s"
    using lf by (auto simp: lock_free_def fun_eq_iff)
  have "unlocked_by c Lk_kmem (f ?u) = (f s)\<lparr>locks := locks s, cpus := (cpus s)(c := cycled (cpus s c))\<rparr>"
    using lk popped_pushed_cycled [OF irq] by (simp add: unlocked_by_def f(2-4) locked_by_def)
  also have "\<dots> = f (kcycle c s)"
    using True f(4) [where u = s and l = "locks s" and k = "(cpus s)(c := cycled (cpus s c))"] by (simp add: kcycle_def upd_cpu_def)
  finally show ?thesis
    using True acquire_free [OF lf] rel ul f(1) by (simp add: kmem_acquire_def kmem_release_def)
qed (simp add: kmem_acquire_def kmem_release_def kcycle_def f(1))


lemma kmem_sandwich_res:
  assumes k: "klockable c s"
    and f: "\<And>u. use_lock (f u) = use_lock u" "\<And>u. locks (f u) = locks u" "\<And>u. cpus (f u) = cpus u"
      "\<And>u l k. f (u\<lparr>locks := l, cpus := k\<rparr>) = (f u)\<lparr>locks := l, cpus := k\<rparr>"
    and g: "\<And>u l k. g (u\<lparr>locks := l, cpus := k\<rparr>) = g u"
  shows "bnd (kmem_acquire c s) (\<lambda>u. bnd (kmem_release c (f u)) (\<lambda>s. Ok (g u, s))) = Ok (g s, f (kcycle c s))"
proof -
  have "bnd (kmem_acquire c s) (\<lambda>u. bnd (kmem_release c (f u)) (\<lambda>s. Ok (g u, s)))
    = bnd (bnd (kmem_acquire c s) (\<lambda>u. kmem_release c (f u))) (\<lambda>t. Ok (g s, t))"
  proof (cases "use_lock s")
    case True
    have "acquire c Lk_kmem s = Ok (locked_by c Lk_kmem s)"
      using k by (intro acquire_free) (simp add: klockable_def)
    moreover have "g (locked_by c Lk_kmem s) = g s" by (simp add: locked_by_def g)
    ultimately show ?thesis using True by (simp add: kmem_acquire_def)
  qed (simp add: kmem_acquire_def)
  then show ?thesis by (simp add: kmem_sandwich [OF k f])
qed

lemma kcycle_sel [simp]:
  "mem (kcycle c s) = mem s" "use_lock (kcycle c s) = use_lock s" "freelist (kcycle c s) = freelist s"
  "kimage_end (kcycle c s) = kimage_end s" "locks (kcycle c s) = locks s" "procs (kcycle c s) = procs s"
  "kcycle c (s\<lparr>mem := m\<rparr>) = (kcycle c s)\<lparr>mem := m\<rparr>"
  by (simp_all add: kcycle_def upd_cpu_def)

lemma kalloc_eq:
  assumes "klockable c s"
  shows "kalloc c s = Ok (freelist s,
    (if freelist s \<noteq> 0 then (kcycle c s)\<lparr>freelist := ld32 (freelist s) (mem s)\<rparr> else kcycle c s))"
proof -
  let ?f = "\<lambda>u. if freelist u \<noteq> 0 then u\<lparr>freelist := ld32 (freelist u) (mem u)\<rparr> else u"
  have "kalloc c s = bnd (kmem_acquire c s) (\<lambda>u. bnd (kmem_release c (?f u)) (\<lambda>s. Ok (freelist u, s)))"
    by (simp add: kalloc_def Let_def)
  also have "\<dots> = Ok (freelist s, ?f (kcycle c s))"
    by (rule kmem_sandwich_res [OF assms]) auto
  finally show ?thesis by simp
qed

lemma kfree_eq:
  assumes "klockable c s" and "page_ok (kimage_end s) v"
  shows "kfree c v s = Ok ((kcycle c s)\<lparr>mem := st32 v (freelist s) (memset v 1 PGSIZE (mem s)), freelist := v\<rparr>)"
proof -
  let ?s = "s\<lparr>mem := memset v 1 PGSIZE (mem s)\<rparr>"
  let ?f = "\<lambda>u. u\<lparr>mem := st32 v (freelist u) (mem u), freelist := v\<rparr>"
  have "klockable c ?s" using assms(1) by (simp add: klockable_def lock_free_def)
  then have "bnd (kmem_acquire c ?s) (\<lambda>u. kmem_release c (?f u)) = Ok (?f (kcycle c ?s))"
    by (rule kmem_sandwich) auto
  then show ?thesis using assms(2) by (simp add: kfree_def page_ok_def not_le not_less Let_def)
qed

lemma klockable_cycle: "klockable c s \<Longrightarrow> klockable c (kcycle c s)"
  by (auto simp: klockable_def kcycle_def lock_free_def cycled_def irq_ok_def upd_cpu_def)

lemma klockable_upd [simp]: "klockable c (s\<lparr>mem := m\<rparr>) = klockable c s" "klockable c (s\<lparr>freelist := r\<rparr>) = klockable c s"
  by (simp_all add: klockable_def lock_free_def)

text \<open>An address is in at most one page.\<close>

lemma page_of:
  assumes "p mod PGSIZE = 0" and "within a p 4096"
  shows "unat p = unat a - unat a mod 4096"
proof -
  have k: "unat (a - p) < 4096" using assms(2) by (simp add: within_def)
  have "unat p mod 4096 = unat (p mod 4096)" by (simp add: unat_mod)
  then have m: "unat p mod 4096 = 0" using assms(1) by (simp add: PGSIZE_def)
  then obtain q where q: "unat p = 4096 * q" by auto
  then have "q < 1048576" using unat_lt32 [of p] by linarith
  then have "unat p + unat (a - p) < 4294967296" using k q by linarith
  then have "unat (p + (a - p)) = unat p + unat (a - p)" by (rule unat_add_no_wrap)
  then have "unat a = unat p + unat (a - p)" by simp
  moreover have "(unat p + unat (a - p)) mod 4096 = unat (a - p)" using q k by simp
  ultimately show ?thesis by simp
qed

lemma page_disjoint:
  assumes "p mod PGSIZE = 0" and "q mod PGSIZE = 0" and "p \<noteq> q" and "within a p 4096"
  shows "\<not> within a q 4096"
  using page_of [OF assms(1,4)] page_of [OF assms(2), of a] assms(3) by (metis word_unat_eq_iff)

lemma within_mono: "within a d n \<Longrightarrow> n \<le> k \<Longrightarrow> within a d k"
  by (simp add: within_def)

lemma ld32_page_frame:
  assumes "p mod PGSIZE = 0" and "q mod PGSIZE = 0" and "p \<noteq> q"
    and "\<And>a. \<not> within a q 4096 \<Longrightarrow> m' a = m a"
  shows "ld32 p m' = ld32 p m"
proof (rule ld32_cong)
  fix b assume "within b p 4"
  then have "within b p 4096" by (rule within_mono) simp
  then show "m' b = m b" using assms(4) page_disjoint [OF assms(1-3)] by blast
qed

lemma klist_frame:
  assumes "\<forall>p \<in> set ps. p mod PGSIZE = 0 \<and> p \<noteq> q" and "q mod PGSIZE = 0"
    and "\<And>a. \<not> within a q 4096 \<Longrightarrow> m' a = m a"
  shows "klist r ps m' = klist r ps m"
  using assms(1)
proof (induction ps arbitrary: r)
  case (Cons p ps)
  then have "ld32 p m' = ld32 p m" using assms(2,3) by (intro ld32_page_frame) auto
  then show ?case using Cons by simp
qed simp

lemma page_ok_mod: "page_ok e v \<Longrightarrow> v mod PGSIZE = 0"
  by (simp add: page_ok_def)

text \<open>What \<^verbatim>\<open>kfree\<close> leaves in the page: the link, then junk.\<close>

lemma kfree_mem:
  assumes "page_ok (kimage_end s) v"
  shows "\<not> within a v 4096 \<Longrightarrow> st32 v r (memset v 1 PGSIZE m) a = m a"
    and "within a v 4096 \<Longrightarrow> \<not> within a v 4 \<Longrightarrow> st32 v r (memset v 1 PGSIZE m) a = 1"
proof -
  show "st32 v r (memset v 1 PGSIZE m) a = m a" if "\<not> within a v 4096"
  proof -
    have "\<not> within a v 4" using that by (auto simp: within_def)
    then show ?thesis using that by (simp add: st32_outside memset_eq PGSIZE_def)
  qed
  show "st32 v r (memset v 1 PGSIZE m) a = 1" if "within a v 4096" "\<not> within a v 4"
    using that by (simp add: st32_outside memset_eq PGSIZE_def)
qed

lemma kfree_ok:
  assumes inv: "kinv s ps" and lk: "klockable c s" and v: "page_ok (kimage_end s) v" "v \<notin> set ps"
  shows "\<exists>t. kfree c v s = Ok t \<and> kinv t (v # ps) \<and> klockable c t \<and> procs t = procs s \<and>
    (\<forall>a. \<not> within a v 4096 \<longrightarrow> mem t a = mem s a)"
proof -
  let ?m = "st32 v (freelist s) (memset v 1 PGSIZE (mem s))"
  let ?t = "(kcycle c s)\<lparr>mem := ?m, freelist := v\<rparr>"
  have fr: "\<And>a. \<not> within a v 4096 \<Longrightarrow> ?m a = mem s a" by (rule kfree_mem(1) [OF v(1)])
  have "klist (freelist s) ps ?m = klist (freelist s) ps (mem s)"
    by (rule klist_frame [OF _ page_ok_mod [OF v(1)] fr]) (use inv v(2) in \<open>auto simp: kinv_def page_ok_def\<close>)
  then have "kinv ?t (v # ps)" using inv v by (auto simp: kinv_def page_ok_def)
  then show ?thesis using kfree_eq [OF lk v(1)] fr klockable_cycle [OF lk] by simp
qed

lemma kalloc_ok:
  assumes inv: "kinv s (p # ps)" and lk: "klockable c s"
  shows "\<exists>t. kalloc c s = Ok (p, t) \<and> kinv t ps \<and> klockable c t \<and> procs t = procs s \<and> mem t = mem s \<and> p \<notin> set ps"
proof -
  have f: "freelist s = p" "p \<noteq> 0" using inv by (simp_all add: kinv_def)
  let ?t = "(kcycle c s)\<lparr>freelist := ld32 p (mem s)\<rparr>"
  have "kinv ?t ps" using inv by (simp add: kinv_def)
  then show ?thesis using kalloc_eq [OF lk] f inv klockable_cycle [OF lk] by (simp add: kinv_def)
qed

lemma kalloc_empty:
  assumes "kinv s []" and "klockable c s"
  shows "kalloc c s = Ok (0, kcycle c s)"
  using kalloc_eq [OF assms(2)] assms(1) by (simp add: kinv_def)


section \<open>The contract of the allocator\<close>

text \<open>What the rest of the kernel relies on: \<open>pool c s ps\<close> says that \<open>ps\<close> are the free pages and that CPU
  \<open>c\<close> may call the allocator.\<close>

locale page_allocator =
  fixes alloc :: "nat \<Rightarrow> 's \<Rightarrow> (uint32 \<times> 's) outcome"
    and free :: "nat \<Rightarrow> uint32 \<Rightarrow> 's \<Rightarrow> 's outcome"
    and pool :: "nat \<Rightarrow> 's \<Rightarrow> uint32 list \<Rightarrow> bool"
    and frame :: "'s \<Rightarrow> uint32 \<Rightarrow> bool"
    and bytes :: "'s \<Rightarrow> memory"
  assumes pool_distinct: "pool c s ps \<Longrightarrow> distinct ps"
    and pool_frames: "pool c s ps \<Longrightarrow> p \<in> set ps \<Longrightarrow> frame s p"
    and alloc_some: "pool c s (p # ps) \<Longrightarrow>
      \<exists>t. alloc c s = Ok (p, t) \<and> pool c t ps \<and> bytes t = bytes s \<and> frame t = frame s"
    and alloc_none: "pool c s [] \<Longrightarrow> \<exists>t. alloc c s = Ok (0, t) \<and> pool c t [] \<and> bytes t = bytes s"
    and free_ok: "pool c s ps \<Longrightarrow> frame s v \<Longrightarrow> v \<notin> set ps \<Longrightarrow>
      \<exists>t. free c v s = Ok t \<and> pool c t (v # ps) \<and> frame t = frame s \<and>
        (\<forall>a. \<not> within a v 4096 \<longrightarrow> bytes t a = bytes s a)"
begin

text \<open>A freed page is the next one handed out, and the pool is as before.\<close>

lemma free_then_alloc:
  assumes "pool c s ps" and "frame s v" and "v \<notin> set ps"
  shows "\<exists>u. bnd (free c v s) (alloc c) = Ok (v, u) \<and> pool c u ps"
proof -
  obtain t where t: "free c v s = Ok t" "pool c t (v # ps)" using free_ok [OF assms] by blast
  obtain u where "alloc c t = Ok (v, u)" "pool c u ps" using alloc_some [OF t(2)] by blast
  with t show ?thesis by auto
qed

text \<open>A page that has been handed out is not handed out again before it is freed, and freeing it cannot
  disturb the bytes of another page.\<close>

lemma alloc_twice:
  assumes "pool c s (p # q # ps)"
  shows "\<exists>t u. alloc c s = Ok (p, t) \<and> alloc c t = Ok (q, u) \<and> p \<noteq> q \<and> pool c u ps \<and> bytes u = bytes s"
proof -
  obtain t where t: "alloc c s = Ok (p, t)" "pool c t (q # ps)" "bytes t = bytes s"
    using alloc_some [OF assms] by blast
  obtain u where "alloc c t = Ok (q, u)" "pool c u ps" "bytes u = bytes t"
    using alloc_some [OF t(2)] by blast
  with t show ?thesis using pool_distinct [OF assms] by auto
qed

end

definition kpool :: "nat \<Rightarrow> 'a kmem_scheme \<Rightarrow> uint32 list \<Rightarrow> bool" where
  "kpool c s ps \<longleftrightarrow> kinv s ps \<and> klockable c s"

definition kframe :: "'a kmem_scheme \<Rightarrow> uint32 \<Rightarrow> bool" where
  "kframe s v \<longleftrightarrow> page_ok (kimage_end s) v"

interpretation ka: page_allocator kalloc kfree kpool kframe mem
proof
  show "\<exists>t. kalloc c s = Ok (p, t) \<and> kpool c t ps \<and> mem t = mem s \<and> kframe t = kframe s"
    if "kpool c s (p # ps)" for c p ps and s :: "'a kmem_scheme"
  proof -
    have inv: "kinv s (p # ps)" and lk: "klockable c s" using that by (simp_all add: kpool_def)
    then show ?thesis
      using kalloc_ok [OF inv lk] kalloc_eq [OF lk] by (auto simp: kpool_def kframe_def fun_eq_iff kinv_def split: if_splits)
  qed
  show "\<exists>t. kalloc c s = Ok (0, t) \<and> kpool c t [] \<and> mem t = mem s"
    if "kpool c s []" for c and s :: "'a kmem_scheme"
    using that kalloc_empty [of s c] klockable_cycle [of c s] by (simp add: kpool_def kinv_def)
  show "\<exists>t. kfree c v s = Ok t \<and> kpool c t (v # ps) \<and> kframe t = kframe s \<and>
      (\<forall>a. \<not> within a v 4096 \<longrightarrow> mem t a = mem s a)"
    if "kpool c s ps" "kframe s v" "v \<notin> set ps" for c ps v and s :: "'a kmem_scheme"
    using that kfree_ok [of s ps c v] kfree_eq [of c s v] by (auto simp: kpool_def kframe_def fun_eq_iff)
qed (auto simp: kpool_def kinv_def kframe_def)

section \<open>Initialisation\<close>

lemma aligned_step:
  assumes "p mod PGSIZE = 0" and "q mod PGSIZE = 0" and "p \<le> q" and "p \<noteq> q"
  shows "unat p + 4096 \<le> unat q"
proof -
  have "unat p mod 4096 = 0" "unat q mod 4096 = 0"
    using assms(1,2) unat_mod [of p 4096] unat_mod [of q 4096] by (simp_all add: PGSIZE_def)
  then have "4096 dvd unat p" "4096 dvd unat q" by presburger+
  then obtain i j where "unat p = 4096 * i" "unat q = 4096 * j" by (elim dvdE)
  moreover have "unat p < unat q" using assms(3,4) by (simp add: word_le_nat_alt word_unat_eq_iff)
  ultimately have "i < j" "unat p = 4096 * i" "unat q = 4096 * j" by simp_all
  then show ?thesis by linarith
qed

lemma aligned_add: "p mod PGSIZE = 0 \<Longrightarrow> unat p + 4096 < 4294967296 \<Longrightarrow>
  (p + PGSIZE) mod PGSIZE = 0 \<and> unat (p + PGSIZE) = unat p + 4096"
  using unat_add_no_wrap [of p PGSIZE] unat_mod [of p 4096] unat_mod [of "p + PGSIZE" 4096]
  by (simp add: PGSIZE_def word_unat_eq_iff)

definition pages_in :: "uint32 \<Rightarrow> uint32 \<Rightarrow> uint32 set" where
  "pages_in p vend = {q. q mod PGSIZE = 0 \<and> p \<le> q \<and> unat q + 4096 \<le> unat vend}"

lemma pages_in_step:
  assumes "p mod PGSIZE = 0" and "unat p + 4096 \<le> unat vend" and "unat p + 4096 < 4294967296"
  shows "pages_in p vend = insert p (pages_in (p + PGSIZE) vend)"
proof -
  have u: "unat (p + PGSIZE) = unat p + 4096" using aligned_add [OF assms(1,3)] by blast
  have "p \<le> q \<and> q \<noteq> p \<longleftrightarrow> p + PGSIZE \<le> q" if "q mod PGSIZE = 0" for q
    using aligned_step [OF assms(1) that] u by (auto simp: word_le_nat_alt)
  then show ?thesis
    using assms(1,2) unfolding pages_in_def set_eq_iff mem_Collect_eq insert_iff by (metis order_refl)
qed

lemma freerange_loop_ok:
  assumes "kinv s ps" and "klockable c s" and "KERNBASE \<le> kimage_end s" and "kimage_end s \<le> p"
    and "p mod PGSIZE = 0" and "unat p \<le> 0x8E000000" and "unat vend \<le> 0x8E000000"
    and "set ps \<inter> pages_in p vend = {}" and "0 < n" and "unat vend < unat p + 4096 * n"
  shows "\<exists>t qs. freerange_loop n c p vend s = Ok t \<and> kinv t (qs @ ps) \<and> klockable c t \<and>
    set qs = pages_in p vend \<and> kimage_end t = kimage_end s"
  using assms
proof (induction n arbitrary: p s ps)
  case (Suc n)
  note pr = Suc.prems
  have nw: "unat p + 4096 < 4294967296" using pr(6) by linarith
  note al = aligned_add [OF pr(5) nw]
  have le: "p + PGSIZE \<le> vend \<longleftrightarrow> unat p + 4096 \<le> unat vend" using al by (simp add: word_le_nat_alt)
  show ?case
  proof (cases "p + PGSIZE \<le> vend")
    case False
    then have "pages_in p vend = {}" using le by (auto simp: pages_in_def word_le_nat_alt)
    then show ?thesis using False pr(1,2) by (intro exI [of _ s] exI [of _ "[]"]) simp
  next
    case True
    then have le': "unat p + 4096 \<le> unat vend" using le by simp
    have kb: "KERNBASE \<le> p" using pr(3,4) by simp
    have "unat (v2p p) = unat p - unat KERNBASE" unfolding v2p_def by (rule unat_diff_no_wrap [OF kb])
    then have "unat (v2p p) < unat PHYSTOP" using le' pr(7) by (simp add: KERNBASE_def PHYSTOP_def)
    then have pg: "page_ok (kimage_end s) p"
      using pr(4,5) kb by (auto simp: page_ok_def word_less_nat_alt KERNBASE_def)
    have step: "pages_in p vend = insert p (pages_in (p + PGSIZE) vend)"
      by (rule pages_in_step [OF pr(5) le' nw])
    have pn: "p \<notin> set ps" using pr(8) step by auto
    obtain u where u: "kfree c p s = Ok u" "kpool c u (p # ps)" "kframe u = kframe s"
      using ka.free_ok [of c s ps p] pr(1,2) pg pn by (auto simp: kpool_def kframe_def)
    have ke: "kimage_end u = kimage_end s" using kfree_eq [OF pr(2) pg] u(1) by auto
    have "p \<notin> pages_in (p + PGSIZE) vend" using al by (auto simp: pages_in_def word_le_nat_alt)
    then have dj: "set (p # ps) \<inter> pages_in (p + PGSIZE) vend = {}" using pr(8) step by auto
    have n: "0 < n" using pr(10) le' by (cases n) auto
    have fu: "unat vend < unat (p + PGSIZE) + 4096 * n" using pr(10) al by simp
    have p': "kimage_end u \<le> p + PGSIZE" "unat (p + PGSIZE) \<le> 0x8E000000"
      using ke pr(4,7) al le' by (simp_all add: word_le_nat_alt)
    obtain t qs where t: "freerange_loop n c (p + PGSIZE) vend u = Ok t" "kinv t (qs @ p # ps)"
      "klockable c t" "set qs = pages_in (p + PGSIZE) vend" "kimage_end t = kimage_end u"
      using Suc.IH [of u "p # ps" "p + PGSIZE"] u(2) ke pr(3,7) p' al dj n fu by (auto simp: kpool_def)
    then show ?thesis using True u(1) step ke
      by (intro exI [of _ t] exI [of _ "qs @ [p]"]) simp
  qed
qed simp


lemma and_not_page: "(a :: uint32) AND NOT (PGSIZE - 1) = a - a mod PGSIZE"
proof -
  have m: "PGSIZE - 1 = mask 12" "PGSIZE = 2 ^ 12" by (simp_all add: PGSIZE_def mask_eq_exp_minus_1)
  have "a AND NOT (mask 12) = push_bit 12 (drop_bit 12 a)" by (rule bit_word_eqI) (auto simp: bit_simps)
  also have "\<dots> = a - take_bit 12 a" using bits_ident [of 12 a] by (metis add_diff_cancel_right')
  finally have "a AND NOT (mask 12) = a - a mod PGSIZE" unfolding m(2) take_bit_eq_mod .
  then show ?thesis unfolding m(1) .
qed

lemma unat_page_down: "unat (PGROUNDDOWN a) = unat a - unat a mod 4096" and page_down_aligned: "PGROUNDDOWN a mod PGSIZE = 0"
proof -
  have u: "unat (a mod PGSIZE) = unat a mod 4096" by (simp add: unat_mod PGSIZE_def)
  then have "a mod PGSIZE \<le> a" by (simp add: word_le_nat_alt)
  then show e: "unat (PGROUNDDOWN a) = unat a - unat a mod 4096"
    using u by (simp add: PGROUNDDOWN_def and_not_page unat_diff_no_wrap)
  have "unat (PGROUNDDOWN a mod PGSIZE) = 0"
    unfolding unat_mod e by (simp add: PGSIZE_def minus_mod_eq_mult_div)
  then show "PGROUNDDOWN a mod PGSIZE = 0" by (simp add: unat_eq_0)
qed

lemma PGROUNDUP_down: "PGROUNDUP a = PGROUNDDOWN (a + PGSIZE - 1)"
  by (simp add: PGROUNDUP_def PGROUNDDOWN_def)

lemma page_up:
  assumes "unat a < 4294963200"
  shows "PGROUNDUP a mod PGSIZE = 0" and "a \<le> PGROUNDUP a" and "unat (PGROUNDUP a) < unat a + 4096"
proof -
  have p: "a + PGSIZE - 1 = a + 4095" by (simp add: PGSIZE_def)
  have "unat (a + 4095) = unat a + 4095" using assms by (subst unat_add_no_wrap) simp_all
  then have u: "unat (PGROUNDUP a) = unat a + 4095 - (unat a + 4095) mod 4096"
    by (simp only: PGROUNDUP_down unat_page_down p)
  have "(unat a + 4095) mod 4096 \<le> 4095" by (simp add: mod_le_divisor less_Suc_eq_le [symmetric])
  then show "a \<le> PGROUNDUP a" using u by (simp add: word_le_nat_alt)
  show "unat (PGROUNDUP a) < unat a + 4096" using u by simp
  show "PGROUNDUP a mod PGSIZE = 0" by (simp add: PGROUNDUP_down page_down_aligned)
qed

section \<open>Properties\<close>

text \<open>C20: a page given to \<^verbatim>\<open>kfree\<close> is the page that the next \<^verbatim>\<open>kalloc\<close> returns, and the free list is then
  what it was before, for every page frame that is not already free.\<close>

theorem kfree_kalloc_roundtrip:
  assumes "kinv s ps" and "klockable c s" and "page_ok (kimage_end s) v" and "v \<notin> set ps"
  shows "\<exists>u. bnd (kfree c v s) (kalloc c) = Ok (v, u) \<and> kinv u ps \<and> klockable c u"
  using ka.free_then_alloc [of c s ps v] assms by (auto simp: kpool_def kframe_def)

text \<open>C19: \<^verbatim>\<open>kinit1\<close>, started with an empty free list, returns and leaves exactly the whole pages between its
  two arguments on the free list, each one once.\<close>

theorem kinit1_builds_free_list:
  assumes "freelist s = 0" and "KERNBASE \<le> kimage_end s" and "kimage_end s \<le> vstart" and "irq_ok (cpus s c)"
    and "vstart \<le> vend" and "vend \<le> KERNBASE + PHYSTOP"
  shows "\<exists>t ps. kinit1 c vstart vend s = Ok t \<and> kinv t ps \<and> set ps = pages_in vstart vend \<and> lock_free Lk_kmem t"
proof -
  let ?s = "(initlock Lk_kmem ''kmem'' s)\<lparr>use_lock := False\<rparr>"
  have v: "unat vend \<le> 0x8E000000" using assms(6) by (simp add: word_le_nat_alt KERNBASE_def PHYSTOP_def)
  then have vs: "unat vstart < 4294963200" using assms(5) by (simp add: word_le_nat_alt)
  note up = page_up [OF vs]
  have eq: "pages_in (PGROUNDUP vstart) vend = pages_in vstart vend"
  proof -
    have "PGROUNDUP vstart \<le> q" if "q mod PGSIZE = 0" "vstart \<le> q" for q
    proof (rule ccontr)
      assume "\<not> PGROUNDUP vstart \<le> q"
      then have "q \<le> PGROUNDUP vstart" "q \<noteq> PGROUNDUP vstart" by simp_all
      then show False using aligned_step [OF that(1) up(1)] up(3) that(2) by (simp add: word_le_nat_alt)
    qed
    then show ?thesis
      using up(2) unfolding pages_in_def set_eq_iff mem_Collect_eq by (metis order_trans)
  qed
  have "\<exists>t qs. freerange_loop 1048576 c (PGROUNDUP vstart) vend ?s = Ok t \<and> kinv t (qs @ []) \<and> klockable c t \<and>
      set qs = pages_in (PGROUNDUP vstart) vend \<and> kimage_end t = kimage_end ?s"
  proof (rule freerange_loop_ok)
    show "kinv ?s []" using assms(1) by (simp add: kinv_def initlock_def upd_lock_def)
    show "klockable c ?s" using assms(4) by (simp add: klockable_def lock_free_def initlock_def upd_lock_def)
    show "KERNBASE \<le> kimage_end ?s" "kimage_end ?s \<le> PGROUNDUP vstart"
      using assms(2,3) up(2) by (simp_all add: initlock_def upd_lock_def)
    show "unat (PGROUNDUP vstart) \<le> 0x8E000000"
    proof (rule ccontr)
      assume *: "\<not> unat (PGROUNDUP vstart) \<le> 0x8E000000"
      have "unat (0x8E000000 :: uint32) + 4096 \<le> unat (PGROUNDUP vstart)"
        by (rule aligned_step [OF _ up(1)]) (use * in \<open>auto simp: PGSIZE_def word_le_nat_alt\<close>)
      then show False using up(3) assms(5) v by (simp add: word_le_nat_alt)
    qed
  qed (use up v in simp_all)
  then show ?thesis using eq by (auto simp: kinit1_def freerange_def klockable_def)
qed

text \<open>A kernel image that ends at \<open>0x80110000\<close>, and an empty free list.\<close>

definition demo_kmem :: kmem where
  "demo_kmem = ptab.extend (mk_tab (\<lambda>_. blank_proc))
     \<lparr>mem = (\<lambda>_. 0), use_lock = True, freelist = 0, kimage_end = 0x80110000, kdata = 0x80108000\<rparr>"

lemma demo_kmem_sel [simp]:
  "freelist demo_kmem = 0" "kimage_end demo_kmem = 0x80110000" "use_lock demo_kmem"
  "cpus demo_kmem = (\<lambda>_. idle_cpu)" "locks demo_kmem = (\<lambda>_. \<lparr>locked = 0, lk_name = '''', lk_cpu = None\<rparr>)"
  by (simp_all add: demo_kmem_def mk_tab_def ptab.defs)

theorem kfree_kalloc_roundtrip_witness:
  "\<exists>u. bnd (kfree 0 0x80200000 demo_kmem) (kalloc 0) = Ok (0x80200000, u) \<and> kinv u [] \<and> klockable 0 u"
  by (rule kfree_kalloc_roundtrip)
    (simp_all add: kinv_def klockable_def lock_free_def irq_ok_def idle_cpu_def page_ok_def PGSIZE_def v2p_def
      KERNBASE_def PHYSTOP_def)

theorem kinit1_builds_free_list_witness:
  "\<exists>t ps. kinit1 0 0x80110000 0x80400000 demo_kmem = Ok t \<and> kinv t ps \<and> set ps = pages_in 0x80110000 0x80400000 \<and>
    lock_free Lk_kmem t"
  by (rule kinit1_builds_free_list) (simp_all add: irq_ok_def idle_cpu_def KERNBASE_def PHYSTOP_def)

end
