(* ===== verification/Bio.thy ===== *)
theory Bio
  imports Env Kalloc
begin

text \<open>
  The disk driver \<^verbatim>\<open>src/ide.c\<close> and the buffer cache \<^verbatim>\<open>src/bio.c\<close>. A buffer is an index into
  \<^verbatim>\<open>bcache.buf\<close>; index \<open>NBUF\<close> is \<^verbatim>\<open>bcache.head\<close>. The three flag bits of \<^verbatim>\<open>b->flags\<close> are three truth
  values. The disk device holds the contents of the blocks of its two drives and the order in which it
  wrote them. A process that sleeps for the disk is modelled by the interrupt that ends its wait; one that
  would sleep for a buffer of another process does not return (\<open>Spin\<close>). The device reports no errors.
\<close>

section \<open>Definitions\<close>

type_synonym block = "nat \<Rightarrow> uchar"

definition BSIZE :: nat where "BSIZE = 512"
definition FSSIZE :: uint32 where "FSSIZE = 2000"
definition NBUF :: nat where "NBUF = 30"
definition ROOTDEV :: uint32 where "ROOTDEV = 1"

record buf =
  b_busy :: bool
  b_valid :: bool
  b_dirty :: bool
  b_dev :: uint32
  b_blockno :: uint32
  b_prev :: nat
  b_next :: nat
  b_qnext :: ptr
  b_data :: block

record bcache = kmem +
  bufs :: "nat \<Rightarrow> buf"
  idequeue :: ptr
  havedisk1 :: bool
  disk :: "nat \<times> uint32 \<Rightarrow> block"
  dwrites :: "((nat \<times> uint32) \<times> block) list"

definition upd_buf :: "nat \<Rightarrow> (buf \<Rightarrow> buf) \<Rightarrow> 'a bcache_scheme \<Rightarrow> 'a bcache_scheme" where
  "upd_buf b f s = s\<lparr>bufs := (bufs s)(b := f (bufs s b))\<rparr>"

definition set_data :: "nat \<Rightarrow> block \<Rightarrow> 'a bcache_scheme \<Rightarrow> 'a bcache_scheme" where
  "set_data b d s = upd_buf b (\<lambda>r. r\<lparr>b_data := d\<rparr>) s"

text \<open>The sector address that the driver programs: the drive is \<^verbatim>\<open>b->dev & 1\<close>.\<close>

definition sector :: "buf \<Rightarrow> nat \<times> uint32" where
  "sector r = (unat (b_dev r AND 1), b_blockno r)"

definition idestart :: "ptr \<Rightarrow> 'a bcache_scheme \<Rightarrow> 'a bcache_scheme outcome" where
  "idestart b s = (case b of None \<Rightarrow> Panic ''idestart''
     | Some b \<Rightarrow>
        let r = bufs s b
        in if FSSIZE \<le> b_blockno r then Panic ''incorrect blockno''
           else if b_dirty r
           then Ok (s\<lparr>disk := (disk s)(sector r := b_data r), dwrites := dwrites s @ [(sector r, b_data r)]\<rparr>)
           else Ok s)"

definition ideintr :: "nat \<Rightarrow> 'a bcache_scheme \<Rightarrow> 'a bcache_scheme outcome" where
  "ideintr c s =
     bnd (acquire c Lk_ide s) (\<lambda>s.
     case idequeue s of None \<Rightarrow> release c Lk_ide s
     | Some b \<Rightarrow>
        let s = s\<lparr>idequeue := b_qnext (bufs s b)\<rparr>;
            s = (if \<not> b_dirty (bufs s b) then set_data b (disk s (sector (bufs s b))) s else s);
            s = upd_buf b (\<lambda>r. r\<lparr>b_valid := True, b_dirty := False\<rparr>) s
        in bnd (wakeup c (Chan_buf b) s) (\<lambda>s.
           bnd (if idequeue s \<noteq> None then idestart (idequeue s) s else Ok s)
             (release c Lk_ide)))"

text \<open>The loop that looks for the end of the request queue, over at most \<open>NBUF\<close> queued buffers, and
  the store through the pointer it ends with.\<close>

fun ide_append :: "nat \<Rightarrow> ptr \<Rightarrow> nat \<Rightarrow> 'a bcache_scheme \<Rightarrow> 'a bcache_scheme outcome" where
  "ide_append 0 q b s = Spin"
| "ide_append (Suc n) q b s =
     (case q of None \<Rightarrow> Ok (s\<lparr>idequeue := Some b\<rparr>)
      | Some i \<Rightarrow>
         (case b_qnext (bufs s i) of
            None \<Rightarrow> Ok (upd_buf i (\<lambda>r. r\<lparr>b_qnext := Some b\<rparr>) s)
          | Some j \<Rightarrow> ide_append n (Some j) b s))"

text \<open>The wait for the request: \<^verbatim>\<open>sleep\<close> gives up \<^verbatim>\<open>idelock\<close>, the interrupt of the active request
  comes, and the process runs again with the lock. Each interrupt serves one queued request.\<close>

fun ide_wait :: "nat \<Rightarrow> nat \<Rightarrow> nat \<Rightarrow> 'a bcache_scheme \<Rightarrow> 'a bcache_scheme outcome" where
  "ide_wait n c b s =
     (if b_valid (bufs s b) \<and> \<not> b_dirty (bufs s b) then release c Lk_ide s
      else case n of 0 \<Rightarrow> Spin
        | Suc n \<Rightarrow> bnd (release c Lk_ide s) (\<lambda>s. bnd (ideintr c s) (\<lambda>s.
            bnd (acquire c Lk_ide s) (ide_wait n c b))))"

declare ide_wait.simps [simp del]

definition iderw :: "nat \<Rightarrow> nat \<Rightarrow> 'a bcache_scheme \<Rightarrow> 'a bcache_scheme outcome" where
  "iderw c b s =
     (let r = bufs s b
      in if \<not> b_busy r then Panic ''iderw: buf not busy''
         else if b_valid r \<and> \<not> b_dirty r then Panic ''iderw: nothing to do''
         else if b_dev r \<noteq> 0 \<and> \<not> havedisk1 s then Panic ''iderw: ide disk 1 not present''
         else
           bnd (acquire c Lk_ide s) (\<lambda>s.
           bnd (ide_append NBUF (idequeue s) b (upd_buf b (\<lambda>r. r\<lparr>b_qnext := None\<rparr>) s)) (\<lambda>s.
           bnd (if idequeue s = Some b then idestart (Some b) s else Ok s)
             (ide_wait NBUF c b))))"

definition BHEAD :: nat where "BHEAD = NBUF"

definition binit_step :: "nat \<Rightarrow> 'a bcache_scheme \<Rightarrow> 'a bcache_scheme" where
  "binit_step b s =
     (let s = upd_buf b (\<lambda>r. r\<lparr>b_next := b_next (bufs s BHEAD), b_prev := BHEAD, b_dev := - 1\<rparr>) s;
          s = upd_buf (b_next (bufs s BHEAD)) (\<lambda>r. r\<lparr>b_prev := b\<rparr>) s
      in upd_buf BHEAD (\<lambda>r. r\<lparr>b_next := b\<rparr>) s)"

definition binit :: "'a bcache_scheme \<Rightarrow> 'a bcache_scheme" where
  "binit s =
     (let s = initlock Lk_bcache ''bcache'' s;
          s = upd_buf BHEAD (\<lambda>r. r\<lparr>b_prev := BHEAD, b_next := BHEAD\<rparr>) s
      in fold binit_step [0..<NBUF] s)"

text \<open>The walks over the ring, forwards and backwards: the first buffer that satisfies \<open>P\<close>.\<close>

fun bwalk :: "nat \<Rightarrow> (nat \<Rightarrow> nat) \<Rightarrow> (nat \<Rightarrow> bool) \<Rightarrow> nat \<Rightarrow> ptr outcome" where
  "bwalk n step P b =
     (if b = BHEAD then Ok None
      else if P b then Ok (Some b)
      else case n of 0 \<Rightarrow> Spin | Suc n \<Rightarrow> bwalk n step P (step b))"

declare bwalk.simps [simp del]

definition nextb :: "'a bcache_scheme \<Rightarrow> nat \<Rightarrow> nat" where
  "nextb s b = b_next (bufs s b)"

definition prevb :: "'a bcache_scheme \<Rightarrow> nat \<Rightarrow> nat" where
  "prevb s b = b_prev (bufs s b)"

definition bget :: "nat \<Rightarrow> uint32 \<Rightarrow> uint32 \<Rightarrow> 'a bcache_scheme \<Rightarrow> (nat \<times> 'a bcache_scheme) outcome" where
  "bget c dev blockno s =
     bnd (acquire c Lk_bcache s) (\<lambda>s.
     bnd (bwalk NBUF (nextb s) (\<lambda>b. b_dev (bufs s b) = dev \<and> b_blockno (bufs s b) = blockno) (nextb s BHEAD)) (\<lambda>r.
     case r of
       Some b \<Rightarrow>
         if \<not> b_busy (bufs s b)
         then bnd (release c Lk_bcache (upd_buf b (\<lambda>r. r\<lparr>b_busy := True\<rparr>) s)) (\<lambda>s. Ok (b, s))
         else Spin
     | None \<Rightarrow>
         bnd (bwalk NBUF (prevb s) (\<lambda>b. \<not> b_busy (bufs s b) \<and> \<not> b_dirty (bufs s b)) (prevb s BHEAD)) (\<lambda>r.
         case r of
           None \<Rightarrow> Panic ''bget: no buffers''
         | Some b \<Rightarrow>
             bnd (release c Lk_bcache (upd_buf b (\<lambda>r. r\<lparr>b_dev := dev, b_blockno := blockno,
                b_busy := True, b_valid := False, b_dirty := False\<rparr>) s)) (\<lambda>s. Ok (b, s)))))"

definition bread :: "nat \<Rightarrow> uint32 \<Rightarrow> uint32 \<Rightarrow> 'a bcache_scheme \<Rightarrow> (nat \<times> 'a bcache_scheme) outcome" where
  "bread c dev blockno s =
     bnd (bget c dev blockno s) (\<lambda>(b, s).
     if \<not> b_valid (bufs s b) then bnd (iderw c b s) (\<lambda>s. Ok (b, s)) else Ok (b, s))"

definition bwrite :: "nat \<Rightarrow> nat \<Rightarrow> 'a bcache_scheme \<Rightarrow> 'a bcache_scheme outcome" where
  "bwrite c b s =
     (if \<not> b_busy (bufs s b) then Panic ''bwrite''
      else iderw c b (upd_buf b (\<lambda>r. r\<lparr>b_dirty := True\<rparr>) s))"

definition bunlink :: "nat \<Rightarrow> 'a bcache_scheme \<Rightarrow> 'a bcache_scheme" where
  "bunlink b s =
     (let s = upd_buf (b_next (bufs s b)) (\<lambda>r. r\<lparr>b_prev := b_prev (bufs s b)\<rparr>) s
      in upd_buf (b_prev (bufs s b)) (\<lambda>r. r\<lparr>b_next := b_next (bufs s b)\<rparr>) s)"

definition bpush :: "nat \<Rightarrow> 'a bcache_scheme \<Rightarrow> 'a bcache_scheme" where
  "bpush b s =
     (let s = upd_buf b (\<lambda>r. r\<lparr>b_next := b_next (bufs s BHEAD), b_prev := BHEAD\<rparr>) s;
          s = upd_buf (b_next (bufs s BHEAD)) (\<lambda>r. r\<lparr>b_prev := b\<rparr>) s
      in upd_buf BHEAD (\<lambda>r. r\<lparr>b_next := b\<rparr>) s)"

definition brelse :: "nat \<Rightarrow> nat \<Rightarrow> 'a bcache_scheme \<Rightarrow> 'a bcache_scheme outcome" where
  "brelse c b s =
     (if \<not> b_busy (bufs s b) then Panic ''brelse''
      else
        bnd (acquire c Lk_bcache s) (\<lambda>s.
        let s = upd_buf b (\<lambda>r. r\<lparr>b_busy := False\<rparr>) (bpush b (bunlink b s))
        in bnd (wakeup c (Chan_buf b) s) (release c Lk_bcache)))"

section \<open>The ring of buffers\<close>

text \<open>\<open>dseg nx pv a xs z\<close>: following \<open>nx\<close> from \<open>a\<close> one meets \<open>xs\<close> and then \<open>z\<close>, and following \<open>pv\<close> from \<open>z\<close>
  the same nodes in reverse.\<close>

fun dseg :: "('p \<Rightarrow> 'p) \<Rightarrow> ('p \<Rightarrow> 'p) \<Rightarrow> 'p \<Rightarrow> 'p list \<Rightarrow> 'p \<Rightarrow> bool" where
  "dseg nx pv a [] z \<longleftrightarrow> nx a = z \<and> pv z = a"
| "dseg nx pv a (x # xs) z \<longleftrightarrow> nx a = x \<and> pv x = a \<and> dseg nx pv x xs z"

lemma dseg_append: "dseg nx pv a (xs @ x # ys) z \<longleftrightarrow> dseg nx pv a xs x \<and> dseg nx pv x ys z"
  by (induction xs arbitrary: a) auto

lemma dseg_cong:
  assumes "\<And>x. x = a \<or> x \<in> set xs \<Longrightarrow> nx' x = nx x" and "\<And>x. x = z \<or> x \<in> set xs \<Longrightarrow> pv' x = pv x"
  shows "dseg nx' pv' a xs z = dseg nx pv a xs z"
  using assms by (induction xs arbitrary: a) auto

lemma dseg_hd: "dseg nx pv a xs z \<Longrightarrow> nx a = hd (xs @ [z])"
  by (cases xs) auto

lemma dseg_last: "dseg nx pv a xs z \<Longrightarrow> pv z = last (a # xs)"
  by (induction xs arbitrary: a) auto

lemma dseg_join:
  assumes "dseg nx pv a xs b" and "dseg nx pv b ys z" and "distinct (a # xs @ b # ys)"
    and "z = a \<or> z \<notin> set (xs @ b # ys)"
  shows "dseg (nx(pv b := nx b)) (pv(nx b := pv b)) a (xs @ ys) z"
proof (cases xs rule: rev_cases)
  case Nil
  then have p: "pv b = a" and n: "nx b = hd (ys @ [z])" using assms by (auto dest: dseg_hd)
  show ?thesis
  proof (cases ys)
    case Nil
    then show ?thesis using \<open>xs = []\<close> p n by simp
  next
    case (Cons y ys')
    then have "dseg (nx(a := y)) (pv(y := a)) y ys' z = dseg nx pv y ys' z"
      using assms(3,4) by (intro dseg_cong) auto
    then show ?thesis using \<open>xs = []\<close> p n Cons assms(2) by simp
  qed
next
  case (snoc xs' x)
  then have p: "pv b = x" and n: "nx b = hd (ys @ [z])" and xs: "dseg nx pv a xs' x"
    using assms by (auto dest: dseg_hd simp: dseg_append)
  have 1: "dseg (nx(x := nx b)) (pv(nx b := x)) a xs' x = dseg nx pv a xs' x"
  proof (rule dseg_cong)
    have "nx b = z \<or> nx b \<in> set ys" using n by (cases ys) auto
    then show "(pv(nx b := x)) v = pv v" if "v = x \<or> v \<in> set xs'" for v
      using that assms(3,4) snoc by auto
  qed (use assms(3) snoc in auto)
  have 2: "dseg (nx(x := nx b)) (pv(nx b := x)) x ys z"
  proof (cases ys)
    case Nil
    then show ?thesis using n by simp
  next
    case (Cons y ys')
    then have "dseg (nx(x := y)) (pv(y := x)) y ys' z = dseg nx pv y ys' z"
      using assms(3,4) snoc by (intro dseg_cong) auto
    then show ?thesis using Cons n assms(2) by simp
  qed
  show ?thesis using 1 2 xs p snoc by (simp add: dseg_append)
qed

lemma dseg_insert:
  assumes "dseg nx pv a xs a" and "distinct (a # xs)" and "b \<notin> set (a # xs)"
  shows "dseg (nx(b := nx a, a := b)) ((pv(b := a))(nx a := b)) a (b # xs) a"
proof (cases xs)
  case (Cons x xs')
  then have "dseg (nx(b := x, a := b)) (pv(b := a, x := b)) x xs' a = dseg nx pv x xs' a"
    using assms(2,3) by (intro dseg_cong) auto
  then show ?thesis using assms Cons by simp
qed (use assms in simp)

lemma bwalk_next:
  assumes "dseg nx pv a xs BHEAD" and "BHEAD \<notin> set xs" and "length xs \<le> n"
  shows "bwalk n nx P (nx a) = Ok (find P xs)"
  using assms
proof (induction xs arbitrary: a n)
  case (Cons x xs)
  then obtain m where n: "n = Suc m" by (cases n) auto
  then show ?case using Cons by (subst bwalk.simps) (auto simp: n)
qed (simp add: bwalk.simps)

lemma bwalk_prev:
  assumes "dseg nx pv BHEAD xs z" and "BHEAD \<notin> set xs" and "length xs \<le> n"
  shows "bwalk n pv P (pv z) = Ok (find P (rev xs))"
  using assms
proof (induction xs arbitrary: z n rule: rev_induct)
  case (snoc x xs)
  then obtain m where n: "n = Suc m" by (cases n) auto
  have "pv z = x" "dseg nx pv BHEAD xs x" using snoc.prems(1) by (auto simp: dseg_append)
  then show ?case using snoc n by (subst bwalk.simps) (auto simp: n)
qed (simp add: bwalk.simps)

text \<open>The cache is a ring through its head: \<open>bs\<close> lists the buffers from the most to the least recently used.\<close>

definition ring :: "'a bcache_scheme \<Rightarrow> nat list \<Rightarrow> bool" where
  "ring s bs \<longleftrightarrow> dseg (nextb s) (prevb s) BHEAD bs BHEAD \<and> distinct bs \<and> set bs = {..<NBUF}"

lemma ring_length: "ring s bs \<Longrightarrow> length bs = NBUF"
  by (metis ring_def card_lessThan distinct_card)

lemma ring_head: "ring s bs \<Longrightarrow> BHEAD \<notin> set bs"
  by (simp add: ring_def BHEAD_def)

lemma ring_cong:
  assumes "nextb t = nextb s" and "prevb t = prevb s"
  shows "ring t bs = ring s bs"
  using assms by (simp add: ring_def)

lemma upd_buf_sel [simp]:
  "bufs (upd_buf b f s) = (bufs s)(b := f (bufs s b))"
  "idequeue (upd_buf b f s) = idequeue s" "havedisk1 (upd_buf b f s) = havedisk1 s"
  "disk (upd_buf b f s) = disk s" "dwrites (upd_buf b f s) = dwrites s"
  "bcache.more (upd_buf b f s) = bcache.more s"
  by (simp_all add: upd_buf_def)

lemma set_data_sel [simp]:
  "bufs (set_data b d s) = (bufs s)(b := (bufs s b)\<lparr>b_data := d\<rparr>)"
  "idequeue (set_data b d s) = idequeue s" "havedisk1 (set_data b d s) = havedisk1 s"
  "disk (set_data b d s) = disk s" "dwrites (set_data b d s) = dwrites s"
  "bcache.more (set_data b d s) = bcache.more s"
  by (simp_all add: set_data_def)

lemma link_upd:
  "nextb (upd_buf b f s) = (nextb s)(b := b_next (f (bufs s b)))"
  "prevb (upd_buf b f s) = (prevb s)(b := b_prev (f (bufs s b)))"
  by (simp_all add: nextb_def prevb_def fun_eq_iff)

lemma ring_bunlink_bpush:
  assumes r: "ring s bs" and b: "b < NBUF"
  shows "ring (bpush b (bunlink b s)) (b # remove1 b bs)"
proof -
  obtain xs ys where bs: "bs = xs @ b # ys" using r b by (metis lessThan_iff ring_def split_list)
  have d: "distinct (BHEAD # xs @ b # ys)" using r ring_head [OF r] by (simp add: ring_def bs)
  have sg: "dseg (nextb s) (prevb s) BHEAD xs b" "dseg (nextb s) (prevb s) b ys BHEAD"
    using r by (simp_all add: ring_def bs dseg_append)
  have nb: "nextb s b \<noteq> b" using dseg_hd [OF sg(2)] d by (cases ys) auto
  have u: "nextb (bunlink b s) = (nextb s)(prevb s b := nextb s b)"
    "prevb (bunlink b s) = (prevb s)(nextb s b := prevb s b)"
    using nb by (auto simp: bunlink_def Let_def link_upd fun_eq_iff nextb_def prevb_def)
  have j: "dseg (nextb (bunlink b s)) (prevb (bunlink b s)) BHEAD (xs @ ys) BHEAD"
    unfolding u by (rule dseg_join [OF sg d]) simp
  let ?t = "bunlink b s"
  have bh: "b \<noteq> BHEAD" using b by (simp add: BHEAD_def)
  have p: "nextb (bpush b ?t) = (nextb ?t)(b := nextb ?t BHEAD, BHEAD := b)"
    "prevb (bpush b ?t) = ((prevb ?t)(b := BHEAD))(nextb ?t BHEAD := b)"
    using bh by (auto simp: bpush_def Let_def link_upd fun_eq_iff nextb_def prevb_def)
  have "dseg (nextb (bpush b ?t)) (prevb (bpush b ?t)) BHEAD (b # xs @ ys) BHEAD"
    unfolding p by (rule dseg_insert [OF j]) (use d bh in auto)
  moreover have "remove1 b bs = xs @ ys" using d by (simp add: bs remove1_append_notin)
  moreover have "set (b # xs @ ys) = {..<NBUF}" using r by (auto simp: ring_def bs)
  ultimately show ?thesis using d by (simp add: ring_def)
qed

text \<open>A buffer without its place in the ring and in the request queue.\<close>

definition unlinked :: "buf \<Rightarrow> buf" where
  "unlinked r = r\<lparr>b_prev := 0, b_next := 0, b_qnext := None\<rparr>"

lemma unlinked_bpush [simp]:
  "unlinked (bufs (bpush b s) i) = unlinked (bufs s i)" "unlinked (bufs (bunlink b s) i) = unlinked (bufs s i)"
  by (simp_all add: bpush_def bunlink_def Let_def unlinked_def)

lemma unlinked_busy: "unlinked (r\<lparr>b_busy := x\<rparr>) = (unlinked r)\<lparr>b_busy := x\<rparr>"
  by (simp add: unlinked_def)

lemma unlinkedD:
  assumes "unlinked r = unlinked r'"
  shows "b_busy r = b_busy r'" "b_valid r = b_valid r'" "b_dirty r = b_dirty r'" "b_dev r = b_dev r'"
    "b_blockno r = b_blockno r'" "b_data r = b_data r'"
  using assms by (cases r; cases r'; simp add: unlinked_def)+

lemma bpush_sel [simp]:
  "idequeue (bpush b s) = idequeue s" "havedisk1 (bpush b s) = havedisk1 s" "disk (bpush b s) = disk s"
  "dwrites (bpush b s) = dwrites s" "bcache.more (bpush b s) = bcache.more s"
  "idequeue (bunlink b s) = idequeue s" "havedisk1 (bunlink b s) = havedisk1 s" "disk (bunlink b s) = disk s"
  "dwrites (bunlink b s) = dwrites s" "bcache.more (bunlink b s) = bcache.more s"
  by (simp_all add: bpush_def bunlink_def Let_def)

section \<open>The driver\<close>

lemma env_bcache [simp]:
  "env c L (bufs_update f s) = env c L s" "env c L (idequeue_update g s) = env c L s"
  "env c L (disk_update h s) = env c L s" "env c L (dwrites_update k s) = env c L s"
  by (rule env_more; simp)+

lemma env_upd_buf [simp]:
  "env c L (upd_buf b f s) = env c L s" "env c L (set_data b d s) = env c L s"
  "env c L (bpush b s) = env c L s" "env c L (bunlink b s) = env c L s"
  by (simp_all add: upd_buf_def set_data_def bpush_def bunlink_def Let_def)

text \<open>The parts of the state that the block layer leaves alone.\<close>

definition bframe :: "'a bcache_scheme \<Rightarrow> _" where
  "bframe s = (mem s, use_lock s, freelist s, kimage_end s, kdata s, havedisk1 s, bcache.more s)"

lemma bframe_upd [simp]:
  "bframe (upd_buf b f s) = bframe s" "bframe (set_data b d s) = bframe s"
  "bframe (bpush b s) = bframe s" "bframe (bunlink b s) = bframe s"
  "bframe (idequeue_update g s) = bframe s" "bframe (disk_update h s) = bframe s"
  "bframe (dwrites_update k s) = bframe s"
  by (simp_all add: bframe_def upd_buf_def set_data_def bpush_def bunlink_def Let_def)

text \<open>Two states that differ only in the locks and the process table.\<close>

definition bsame :: "'a bcache_scheme \<Rightarrow> 'a bcache_scheme \<Rightarrow> bool" where
  "bsame t s \<longleftrightarrow> bufs t = bufs s \<and> idequeue t = idequeue s \<and> disk t = disk s \<and> dwrites t = dwrites s \<and>
     bframe t = bframe s"

lemma bsame_more:
  assumes "ptab.more t = ptab.more s"
  shows "bsame t s"
  using assms by (cases t; cases s) (simp add: bsame_def bframe_def)

lemma bsame_locks: "bsame (locked_by c l s) s" "bsame (unlocked_by c l s) s"
  by (rule bsame_more; simp)+

lemmas bsame_lock_sel [simp] =
  bsame_locks(1) [unfolded bsame_def, THEN conjunct1]
  bsame_locks(1) [unfolded bsame_def, THEN conjunct2, THEN conjunct1]
  bsame_locks(1) [unfolded bsame_def, THEN conjunct2, THEN conjunct2, THEN conjunct1]
  bsame_locks(1) [unfolded bsame_def, THEN conjunct2, THEN conjunct2, THEN conjunct2, THEN conjunct1]
  bsame_locks(1) [unfolded bsame_def, THEN conjunct2, THEN conjunct2, THEN conjunct2, THEN conjunct2]
  bsame_locks(2) [unfolded bsame_def, THEN conjunct1]
  bsame_locks(2) [unfolded bsame_def, THEN conjunct2, THEN conjunct1]
  bsame_locks(2) [unfolded bsame_def, THEN conjunct2, THEN conjunct2, THEN conjunct1]
  bsame_locks(2) [unfolded bsame_def, THEN conjunct2, THEN conjunct2, THEN conjunct2, THEN conjunct1]
  bsame_locks(2) [unfolded bsame_def, THEN conjunct2, THEN conjunct2, THEN conjunct2, THEN conjunct2]

lemma wakeup_bsame:
  assumes "env c L s" and "Lk_ptable \<notin> L"
  obtains t where "wakeup c ch s = Ok t" and "env c L t" and "bsame t s"
  using env_wakeup [OF assms] bsame_more by blast

definition transferred :: "nat \<Rightarrow> 'a bcache_scheme \<Rightarrow> buf" where
  "transferred b s = (let r = bufs s b in r\<lparr>b_qnext := None, b_valid := True, b_dirty := False,
     b_data := (if b_dirty r then b_data r else disk s (sector r))\<rparr>)"

lemma ideintr_ok:
  assumes e: "env c {} s" and q: "idequeue s = Some b" "b_qnext (bufs s b) = None"
  shows "\<exists>t. ideintr c s = Ok t \<and> env c {} t \<and> bframe t = bframe s \<and> idequeue t = None \<and> disk t = disk s \<and>
    dwrites t = dwrites s \<and> bufs t = (bufs s)(b := transferred b s)"
proof -
  note a = env_acquire [OF e, of Lk_ide, simplified]
  let ?s = "locked_by c Lk_ide s"
  let ?r = "transferred b s"
  let ?s2 = "upd_buf b (\<lambda>r. r\<lparr>b_valid := True, b_dirty := False\<rparr>)
     (if \<not> b_dirty (bufs s b) then set_data b (disk s (sector (bufs s b))) (?s\<lparr>idequeue := None\<rparr>) else ?s\<lparr>idequeue := None\<rparr>)"
  have "env c {Lk_ide} ?s2" using a(2) by simp
  then obtain u where u: "wakeup c (Chan_buf b) ?s2 = Ok u" "env c {Lk_ide} u" "bsame u ?s2"
    by (rule wakeup_bsame) simp
  have b2: "bufs ?s2 = (bufs s)(b := ?r)" using q(2) by (auto simp: transferred_def Let_def fun_eq_iff)
  note r = env_release [OF u(2), of Lk_ide, simplified]
  have "ideintr c s = Ok (unlocked_by c Lk_ide u)"
    using a(1) q u r(1) by (simp add: ideintr_def Let_def bsame_def split: if_splits)
  then show ?thesis using r(2) u(3) b2 by (simp add: bsame_def split: if_splits)
qed

lemma ide_append_empty: "0 < n \<Longrightarrow> ide_append n None b s = Ok (s\<lparr>idequeue := Some b\<rparr>)"
  by (cases n) simp_all

lemma ide_wait_done: "b_valid (bufs s b) \<Longrightarrow> \<not> b_dirty (bufs s b) \<Longrightarrow> ide_wait n c b s = release c Lk_ide s"
  by (simp add: ide_wait.simps)

lemma ide_wait_once:
  assumes e: "env c {Lk_ide} s" and q: "idequeue s = Some b" "b_qnext (bufs s b) = None"
    and n: "0 < n" and p: "\<not> (b_valid (bufs s b) \<and> \<not> b_dirty (bufs s b))"
  shows "\<exists>t. ide_wait n c b s = Ok t \<and> env c {} t \<and> bframe t = bframe s \<and> idequeue t = None \<and> disk t = disk s \<and>
    dwrites t = dwrites s \<and> bufs t = (bufs s)(b := transferred b s)"
proof -
  note r = env_release [OF e, of Lk_ide, simplified]
  have tr: "transferred b (unlocked_by c Lk_ide s) = transferred b s" by (simp add: transferred_def Let_def)
  obtain u where u: "ideintr c (unlocked_by c Lk_ide s) = Ok u" "env c {} u" "bframe u = bframe s" "idequeue u = None"
    "disk u = disk s" "dwrites u = dwrites s" "bufs u = (bufs s)(b := transferred b s)"
    using ideintr_ok [OF r(2), of b] q tr by auto
  note a = env_acquire [OF u(2), of Lk_ide, simplified]
  note r' = env_release [OF a(2), of Lk_ide, simplified]
  obtain m where m: "n = Suc m" using n by (cases n) auto
  have "ide_wait m c b (locked_by c Lk_ide u) = release c Lk_ide (locked_by c Lk_ide u)"
    by (rule ide_wait_done) (simp_all add: u transferred_def Let_def)
  then have "ide_wait n c b s = Ok (unlocked_by c Lk_ide (locked_by c Lk_ide u))"
    using p r(1) u(1) a(1) r'(1) by (subst ide_wait.simps) (auto simp: m)
  then show ?thesis using r'(2) u by simp
qed

lemma iderw_ok:
  assumes e: "env c {} s" and q: "idequeue s = None" and busy: "b_busy (bufs s b)"
    and todo: "\<not> (b_valid (bufs s b) \<and> \<not> b_dirty (bufs s b))"
    and dev: "b_dev (bufs s b) = 0 \<or> havedisk1 s" and bn: "b_blockno (bufs s b) < FSSIZE"
  shows "\<exists>t. iderw c b s = Ok t \<and> env c {} t \<and> bframe t = bframe s \<and> idequeue t = None \<and>
    disk t = (if b_dirty (bufs s b) then (disk s)(sector (bufs s b) := b_data (bufs s b)) else disk s) \<and>
    dwrites t = dwrites s @ (if b_dirty (bufs s b) then [(sector (bufs s b), b_data (bufs s b))] else []) \<and>
    bufs t = (bufs s)(b := transferred b s)"
proof -
  note a = env_acquire [OF e, of Lk_ide, simplified]
  let ?r = "bufs s b"
  let ?s = "(upd_buf b (\<lambda>r. r\<lparr>b_qnext := None\<rparr>) (locked_by c Lk_ide s))\<lparr>idequeue := Some b\<rparr>"
  let ?u = "if b_dirty ?r then ?s\<lparr>disk := (disk s)(sector ?r := b_data ?r), dwrites := dwrites s @ [(sector ?r, b_data ?r)]\<rparr> else ?s"
  have sec: "sector (?r\<lparr>b_qnext := None\<rparr>) = sector ?r" by (simp add: sector_def)
  have st: "idestart (Some b) ?s = Ok ?u" using bn by (simp add: idestart_def Let_def sec)
  have NB: "0 < NBUF" by (simp add: NBUF_def)
  have eu: "env c {Lk_ide} ?u" using a(2) by simp
  have tr: "(bufs ?u)(b := transferred b ?u) = (bufs s)(b := transferred b s)"
    by (auto simp: transferred_def Let_def sec fun_eq_iff)
  have pre: "idequeue ?u = Some b" "b_qnext (bufs ?u b) = None" "\<not> (b_valid (bufs ?u b) \<and> \<not> b_dirty (bufs ?u b))"
    using todo by auto
  obtain t where t: "ide_wait NBUF c b ?u = Ok t" "env c {} t" "bframe t = bframe ?u" "idequeue t = None"
    "disk t = disk ?u" "dwrites t = dwrites ?u" "bufs t = (bufs ?u)(b := transferred b ?u)"
    using ide_wait_once [OF eu pre(1,2) NB pre(3)] by blast
  have h: "\<not> (b_dev ?r \<noteq> 0 \<and> \<not> havedisk1 s)" using dev by blast
  have "iderw c b s = ide_wait NBUF c b ?u"
    using busy todo h a(1) q st by (auto simp: iderw_def Let_def ide_append_empty [OF NB])
  then show ?thesis using t tr by simp
qed

section \<open>The cache as a view of the disk\<close>

text \<open>
  What a client of the cache sees. A block is named by device and number. \<open>view\<close> is the content of a block:
  that of its buffer when it is cached, else that on disk. \<open>held\<close> says which blocks are held, in which
  buffer; \<open>dirtyset\<close> which ones must stay in the cache until they are written.
\<close>

type_synonym bid = "uint32 \<times> uint32"

definition bkey :: "buf \<Rightarrow> bid" where
  "bkey r = (b_dev r, b_blockno r)"

definition cached :: "(nat \<Rightarrow> buf) \<Rightarrow> bid \<Rightarrow> ptr" where
  "cached B k = (if fst k < 2 then find (\<lambda>b. bkey (B b) = k) [0..<NBUF] else None)"

definition dsec :: "bid \<Rightarrow> nat \<times> uint32" where
  "dsec k = (unat (fst k), snd k)"

definition dblk :: "'a bcache_scheme \<Rightarrow> bid \<Rightarrow> block" where
  "dblk s k = disk s (dsec k)"

definition view :: "'a bcache_scheme \<Rightarrow> bid \<Rightarrow> block" where
  "view s k = (case cached (bufs s) k of Some b \<Rightarrow> b_data (bufs s b) | None \<Rightarrow> dblk s k)"

definition held :: "'a bcache_scheme \<Rightarrow> bid \<Rightarrow> ptr" where
  "held s k = (case cached (bufs s) k of Some b \<Rightarrow> if b_busy (bufs s b) then Some b else None | None \<Rightarrow> None)"

definition dirtyset :: "'a bcache_scheme \<Rightarrow> bid set" where
  "dirtyset s = {k. \<exists>b. cached (bufs s) k = Some b \<and> b_dirty (bufs s b)}"

definition blk_ok :: "'a bcache_scheme \<Rightarrow> bid \<Rightarrow> bool" where
  "blk_ok s k \<longleftrightarrow> fst k < 2 \<and> (fst k = 0 \<or> havedisk1 s) \<and> snd k < FSSIZE"

text \<open>The invariant between calls: the buffers form a ring, no block has two buffers, a buffer in use
  holds valid data, and that of a free clean buffer is what the disk holds.\<close>

definition uniq :: "(nat \<Rightarrow> buf) \<Rightarrow> bool" where
  "uniq B \<longleftrightarrow> (\<forall>i<NBUF. \<forall>j<NBUF. b_dev (B i) < 2 \<and> bkey (B i) = bkey (B j) \<longrightarrow> i = j)"

definition buf_ok :: "(nat \<times> uint32 \<Rightarrow> block) \<Rightarrow> bool \<Rightarrow> buf \<Rightarrow> bool" where
  "buf_ok D h r \<longleftrightarrow>
     (if b_dev r < 2
      then b_valid r \<and> b_blockno r < FSSIZE \<and> (b_dev r = 0 \<or> h) \<and>
        (\<not> b_busy r \<and> \<not> b_dirty r \<longrightarrow> b_data r = D (sector r))
      else \<not> b_valid r \<and> \<not> b_busy r \<and> \<not> b_dirty r)"

definition binv :: "'a bcache_scheme \<Rightarrow> bool" where
  "binv s \<longleftrightarrow> idequeue s = None \<and> (\<exists>bs. ring s bs) \<and> uniq (bufs s) \<and>
     (\<forall>b<NBUF. buf_ok (disk s) (havedisk1 s) (bufs s b))"

lemma dev_cases:
  fixes d :: uint32
  assumes "d < 2"
  shows "d = 0 \<or> d = 1"
proof -
  have "unat d < 2" using assms by (simp add: word_less_nat_alt)
  then have "unat d = 0 \<or> unat d = 1" by linarith
  then show ?thesis by (metis unat_1 unat_eq_zero word_unat_eq_iff)
qed

lemma sector_dev: "b_dev r < 2 \<Longrightarrow> sector r = (unat (b_dev r), b_blockno r)"
  using dev_cases [of "b_dev r"] by (auto simp: sector_def)

lemma dsec_inj: "dsec j = dsec k \<longleftrightarrow> j = k"
  by (auto simp: dsec_def prod_eq_iff word_unat_eq_iff)

lemma dblk_sector: "b_dev r < 2 \<Longrightarrow> dblk s (bkey r) = disk s (sector r)"
  by (simp add: dblk_def dsec_def bkey_def sector_dev)

lemma cached_SomeD: "cached B k = Some b \<Longrightarrow> b < NBUF \<and> bkey (B b) = k \<and> b_dev (B b) < 2"
  by (auto simp: cached_def find_Some_iff bkey_def split: if_splits)

lemma uniqD: "uniq B \<Longrightarrow> b_dev (B i) < 2 \<Longrightarrow> bkey (B j) = bkey (B i) \<Longrightarrow> i < NBUF \<Longrightarrow> j < NBUF \<Longrightarrow> j = i"
  unfolding uniq_def by metis

lemma cached_iff:
  assumes "uniq B"
  shows "cached B k = Some b \<longleftrightarrow> b < NBUF \<and> bkey (B b) = k \<and> b_dev (B b) < 2"
proof
  assume b: "b < NBUF \<and> bkey (B b) = k \<and> b_dev (B b) < 2"
  then have "fst k < 2" by (auto simp: bkey_def)
  moreover have "find (\<lambda>b. bkey (B b) = k) [0..<NBUF] = Some b"
    using b uniqD [OF assms, of b] by (intro find_unique) auto
  ultimately show "cached B k = Some b" by (simp add: cached_def)
qed (rule cached_SomeD)

lemma cached_cong:
  assumes "\<And>i. bkey (B' i) = bkey (B i)"
  shows "cached B' = cached B" "uniq B' = uniq B"
proof -
  have "b_dev (B' i) = b_dev (B i)" for i using assms [of i] by (simp add: bkey_def)
  then show "cached B' = cached B" "uniq B' = uniq B" by (auto simp: cached_def uniq_def assms fun_eq_iff)
qed

lemma find_first: "P x \<Longrightarrow> \<forall>y \<in> set xs. \<not> P y \<Longrightarrow> find P (xs @ x # ys) = Some x"
  by (induction xs) auto

lemma option_without: "(\<And>i. x = Some i \<longleftrightarrow> i \<noteq> b \<and> y = Some i) \<Longrightarrow> x = (if y = Some b then None else y)"
  by (metis option.exhaust)

lemma uniq_fresh:
  assumes u: "uniq B" and n: "cached B k = None" and k: "fst k < 2" "bkey r = k" and b: "b < NBUF"
  shows "uniq (B(b := r))"
    and "cached (B(b := r)) = (\<lambda>k'. if k' = k then Some b else if cached B k' = Some b then None else cached B k')"
proof -
  have no: "bkey (B i) \<noteq> k" if "i < NBUF" for i
    using n k that cached_iff [OF u, of k i] by (auto simp: bkey_def)
  have d: "b_dev r < 2" using k by (auto simp: bkey_def)
  show u': "uniq (B(b := r))"
    unfolding uniq_def fun_upd_apply using no k(2) uniqD [OF u] by metis
  show "cached (B(b := r)) = (\<lambda>k'. if k' = k then Some b else if cached B k' = Some b then None else cached B k')"
  proof
    fix k'
    have "cached (B(b := r)) k' = (if k' = k then Some b else if cached B k' = Some b then None else cached B k')"
      if e: "k' = k" using cached_iff [OF u', of k b] e k d b by simp
    moreover have "cached (B(b := r)) k' = Some i \<longleftrightarrow> i \<noteq> b \<and> cached B k' = Some i" if e: "k' \<noteq> k" for i
      unfolding cached_iff [OF u'] cached_iff [OF u] using e k(2) by simp
    ultimately show "cached (B(b := r)) k' = (if k' = k then Some b else if cached B k' = Some b then None else cached B k')"
      using option_without [of "cached (B(b := r)) k'" b "cached B k'"] by presburger
  qed
qed

lemma binvD:
  assumes "binv s"
  shows "idequeue s = None" and "\<exists>bs. ring s bs" and "uniq (bufs s)"
    and "b < NBUF \<Longrightarrow> buf_ok (disk s) (havedisk1 s) (bufs s b)"
  using assms by (auto simp: binv_def)

lemma find_cached:
  assumes r: "ring s bs" and u: "uniq (bufs s)" and d: "d < 2"
  shows "find (\<lambda>b. b_dev (bufs s b) = d \<and> b_blockno (bufs s b) = n) bs = cached (bufs s) (d, n)"
proof (cases "cached (bufs s) (d, n)")
  case None
  then have "\<not> (b_dev (bufs s b) = d \<and> b_blockno (bufs s b) = n)" if "b < NBUF" for b
    using cached_iff [OF u, of "(d, n)" b] that d by (auto simp: bkey_def)
  then have "find (\<lambda>b. b_dev (bufs s b) = d \<and> b_blockno (bufs s b) = n) bs = None"
    using r by (auto simp: find_None_iff ring_def)
  then show ?thesis using None by simp
next
  case (Some b)
  then have b: "b < NBUF" "bkey (bufs s b) = (d, n)" using cached_SomeD by blast+
  have "find (\<lambda>b. b_dev (bufs s b) = d \<and> b_blockno (bufs s b) = n) bs = Some b"
  proof (rule find_unique)
    fix j assume "j \<in> set bs"
    then have "j < NBUF" using r by (auto simp: ring_def)
    then show "b_dev (bufs s j) = d \<and> b_blockno (bufs s j) = n \<longleftrightarrow> j = b"
      using b d uniqD [OF u, of b j] by (auto simp: bkey_def)
  qed (use b r in \<open>simp add: ring_def\<close>)
  then show ?thesis using Some by simp
qed

lemma link_lock [simp]: "nextb (locked_by c l s) = nextb s" "prevb (locked_by c l s) = prevb s"
  by (simp_all add: nextb_def prevb_def fun_eq_iff)

lemma bwalk_cached:
  assumes r: "ring s bs" and "uniq (bufs s)" and "d < 2"
  shows "bwalk NBUF (nextb s) (\<lambda>b. b_dev (bufs s b) = d \<and> b_blockno (bufs s b) = n) (nextb s BHEAD) =
    Ok (cached (bufs s) (d, n))"
  using bwalk_next [of "nextb s" "prevb s" BHEAD bs NBUF] r ring_head [OF r] ring_length [OF r] find_cached [OF assms]
  by (simp add: ring_def)

lemma bwalk_lru:
  assumes r: "ring s bs"
  shows "bwalk NBUF (prevb s) P (prevb s BHEAD) = Ok (find P (rev bs))"
  using bwalk_prev [of "nextb s" "prevb s" bs BHEAD NBUF] r ring_head [OF r] ring_length [OF r]
  by (simp add: ring_def)

lemma bget_hit:
  assumes e: "env c {} s" and r: "ring s bs" and u: "uniq (bufs s)" and d: "d < 2"
    and h: "cached (bufs s) (d, n) = Some b" "\<not> b_busy (bufs s b)"
  shows "\<exists>t. bget c d n s = Ok (b, t) \<and> env c {} t \<and> bsame t (upd_buf b (\<lambda>r. r\<lparr>b_busy := True\<rparr>) s)"
proof -
  note a = env_acquire [OF e, of Lk_bcache, simplified]
  have "env c {Lk_bcache} (upd_buf b (\<lambda>r. r\<lparr>b_busy := True\<rparr>) (locked_by c Lk_bcache s))" using a(2) by simp
  note rl = env_release [OF this, of Lk_bcache, simplified]
  show ?thesis using a(1) h rl by (simp add: bget_def bsame_def bwalk_cached [OF r u d])
qed

lemma bget_miss:
  assumes e: "env c {} s" and r: "ring s bs" and u: "uniq (bufs s)" and d: "d < 2"
    and h: "cached (bufs s) (d, n) = None"
    and f: "find (\<lambda>b. \<not> b_busy (bufs s b) \<and> \<not> b_dirty (bufs s b)) (rev bs) = Some b"
  shows "\<exists>t. bget c d n s = Ok (b, t) \<and> env c {} t \<and> bsame t (upd_buf b (\<lambda>r. r\<lparr>b_dev := d, b_blockno := n,
                b_busy := True, b_valid := False, b_dirty := False\<rparr>) s)"
proof -
  note a = env_acquire [OF e, of Lk_bcache, simplified]
  let ?t = "upd_buf b (\<lambda>r. r\<lparr>b_dev := d, b_blockno := n, b_busy := True, b_valid := False, b_dirty := False\<rparr>)
    (locked_by c Lk_bcache s)"
  have "env c {Lk_bcache} ?t" using a(2) by simp
  note rl = env_release [OF this, of Lk_bcache, simplified]
  show ?thesis using a(1) h f rl by (simp add: bget_def bsame_def bwalk_cached [OF r u d] bwalk_lru [OF r])
qed

lemma bget_exhausted:
  assumes e: "env c {} s" and r: "ring s bs" and u: "uniq (bufs s)" and d: "d < 2"
    and h: "cached (bufs s) (d, n) = None" and f: "\<forall>b<NBUF. b_busy (bufs s b) \<or> b_dirty (bufs s b)"
  shows "bget c d n s = Panic ''bget: no buffers''"
proof -
  have "find (\<lambda>b. \<not> b_busy (bufs s b) \<and> \<not> b_dirty (bufs s b)) (rev bs) = None"
    using f r by (auto simp: find_None_iff ring_def)
  then show ?thesis using env_acquire(1) [OF e, of Lk_bcache] h
    by (simp add: bget_def bwalk_cached [OF r u d] bwalk_lru [OF r])
qed

section \<open>What the operations do to the view\<close>

lemma view_cong:
  assumes "bufs t = bufs s" and "disk t = disk s"
  shows "view t = view s" "held t = held s" "dirtyset t = dirtyset s"
  unfolding view_def [abs_def] held_def [abs_def] dirtyset_def dblk_def [abs_def] assms by (rule refl)+

lemma held_handle:
  assumes "held t k = Some b"
  shows "b < NBUF" "bkey (bufs t b) = k" "b_busy (bufs t b)" "b_data (bufs t b) = view t k" "cached (bufs t) k = Some b"
  using assms cached_SomeD [of "bufs t" k b] by (auto simp: held_def view_def split: option.splits if_splits)

lemma clean_buffer_exists:
  assumes i: "binv s" and room: "card (dirtyset s \<union> dom (held s)) < NBUF"
  shows "\<exists>b<NBUF. \<not> b_busy (bufs s b) \<and> \<not> b_dirty (bufs s b)"
proof (rule ccontr)
  assume no: "\<not> (\<exists>b<NBUF. \<not> b_busy (bufs s b) \<and> \<not> b_dirty (bufs s b))"
  have dev: "b_dev (bufs s b) < 2" if "b < NBUF" for b
    using no that binvD(4) [OF i that] by (auto simp: buf_ok_def split: if_splits)
  have "bkey (bufs s b) \<in> dirtyset s \<union> dom (held s)" if "b < NBUF" for b
  proof -
    have "cached (bufs s) (bkey (bufs s b)) = Some b" using cached_iff [OF binvD(3) [OF i]] dev that by simp
    then show ?thesis using no that by (auto simp: dirtyset_def held_def)
  qed
  then have "(\<lambda>b. bkey (bufs s b)) ` {..<NBUF} \<subseteq> dirtyset s \<union> dom (held s)" by blast
  moreover have "inj_on (\<lambda>b. bkey (bufs s b)) {..<NBUF}"
    using uniqD [OF binvD(3) [OF i]] dev by (auto simp: inj_on_def)
  moreover have "finite (dirtyset s \<union> dom (held s))"
  proof (rule finite_subset)
    show "dirtyset s \<union> dom (held s) \<subseteq> (\<lambda>b. bkey (bufs s b)) ` {..<NBUF}"
    proof
      fix k assume "k \<in> dirtyset s \<union> dom (held s)"
      then obtain b where "cached (bufs s) k = Some b"
        by (auto simp: dirtyset_def held_def split: option.splits)
      then have "b < NBUF \<and> bkey (bufs s b) = k" using cached_SomeD by blast
      then show "k \<in> (\<lambda>b. bkey (bufs s b)) ` {..<NBUF}" by blast
    qed
  qed simp
  ultimately have "NBUF \<le> card (dirtyset s \<union> dom (held s))"
    by (metis card_lessThan card_inj_on_le)
  then show False using room by simp
qed

text \<open>The effect on the view of changing one buffer, when it stays with its block and when it takes a block over.\<close>

lemma view_same_key:
  assumes k: "cached (bufs s) k = Some b" and r: "bkey r = k" and t: "bufs t = (bufs s)(b := r)"
    and d: "\<And>j. j \<noteq> k \<Longrightarrow> dblk t j = dblk s j" and u: "uniq (bufs s)"
  shows "uniq (bufs t)" "cached (bufs t) = cached (bufs s)" "view t = (view s)(k := b_data r)"
    "held t = (held s)(k := if b_busy r then Some b else None)"
    "dirtyset t = (if b_dirty r then insert k (dirtyset s) else dirtyset s - {k})"
proof -
  have bk: "bkey (bufs t i) = bkey (bufs s i)" for i using cached_SomeD [OF k] r t by simp
  show u': "uniq (bufs t)" using cached_cong(2) [of "bufs t" "bufs s"] bk u by simp
  show c: "cached (bufs t) = cached (bufs s)" using cached_cong(1) [of "bufs t" "bufs s"] bk by simp
  have ne: "j = k" if "cached (bufs s) j = Some b" for j using cached_SomeD [OF that] cached_SomeD [OF k] by simp
  have oth: "bufs t i = bufs s i" if "cached (bufs s) j = Some i" "j \<noteq> k" for i j using that ne [of j] t by auto
  have tb: "bufs t b = r" by (simp add: t)
  show "view t = (view s)(k := b_data r)"
  proof
    fix j show "view t j = ((view s)(k := b_data r)) j"
      using k d [of j] oth [of j] tb by (cases "j = k"; cases "cached (bufs s) j") (simp_all add: view_def c)
  qed
  show "held t = (held s)(k := if b_busy r then Some b else None)"
  proof
    fix j show "held t j = ((held s)(k := if b_busy r then Some b else None)) j"
      using k oth [of j] tb by (cases "j = k"; cases "cached (bufs s) j") (simp_all add: held_def c)
  qed
  have "j \<in> dirtyset t \<longleftrightarrow> (if j = k then b_dirty r else j \<in> dirtyset s)" for j
    using k oth [of j] tb by (cases "j = k"; cases "cached (bufs s) j") (simp_all add: dirtyset_def c)
  then show "dirtyset t = (if b_dirty r then insert k (dirtyset s) else dirtyset s - {k})"
    by (auto split: if_splits)
qed

lemma view_new_key:
  assumes i: "binv s" and n: "cached (bufs s) k = None" and b: "b < NBUF" "\<not> b_busy (bufs s b)" "\<not> b_dirty (bufs s b)"
    and r: "bkey r = k" "fst k < 2" "b_busy r" "\<not> b_dirty r" "b_data r = dblk s k"
    and t: "bufs t = (bufs s)(b := r)" "disk t = disk s"
  shows "uniq (bufs t)" "view t = view s" "held t = (held s)(k \<mapsto> b)" "dirtyset t = dirtyset s"
proof -
  note u = binvD(3) [OF i]
  note f = uniq_fresh [OF u n r(2,1) b(1)]
  show "uniq (bufs t)" using f(1) t by simp
  have old: "b_data (bufs s b) = dblk s j" if "cached (bufs s) j = Some b" for j
    using cached_SomeD [OF that] binvD(4) [OF i b(1)] b dblk_sector [of "bufs s b" s] by (auto simp: buf_ok_def)
  have db: "dblk t = dblk s" by (simp add: dblk_def [abs_def] t)
  have oth: "bufs t i = bufs s i" if "i \<noteq> b" for i using that t by auto
  have tb: "bufs t b = r" by (simp add: t)
  have nk: "cached (bufs t) j = cached (bufs s) j" if "j \<noteq> k" "cached (bufs s) j \<noteq> Some b" for j
    using that by (simp add: t(1) f(2))
  have kk: "cached (bufs t) k = Some b" by (simp add: t(1) f(2))
  have ob: "cached (bufs t) j = None" if "j \<noteq> k" "cached (bufs s) j = Some b" for j
    using that by (simp add: t(1) f(2))
  have jk: "j \<noteq> k" if "cached (bufs s) j = Some i" for i j using that n by auto
  show "view t = view s"
  proof
    fix j
    consider "j = k" | "j \<noteq> k" "cached (bufs s) j = Some b" | "j \<noteq> k" "cached (bufs s) j \<noteq> Some b" by blast
    then show "view t j = view s j"
    proof cases
      case 3
      then show ?thesis using nk [OF 3] oth by (cases "cached (bufs s) j") (auto simp: view_def db)
    qed (use old n r(5) tb kk ob in \<open>simp_all add: view_def db\<close>)
  qed
  show "held t = (held s)(k \<mapsto> b)"
  proof
    fix j
    consider "j = k" | "j \<noteq> k" "cached (bufs s) j = Some b" | "j \<noteq> k" "cached (bufs s) j \<noteq> Some b" by blast
    then show "held t j = ((held s)(k \<mapsto> b)) j"
    proof cases
      case 3
      then show ?thesis using nk [OF 3] oth by (cases "cached (bufs s) j") (auto simp: held_def)
    qed (use n r(3) b tb kk ob in \<open>simp_all add: held_def\<close>)
  qed
  have "j \<in> dirtyset t \<longleftrightarrow> j \<in> dirtyset s" for j
  proof -
    consider "j = k" | "j \<noteq> k" "cached (bufs s) j = Some b" | "j \<noteq> k" "cached (bufs s) j \<noteq> Some b" by blast
    then show ?thesis
    proof cases
      case 3
      then show ?thesis using nk [OF 3] oth by (cases "cached (bufs s) j") (auto simp: dirtyset_def)
    qed (use n r(4) b tb kk ob in \<open>simp_all add: dirtyset_def\<close>)
  qed
  then show "dirtyset t = dirtyset s" by blast
qed

text \<open>What the block operations keep: the CPU's state, the invariant, and all that is not theirs.\<close>

definition bstep :: "nat \<Rightarrow> 'a bcache_scheme \<Rightarrow> 'a bcache_scheme \<Rightarrow> bool" where
  "bstep c s t \<longleftrightarrow> env c {} t \<and> binv t \<and> bframe t = bframe s"

lemma bframe_sel:
  assumes "bframe t = bframe s"
  shows "havedisk1 t = havedisk1 s" "mem t = mem s" "bcache.more t = bcache.more s"
  using assms by (simp_all add: bframe_def)

lemma ring_links:
  assumes "\<And>i. b_next (bufs t i) = b_next (bufs s i) \<and> b_prev (bufs t i) = b_prev (bufs s i)"
  shows "ring t bs = ring s bs"
  using assms by (intro ring_cong) (simp_all add: nextb_def prevb_def fun_eq_iff)

lemma bread_hit:
  assumes e: "env c {} s" and i: "binv s" and k: "blk_ok s (d, n)" and h: "held s (d, n) = None"
    and Some: "cached (bufs s) (d, n) = Some b"
  shows "\<exists>b t. bread c d n s = Ok (b, t) \<and> bstep c s t \<and> disk t = disk s \<and> dwrites t = dwrites s \<and>
    view t = view s \<and> held t = (held s)((d, n) \<mapsto> b) \<and> dirtyset t = dirtyset s"
proof -
  obtain bs where r: "ring s bs" using binvD(2) [OF i] by blast
  note u = binvD(3) [OF i]
  have d: "d < 2" using k by (simp add: blk_ok_def)
  note cb = cached_SomeD [OF Some]
  have nb: "\<not> b_busy (bufs s b)" using h Some by (simp add: held_def split: if_splits)
  note ok = binvD(4) [OF i, of b]
  have valid: "b_valid (bufs s b)" using ok cb by (simp add: buf_ok_def)
  obtain t where t: "bget c d n s = Ok (b, t)" "env c {} t" "bsame t (upd_buf b (\<lambda>r. r\<lparr>b_busy := True\<rparr>) s)"
    using bget_hit [OF e r u d Some nb] by blast
  then have b: "bufs t = (bufs s)(b := (bufs s b)\<lparr>b_busy := True\<rparr>)" and dk: "disk t = disk s" "dwrites t = dwrites s"
    and fr: "bframe t = bframe s" "idequeue t = None" using binvD(1) [OF i] by (simp_all add: bsame_def)
  have v: "uniq (bufs t)" "view t = view s" "held t = (held s)((d, n) \<mapsto> b)" "dirtyset t = dirtyset s"
    using view_same_key [OF Some _ b, unfolded dblk_def, OF _ _ u] cb dk Some
    by (auto simp: bkey_def dirtyset_def view_def fun_upd_idem_iff split: if_splits)
  have "ring t bs = ring s bs" by (rule ring_links) (simp add: b)
  moreover have "\<forall>x<NBUF. buf_ok (disk t) (havedisk1 t) (bufs t x)"
    using binvD(4) [OF i] bframe_sel(1) [OF fr(1)] valid by (auto simp: b dk buf_ok_def)
  ultimately have "binv t" using v(1) fr r by (auto simp: binv_def)
  then show ?thesis using t v dk fr valid b by (simp add: bread_def bstep_def)
qed

lemma bread_recycles:
  assumes e: "env c {} s" and i: "binv s" and r: "ring s bs" and k: "blk_ok s (d, n)"
    and None: "cached (bufs s) (d, n) = None"
    and f: "find (\<lambda>b. \<not> b_busy (bufs s b) \<and> \<not> b_dirty (bufs s b)) (rev bs) = Some b"
  shows "\<exists>t. bread c d n s = Ok (b, t) \<and> bstep c s t \<and> disk t = disk s \<and> dwrites t = dwrites s \<and>
    view t = view s \<and> held t = (held s)((d, n) \<mapsto> b) \<and> dirtyset t = dirtyset s \<and> ring t bs"
proof -
  note u = binvD(3) [OF i]
  have d: "d < 2" using k by (simp add: blk_ok_def)
  from f have b: "b < NBUF" "\<not> b_busy (bufs s b)" "\<not> b_dirty (bufs s b)"
    using r by (auto simp: find_Some_iff ring_def) (metis length_rev lessThan_iff nth_mem set_rev)
  let ?r = "(bufs s b)\<lparr>b_dev := d, b_blockno := n, b_busy := True, b_valid := False, b_dirty := False\<rparr>"
  obtain w where w: "bget c d n s = Ok (b, w)" "env c {} w"
    "bsame w (upd_buf b (\<lambda>r. r\<lparr>b_dev := d, b_blockno := n, b_busy := True, b_valid := False, b_dirty := False\<rparr>) s)"
    using bget_miss [OF e r u d None f] by blast
  then have wb: "bufs w = (bufs s)(b := ?r)" "disk w = disk s" "dwrites w = dwrites s" "bframe w = bframe s" "idequeue w = None"
    using binvD(1) [OF i] by (simp_all add: bsame_def)
  have "havedisk1 w = havedisk1 s" using wb(4) by (rule bframe_sel)
  then obtain t where t: "iderw c b w = Ok t" "env c {} t" "bframe t = bframe w" "idequeue t = None"
    "disk t = disk w" "dwrites t = dwrites w" "bufs t = (bufs w)(b := transferred b w)"
    using iderw_ok [OF w(2) wb(5), of b] k by (auto simp: wb blk_ok_def)
  let ?q = "transferred b w"
  have q: "bkey ?q = (d, n)" "b_busy ?q" "b_valid ?q" "\<not> b_dirty ?q" "b_data ?q = dblk s (d, n)" "b_dev ?q = d" "b_blockno ?q = n"
    "b_next ?q = b_next (bufs s b)" "b_prev ?q = b_prev (bufs s b)"
    using d by (simp_all add: transferred_def wb Let_def bkey_def dblk_def dsec_def sector_dev)
  have tb: "bufs t = (bufs s)(b := ?q)" "disk t = disk s" using t wb by simp_all
  have v: "uniq (bufs t)" "view t = view s" "held t = (held s)((d, n) \<mapsto> b)" "dirtyset t = dirtyset s"
    using view_new_key [OF i None b q(1) _ q(2,4,5) tb] d by simp_all
  have rg: "ring t bs = ring s bs" by (rule ring_links) (simp add: tb q)
  have "buf_ok (disk t) (havedisk1 t) (bufs t x)" if "x < NBUF" for x
    using binvD(4) [OF i that] bframe_sel(1) [OF t(3)] bframe_sel(1) [OF wb(4)] q d k
    by (simp add: tb buf_ok_def blk_ok_def)
  then have "binv t" using v(1) t(4) r rg by (auto simp: binv_def)
  then show ?thesis using w t v wb rg r by (simp add: bread_def bstep_def)
qed

lemma bread_miss:
  assumes e: "env c {} s" and i: "binv s" and k: "blk_ok s (d, n)"
    and room: "card (dirtyset s \<union> dom (held s)) < NBUF" and None: "cached (bufs s) (d, n) = None"
  shows "\<exists>b t. bread c d n s = Ok (b, t) \<and> bstep c s t \<and> disk t = disk s \<and> dwrites t = dwrites s \<and>
    view t = view s \<and> held t = (held s)((d, n) \<mapsto> b) \<and> dirtyset t = dirtyset s"
proof -
  obtain bs where r: "ring s bs" using binvD(2) [OF i] by blast
  let ?P = "\<lambda>b. \<not> b_busy (bufs s b) \<and> \<not> b_dirty (bufs s b)"
  have "\<exists>x \<in> set (rev bs). ?P x" using clean_buffer_exists [OF i room] r by (auto simp: ring_def)
  then obtain b where f: "find ?P (rev bs) = Some b" by (metis find_None_iff not_None_eq)
  show ?thesis using bread_recycles [OF e i r k None f] by blast
qed

lemma bread_ok:
  assumes e: "env c {} s" and i: "binv s" and k: "blk_ok s (d, n)" and h: "held s (d, n) = None"
    and room: "(d, n) \<in> dirtyset s \<or> card (dirtyset s \<union> dom (held s)) < NBUF"
  shows "\<exists>b t. bread c d n s = Ok (b, t) \<and> bstep c s t \<and> disk t = disk s \<and> dwrites t = dwrites s \<and>
    view t = view s \<and> held t = (held s)((d, n) \<mapsto> b) \<and> dirtyset t = dirtyset s"
proof (cases "cached (bufs s) (d, n)")
  case None
  then have "(d, n) \<notin> dirtyset s" by (simp add: dirtyset_def)
  then show ?thesis using bread_miss [OF e i k _ None] room by blast
qed (rule bread_hit [OF e i k h])

text \<open>A client that holds a buffer may change its data, and mark it dirty.\<close>

lemma binv_held_upd:
  assumes i: "binv s" and h: "held s k = Some b"
    and f: "b_busy r" "b_valid r" "bkey r = k" "b_next r = b_next (bufs s b)" "b_prev r = b_prev (bufs s b)"
    and t: "bufs t = (bufs s)(b := r)" "havedisk1 t = havedisk1 s" "idequeue t = None"
    and d: "\<And>j. j \<noteq> k \<Longrightarrow> fst j < 2 \<Longrightarrow> dblk t j = dblk s j"
  shows "binv t"
proof -
  obtain bs where r: "ring s bs" using binvD(2) [OF i] by blast
  note hh = held_handle [OF h]
  have "ring t bs = ring s bs" by (rule ring_links) (simp add: t f)
  moreover have "uniq (bufs t)"
    using cached_cong(2) [of "bufs t" "bufs s"] binvD(3) [OF i] f(3) hh(2) by (simp add: t)
  moreover have "buf_ok (disk t) (havedisk1 t) (bufs t x)" if x: "x < NBUF" for x
  proof (cases "x = b")
    case True
    then show ?thesis using binvD(4) [OF i x] f hh(2,3) by (auto simp: t buf_ok_def bkey_def split: if_splits)
  next
    case False
    have "disk t (sector (bufs s x)) = disk s (sector (bufs s x))" if dv: "b_dev (bufs s x) < 2"
    proof -
      have "bkey (bufs s x) \<noteq> k" using uniqD [OF binvD(3) [OF i] dv, of b] False x hh by auto
      then show ?thesis using d [of "bkey (bufs s x)"] dv dblk_sector [OF dv, of t] dblk_sector [OF dv, of s] by (simp add: bkey_def)
    qed
    then show ?thesis using binvD(4) [OF i x] False by (auto simp: t buf_ok_def)
  qed
  ultimately show ?thesis using r t(3) by (auto simp: binv_def)
qed

lemma set_data_ok:
  assumes e: "env c {} s" and i: "binv s" and h: "held s k = Some b"
  shows "bstep c s (set_data b d s)" "view (set_data b d s) = (view s)(k := d)"
    "held (set_data b d s) = held s" "dirtyset (set_data b d s) = dirtyset s"
proof -
  note hh = held_handle [OF h]
  let ?t = "set_data b d s"
  have db: "dblk ?t j = dblk s j" for j by (simp add: dblk_def)
  have valid: "b_valid (bufs s b)" using binvD(4) [OF i hh(1)] hh(3) by (auto simp: buf_ok_def split: if_splits)
  have "binv ?t" using binvD(1) [OF i] hh valid
    by (intro binv_held_upd [OF i h, where r = "(bufs s b)\<lparr>b_data := d\<rparr>"]) (simp_all add: bkey_def db)
  then show "bstep c s ?t" using e by (simp add: bstep_def)
  note v = view_same_key [OF hh(5), where r = "(bufs s b)\<lparr>b_data := d\<rparr>" and t = ?t, OF _ _ db binvD(3) [OF i]]
  show "view ?t = (view s)(k := d)" using v(3) hh by (simp add: bkey_def)
  show "held ?t = held s" using v(4) hh h by (simp add: bkey_def fun_upd_idem)
  show "dirtyset ?t = dirtyset s" using v(5) hh by (auto simp: bkey_def dirtyset_def)
qed

lemma set_dirty_ok:
  assumes e: "env c {} s" and i: "binv s" and h: "held s k = Some b"
  defines "t \<equiv> upd_buf b (\<lambda>r. r\<lparr>b_dirty := True\<rparr>) s"
  shows "bstep c s t" "view t = view s" "held t = held s" "dirtyset t = insert k (dirtyset s)"
proof -
  note hh = held_handle [OF h]
  have db: "dblk t j = dblk s j" for j by (simp add: dblk_def t_def)
  have tb: "bufs t = (bufs s)(b := (bufs s b)\<lparr>b_dirty := True\<rparr>)" by (simp add: t_def)
  have valid: "b_valid (bufs s b)" using binvD(4) [OF i hh(1)] hh(3) by (auto simp: buf_ok_def split: if_splits)
  have "binv t" using binvD(1) [OF i] hh valid
    by (intro binv_held_upd [OF i h, where r = "(bufs s b)\<lparr>b_dirty := True\<rparr>"]) (simp_all add: bkey_def db tb, simp_all add: t_def)
  then show "bstep c s t" using e by (simp add: bstep_def t_def)
  note v = view_same_key [OF hh(5) _ tb db binvD(3) [OF i]]
  show "view t = view s" using v(3) hh by (simp add: bkey_def fun_upd_idem)
  show "held t = held s" using v(4) hh h by (simp add: bkey_def fun_upd_idem)
  show "dirtyset t = insert k (dirtyset s)" using v(5) hh by (simp add: bkey_def)
qed

text \<open>\<^verbatim>\<open>bwrite\<close> makes the disk agree with the buffer, in one write of the device.\<close>

lemma held_blk_ok: "binv s \<Longrightarrow> held s k = Some b \<Longrightarrow> blk_ok s k"
  using binvD(4) [of s b] held_handle [of s k b] cached_SomeD [of "bufs s" k b]
  by (auto simp: buf_ok_def blk_ok_def bkey_def)

lemma bwrite_ok:
  assumes e: "env c {} s" and i: "binv s" and h: "held s k = Some b"
  shows "\<exists>t. bwrite c b s = Ok t \<and> bstep c s t \<and> disk t = (disk s)(dsec k := view s k) \<and>
    dwrites t = dwrites s @ [(dsec k, view s k)] \<and> view t = view s \<and> held t = held s \<and> dirtyset t = dirtyset s - {k}"
proof -
  note hh = held_handle [OF h]
  note ok = held_blk_ok [OF i h, unfolded blk_ok_def]
  let ?s = "upd_buf b (\<lambda>r. r\<lparr>b_dirty := True\<rparr>) s"
  have dev: "b_dev (bufs s b) = fst k" "b_blockno (bufs s b) = snd k" using hh(2) by (auto simp: bkey_def)
  have sec: "sector ((bufs s b)\<lparr>b_dirty := True\<rparr>) = dsec k"
    using ok by (simp add: sector_dev dev dsec_def)
  obtain t where t: "iderw c b ?s = Ok t" "env c {} t" "bframe t = bframe ?s" "idequeue t = None"
    "disk t = (disk s)(dsec k := view s k)" "dwrites t = dwrites s @ [(dsec k, view s k)]"
    "bufs t = (bufs ?s)(b := transferred b ?s)"
    using iderw_ok [of c ?s b] e binvD(1) [OF i] hh ok by (auto simp: dev sec)
  let ?q = "transferred b ?s"
  have q: "b_busy ?q" "b_valid ?q" "\<not> b_dirty ?q" "bkey ?q = k" "b_data ?q = view s k"
    "b_next ?q = b_next (bufs s b)" "b_prev ?q = b_prev (bufs s b)"
    using hh by (simp_all add: transferred_def Let_def bkey_def)
  have tb: "bufs t = (bufs s)(b := ?q)" using t(7) by simp
  have db: "dblk t j = dblk s j" if "j \<noteq> k" for j
    using that by (simp add: dblk_def t(5) dsec_inj)
  have fr: "bframe t = bframe s" using t(3) by simp
  have "binv t" by (rule binv_held_upd [OF i h q(1,2,4,6,7) tb bframe_sel(1) [OF fr] t(4) db])
  moreover note v = view_same_key [OF hh(5) q(4) tb db binvD(3) [OF i]]
  moreover have "bwrite c b s = Ok t" using t(1) hh(3) by (simp add: bwrite_def)
  ultimately show ?thesis using t fr q h by (auto simp: bstep_def fun_upd_idem)
qed

text \<open>\<^verbatim>\<open>brelse\<close> gives the block up; its data must be on disk already, or pinned in the cache.\<close>

lemma brelse_ok:
  assumes e: "env c {} s" and i: "binv s" and h: "held s k = Some b" and r: "ring s bs"
    and clean: "k \<in> dirtyset s \<or> view s k = dblk s k"
  shows "\<exists>t. brelse c b s = Ok t \<and> bstep c s t \<and> ring t (b # remove1 b bs) \<and> disk t = disk s \<and> dwrites t = dwrites s \<and>
    view t = view s \<and> held t = (held s)(k := None) \<and> dirtyset t = dirtyset s"
proof -
  note hh = held_handle [OF h]
  note a = env_acquire [OF e, of Lk_bcache, simplified]
  let ?s = "bpush b (bunlink b (locked_by c Lk_bcache s))"
  let ?u = "upd_buf b (\<lambda>r. r\<lparr>b_busy := False\<rparr>) ?s"
  have "env c {Lk_bcache} ?u" using a(2) by simp
  then obtain w where w: "wakeup c (Chan_buf b) ?u = Ok w" "env c {Lk_bcache} w" "bsame w ?u"
    by (rule wakeup_bsame) simp
  note rl = env_release [OF w(2), of Lk_bcache, simplified]
  define t where "t = unlocked_by c Lk_bcache w"
  have run: "brelse c b s = Ok t" using hh(3) a(1) w(1) rl(1) by (simp add: brelse_def Let_def t_def)
  have same: "bufs t = bufs ?u" "disk t = disk s" "dwrites t = dwrites s" "idequeue t = None" "bframe t = bframe s"
    using w(3) binvD(1) [OF i] by (simp_all add: bsame_def t_def)
  have unl: "unlinked (bufs t x) = unlinked (if x = b then (bufs s b)\<lparr>b_busy := False\<rparr> else bufs s x)" for x
  proof (cases "x = b")
    case True
    have "unlinked (bufs ?s b) = unlinked (bufs s b)" by simp
    then show ?thesis using True unfolding same(1) by (simp add: unlinked_busy)
  qed (unfold same(1), simp)
  note f = unlinkedD [OF unl]
  have rg: "ring t (b # remove1 b bs)"
  proof -
    have "ring (locked_by c Lk_bcache s) bs" using r by (simp add: ring_def)
    then have "ring ?s (b # remove1 b bs)" by (rule ring_bunlink_bpush) (rule hh(1))
    moreover have "ring t (b # remove1 b bs) = ring ?s (b # remove1 b bs)"
      by (rule ring_links) (unfold same(1), simp)
    ultimately show ?thesis by simp
  qed
  have cb: "cached (bufs t) = cached (bufs s)" "uniq (bufs t) = uniq (bufs s)"
    using cached_cong [of "bufs t" "bufs s"] f(4,5) by (simp_all add: bkey_def)
  have db: "dblk t = dblk s" by (simp add: dblk_def [abs_def] same(2))
  have vw: "view t = view s" by (rule ext) (simp add: view_def cb db f(6) split: option.split)
  have "held t j = ((held s)(k := None)) j" for j
    using hh(2,5) cached_SomeD [of "bufs s" j] by (cases "cached (bufs s) j") (auto simp: held_def cb f(1))
  then have hd: "held t = (held s)(k := None)" by (rule ext)
  have ds: "dirtyset t = dirtyset s" by (auto simp: dirtyset_def cb f(3))
  have bo: "buf_ok (disk t) (havedisk1 t) (bufs t x)" if x: "x < NBUF" for x
  proof -
    have h1: "havedisk1 t = havedisk1 s" using same(5) by (rule bframe_sel)
    have se: "sector (bufs t x) = sector (bufs s x)" by (simp add: sector_def f(4,5))
    have "b_data (bufs s b) = disk s (sector (bufs s b))" if "\<not> b_dirty (bufs s b)"
      using that clean hh cached_SomeD [OF hh(5)] dblk_sector [of "bufs s b" s] by (auto simp: dirtyset_def)
    then show ?thesis using binvD(4) [OF i x] hh(3) unfolding buf_ok_def f se h1 same(2)
      by (cases "x = b") (auto split: if_splits)
  qed
  have "uniq (bufs t)" using cb(2) binvD(3) [OF i] by simp
  then have "binv t" unfolding binv_def using same(4) rg bo by blast
  then show ?thesis using run same(2,3,5) rg rl(2) [folded t_def] vw hd ds by (simp add: bstep_def)
qed

section \<open>The contract of the cache\<close>

text \<open>
  What the log relies on: \<open>read\<close> gives a handle on the current content of a block that nobody holds, as
  long as the block is pinned or fewer than \<open>cap\<close> blocks are held or pinned; the holder changes the content with \<open>put\<close>, \<open>write\<close> makes
  it durable with one write of the device, and \<open>relse\<close> gives it up.
\<close>

locale block_cache =
  fixes inv :: "'s \<Rightarrow> bool" and ok :: "'s \<Rightarrow> 'k \<Rightarrow> bool" and frame :: "'s \<Rightarrow> 'f" and cap :: nat
    and content :: "'s \<Rightarrow> 'k \<Rightarrow> 'd" and holder :: "'s \<Rightarrow> 'k \<Rightarrow> 'h option" and pinned :: "'s \<Rightarrow> 'k set"
    and stored :: "'s \<Rightarrow> 'a \<Rightarrow> 'd" and addr :: "'k \<Rightarrow> 'a" and writes :: "'s \<Rightarrow> ('a \<times> 'd) list"
    and dat :: "'s \<Rightarrow> 'h \<Rightarrow> 'd"
    and rd :: "'k \<Rightarrow> 's \<Rightarrow> ('h \<times> 's) outcome" and put :: "'h \<Rightarrow> 'd \<Rightarrow> 's \<Rightarrow> 's"
    and wr :: "'h \<Rightarrow> 's \<Rightarrow> 's outcome" and relse :: "'h \<Rightarrow> 's \<Rightarrow> 's outcome"
  assumes rd_ok: "\<lbrakk>inv s; ok s k; holder s k = None; k \<in> pinned s \<or> card (pinned s \<union> dom (holder s)) < cap\<rbrakk> \<Longrightarrow>
      \<exists>h t. rd k s = Ok (h, t) \<and> inv t \<and> frame t = frame s \<and> stored t = stored s \<and> writes t = writes s \<and>
        content t = content s \<and> holder t = (holder s)(k \<mapsto> h) \<and> pinned t = pinned s"
    and put_ok: "\<lbrakk>inv s; holder s k = Some h\<rbrakk> \<Longrightarrow> inv (put h d s) \<and> frame (put h d s) = frame s \<and>
        stored (put h d s) = stored s \<and> writes (put h d s) = writes s \<and> content (put h d s) = (content s)(k := d) \<and>
        holder (put h d s) = holder s \<and> pinned (put h d s) = pinned s"
    and wr_ok: "\<lbrakk>inv s; holder s k = Some h\<rbrakk> \<Longrightarrow>
      \<exists>t. wr h s = Ok t \<and> inv t \<and> frame t = frame s \<and> stored t = (stored s)(addr k := content s k) \<and>
        writes t = writes s @ [(addr k, content s k)] \<and> content t = content s \<and> holder t = holder s \<and>
        pinned t = pinned s - {k}"
    and relse_ok: "\<lbrakk>inv s; holder s k = Some h; k \<in> pinned s \<or> content s k = stored s (addr k)\<rbrakk> \<Longrightarrow>
      \<exists>t. relse h s = Ok t \<and> inv t \<and> frame t = frame s \<and> stored t = stored s \<and> writes t = writes s \<and>
        content t = content s \<and> holder t = (holder s)(k := None) \<and> pinned t = pinned s"
    and dat_held: "holder s k = Some h \<Longrightarrow> dat s h = content s k"
    and addr_inj: "addr j = addr k \<Longrightarrow> j = k"
    and ok_frame: "frame t = frame s \<Longrightarrow> ok t = ok s"
    and clean_content: "inv s \<Longrightarrow> holder s k = None \<Longrightarrow> k \<notin> pinned s \<Longrightarrow> content s k = stored s (addr k)"
begin

text \<open>The second half of copying a block to another one, as \<^verbatim>\<open>write_log\<close> and \<^verbatim>\<open>install_trans\<close> do.\<close>

lemma copy_tail_ok:
  assumes i: "inv s" and h: "holder s src = Some hs" "holder s dst = Some ht" and ne: "src \<noteq> dst"
    and c: "src \<in> pinned s \<or> content s src = stored s (addr src)"
  shows "\<exists>t. bnd (wr ht (put ht (dat s hs) s)) (\<lambda>s. bnd (relse hs s) (relse ht)) = Ok t \<and> inv t \<and> frame t = frame s \<and> content t = (content s)(dst := content s src) \<and>
    stored t = (stored s)(addr dst := content s src) \<and> writes t = writes s @ [(addr dst, content s src)] \<and>
    holder t = (holder s)(src := None, dst := None) \<and> pinned t = pinned s - {dst}"
proof -
  let ?d = "content s src"
  have a: "addr src \<noteq> addr dst" using ne addr_inj by blast
  let ?p = "put ht ?d s"
  have p: "inv ?p" "frame ?p = frame s" "stored ?p = stored s" "writes ?p = writes s"
    "content ?p = (content s)(dst := ?d)" "holder ?p = holder s" "pinned ?p = pinned s"
    using put_ok [OF i h(2), of ?d] by blast+
  have hp: "holder ?p dst = Some ht" using p(6) h(2) by simp
  obtain w where w: "wr ht ?p = Ok w" "inv w" "frame w = frame s" "stored w = (stored s)(addr dst := ?d)"
    "writes w = writes s @ [(addr dst, ?d)]" "content w = (content s)(dst := ?d)" "holder w = holder s"
    "pinned w = pinned s - {dst}"
    using wr_ok [OF p(1) hp] p by auto
  have hs: "holder w src = Some hs" and cs: "src \<in> pinned w \<or> content w src = stored w (addr src)"
    using w h c ne a by auto
  obtain v where v: "relse hs w = Ok v" "inv v" "frame v = frame s" "stored v = stored w" "writes v = writes w"
    "content v = content w" "holder v = (holder w)(src := None)" "pinned v = pinned w"
    using relse_ok [OF w(2) hs cs] w(3) by auto
  have ht: "holder v dst = Some ht" and cd: "dst \<in> pinned v \<or> content v dst = stored v (addr dst)"
    using v w h ne by auto
  obtain t where t: "relse ht v = Ok t" "inv t" "frame t = frame s" "stored t = stored v" "writes t = writes v"
    "content t = content v" "holder t = (holder v)(dst := None)" "pinned t = pinned v"
    using relse_ok [OF v(2) ht cd] v(3) by auto
  show ?thesis using w v t dat_held [OF h(1)] by simp
qed

lemma rd_two:
  assumes i: "inv s" and k: "ok s j" "ok s k" "j \<noteq> k" and h: "holder s j = None" "holder s k = None"
    and rj: "j \<in> pinned s \<or> card (pinned s \<union> dom (holder s)) < cap"
    and rk: "k \<in> pinned s \<or> card (insert j (pinned s \<union> dom (holder s))) < cap"
  shows "\<exists>hj hk t u. rd j s = Ok (hj, t) \<and> frame t = frame s \<and> rd k t = Ok (hk, u) \<and> inv u \<and> frame u = frame s \<and> stored u = stored s \<and>
    writes u = writes s \<and> content u = content s \<and> holder u = (holder s)(j \<mapsto> hj, k \<mapsto> hk) \<and> pinned u = pinned s"
proof -
  obtain hj t where t: "rd j s = Ok (hj, t)" "inv t" "frame t = frame s" "stored t = stored s" "writes t = writes s"
    "content t = content s" "holder t = (holder s)(j \<mapsto> hj)" "pinned t = pinned s"
    using rd_ok [OF i k(1) h(1) rj] by blast
  have "k \<in> pinned t \<or> card (pinned t \<union> dom (holder t)) < cap" using rk t by (simp add: Un_insert_right)
  moreover have "ok t k" using ok_frame [OF t(3)] k(2) by simp
  moreover have "holder t k = None" using t(7) h(2) k(3) by simp
  ultimately obtain hk u where u: "rd k t = Ok (hk, u)" "inv u" "frame u = frame t" "stored u = stored t" "writes u = writes t"
    "content u = content t" "holder u = (holder t)(k \<mapsto> hk)" "pinned u = pinned t"
    using rd_ok [OF t(2)] by blast
  then show ?thesis using t by auto
qed

end

definition bready :: "nat \<Rightarrow> 'a bcache_scheme \<Rightarrow> bool" where
  "bready c s \<longleftrightarrow> env c {} s \<and> binv s"

lemma bstep_iff: "bstep c s t \<longleftrightarrow> bready c t \<and> bframe t = bframe s"
  by (auto simp: bstep_def bready_def)

lemma view_clean:
  assumes i: "binv s" and h: "held s k = None" and d: "k \<notin> dirtyset s"
  shows "view s k = disk s (dsec k)"
proof (cases "cached (bufs s) k")
  case (Some b)
  note b = cached_SomeD [OF Some]
  have "\<not> b_busy (bufs s b)" "\<not> b_dirty (bufs s b)" using Some h d by (auto simp: held_def dirtyset_def split: if_splits)
  then show ?thesis
    using binvD(4) [OF i, of b] b Some dblk_sector [of "bufs s b" s] by (auto simp: view_def buf_ok_def dblk_def)
qed (simp add: view_def dblk_def)

interpretation bc: block_cache "bready c" blk_ok bframe NBUF view held dirtyset disk dsec dwrites
  "\<lambda>s h. b_data (bufs s h)" "\<lambda>(d, n). bread c d n" set_data "bwrite c" "brelse c"
  for c :: nat
proof unfold_locales
  fix s :: "'a bcache_scheme" and t :: "'a bcache_scheme" and h j k d
  show "\<exists>h t. (case k of (d, n) \<Rightarrow> bread c d n) s = Ok (h, t) \<and> bready c t \<and> bframe t = bframe s \<and> disk t = disk s \<and>
     dwrites t = dwrites s \<and> view t = view s \<and> held t = (held s)(k \<mapsto> h) \<and> dirtyset t = dirtyset s"
    if "bready c s" "blk_ok s k" "held s k = None" "k \<in> dirtyset s \<or> card (dirtyset s \<union> dom (held s)) < NBUF"
    using that bread_ok [of c s "fst k" "snd k"] by (cases k) (auto simp: bready_def bstep_def)
  show "bready c (set_data h d s) \<and> bframe (set_data h d s) = bframe s \<and> disk (set_data h d s) = disk s \<and>
     dwrites (set_data h d s) = dwrites s \<and> view (set_data h d s) = (view s)(k := d) \<and>
     held (set_data h d s) = held s \<and> dirtyset (set_data h d s) = dirtyset s"
    if "bready c s" "held s k = Some h"
    using that set_data_ok [of c s k h d] by (simp add: bready_def bstep_def)
  show "\<exists>t. bwrite c h s = Ok t \<and> bready c t \<and> bframe t = bframe s \<and> disk t = (disk s)(dsec k := view s k) \<and>
     dwrites t = dwrites s @ [(dsec k, view s k)] \<and> view t = view s \<and> held t = held s \<and> dirtyset t = dirtyset s - {k}"
    if "bready c s" "held s k = Some h"
    using that bwrite_ok [of c s k h] by (simp add: bready_def bstep_def)
  show "\<exists>t. brelse c h s = Ok t \<and> bready c t \<and> bframe t = bframe s \<and> disk t = disk s \<and> dwrites t = dwrites s \<and>
     view t = view s \<and> held t = (held s)(k := None) \<and> dirtyset t = dirtyset s"
    if a: "bready c s" "held s k = Some h" "k \<in> dirtyset s \<or> view s k = disk s (dsec k)"
  proof -
    obtain bs where "ring s bs" using a(1) binvD(2) by (auto simp: bready_def)
    then show ?thesis using a brelse_ok [of c s k h bs] by (auto simp: bready_def bstep_def dblk_def)
  qed
  show "b_data (bufs s h) = view s k" if "held s k = Some h" using held_handle(4) [OF that] .
  show "j = k" if "dsec j = dsec k" using that dsec_inj by blast
  show "blk_ok t = blk_ok s" if "bframe t = bframe s" using bframe_sel(1) [OF that] by (simp add: blk_ok_def fun_eq_iff)
  show "view s k = disk s (dsec k)" if "bready c s" "held s k = None" "k \<notin> dirtyset s"
    using that view_clean [of s k] by (simp add: bready_def)
qed

section \<open>Initialisation\<close>

text \<open>The state \<^verbatim>\<open>binit\<close> starts from: the buffers as the loader left them, all zero.\<close>

definition zero_buf :: buf where
  "zero_buf = \<lparr>b_busy = False, b_valid = False, b_dirty = False, b_dev = 0, b_blockno = 0, b_prev = 0, b_next = 0,
     b_qnext = None, b_data = (\<lambda>_. 0)\<rparr>"

lemma binit_step_ring:
  assumes "dseg (nextb s) (prevb s) BHEAD xs BHEAD" and "distinct (BHEAD # xs)" and "b \<notin> set (BHEAD # xs)"
  shows "dseg (nextb (binit_step b s)) (prevb (binit_step b s)) BHEAD (b # xs) BHEAD"
proof -
  have "nextb (binit_step b s) = (nextb s)(b := nextb s BHEAD, BHEAD := b)"
    "prevb (binit_step b s) = ((prevb s)(b := BHEAD))(nextb s BHEAD := b)"
    using assms(3) by (auto simp: binit_step_def Let_def link_upd fun_eq_iff nextb_def prevb_def)
  then show ?thesis using dseg_insert [OF assms] by simp
qed

lemma binit_step_keep:
  "b \<noteq> BHEAD \<Longrightarrow> unlinked (bufs (binit_step b s) i) = (if i = b then (unlinked (bufs s b))\<lparr>b_dev := - 1\<rparr> else unlinked (bufs s i))"
  by (simp add: binit_step_def Let_def unlinked_def)

lemma binit_step_rest [simp]:
  "idequeue (binit_step b s) = idequeue s" "havedisk1 (binit_step b s) = havedisk1 s" "disk (binit_step b s) = disk s"
  "dwrites (binit_step b s) = dwrites s" "bframe (binit_step b s) = bframe s" "env c L (binit_step b s) = env c L s"
  by (simp_all add: binit_step_def Let_def)

lemma binit_loop:
  assumes s: "\<forall>i. unlinked (bufs s i) = unlinked zero_buf" and h: "nextb s BHEAD = BHEAD" "prevb s BHEAD = BHEAD"
    and n: "n \<le> NBUF"
  defines "t \<equiv> fold binit_step [0..<n] s"
  shows "dseg (nextb t) (prevb t) BHEAD (rev [0..<n]) BHEAD \<and>
    (\<forall>i. unlinked (bufs t i) = (if i < n then (unlinked zero_buf)\<lparr>b_dev := - 1\<rparr> else unlinked zero_buf)) \<and>
    idequeue t = idequeue s \<and> disk t = disk s \<and> dwrites t = dwrites s \<and> bframe t = bframe s \<and> (env c L t \<longleftrightarrow> env c L s)"
  using n unfolding t_def
proof (induction n)
  case 0
  then show ?case using s h by simp
next
  case (Suc n)
  let ?u = "fold binit_step [0..<n] s"
  have n: "n \<noteq> BHEAD" using Suc.prems by (simp add: BHEAD_def)
  have "dseg (nextb (binit_step n ?u)) (prevb (binit_step n ?u)) BHEAD (n # rev [0..<n]) BHEAD"
    using Suc by (intro binit_step_ring) (auto simp: BHEAD_def)
  moreover have "unlinked (bufs (binit_step n ?u) i) =
      (if i < Suc n then (unlinked zero_buf)\<lparr>b_dev := - 1\<rparr> else unlinked zero_buf)" for i
    using Suc n by (auto simp: binit_step_keep)
  ultimately show ?case using Suc by simp
qed

definition boot_ok :: "nat \<Rightarrow> 'a bcache_scheme \<Rightarrow> bool" where
  "boot_ok c s \<longleftrightarrow> env c {} s \<and> bufs s = (\<lambda>_. zero_buf) \<and> idequeue s = None"

lemma env_initlock: "env c {} s \<Longrightarrow> env c {} (initlock l nm s)"
proof -
  have "lock_free k (initlock l nm s) \<longleftrightarrow> k = l \<or> lock_free k s" for k
    by (auto simp: lock_free_def initlock_def upd_lock_def)
  moreover have "pinv (initlock l nm s) = pinv s"
    by (rule ext, rule pinv_cong) (simp_all add: initlock_def upd_lock_def nxt_def fun_eq_iff)
  moreover have "cpus (initlock l nm s) = cpus s" by (simp add: initlock_def upd_lock_def)
  moreover assume "env c {} s"
  ultimately show "env c {} (initlock l nm s)" by (simp add: env_def)
qed

lemma initlock_sel [simp]:
  "bufs (initlock l nm s) = bufs s" "idequeue (initlock l nm s) = idequeue s" "disk (initlock l nm s) = disk s"
  "dwrites (initlock l nm s) = dwrites s" "bframe (initlock l nm s) = bframe s"
  by (simp_all add: initlock_def upd_lock_def bframe_def)

lemma binit_ok:
  assumes b: "boot_ok c s"
  shows "bready c (binit s)" "ring (binit s) (rev [0..<NBUF])" "cached (bufs (binit s)) k = None"
    "disk (binit s) = disk s" "dwrites (binit s) = dwrites s" "bframe (binit s) = bframe s"
proof -
  let ?s = "upd_buf BHEAD (\<lambda>r. r\<lparr>b_prev := BHEAD, b_next := BHEAD\<rparr>) (initlock Lk_bcache ''bcache'' s)"
  define t where "t = binit s"
  have t: "t = fold binit_step [0..<NBUF] ?s" by (simp add: t_def binit_def Let_def)
  have z: "\<forall>i. unlinked (bufs ?s i) = unlinked zero_buf" using b by (simp add: boot_ok_def unlinked_def)
  have e: "env c {} ?s" using b env_initlock by (auto simp: boot_ok_def)
  note l = binit_loop [OF z _ _ order_refl, of c "{}", folded t]
  have l: "dseg (nextb t) (prevb t) BHEAD (rev [0..<NBUF]) BHEAD" "env c {} t" "idequeue t = None" "disk t = disk s"
    "dwrites t = dwrites s" "bframe t = bframe s"
    "\<And>i. unlinked (bufs t i) = (if i < NBUF then (unlinked zero_buf)\<lparr>b_dev := - 1\<rparr> else unlinked zero_buf)"
    using l e b by (auto simp: nextb_def prevb_def boot_ok_def)
  show r: "ring (binit s) (rev [0..<NBUF])" using l(1) by (auto simp: ring_def t_def)
  have f: "b_dev (bufs t i) = - 1" "\<not> b_busy (bufs t i)" "\<not> b_valid (bufs t i)" "\<not> b_dirty (bufs t i)" if "i < NBUF" for i
  proof -
    have "unlinked (bufs t i) = unlinked (zero_buf\<lparr>b_dev := - 1\<rparr>)" using l(7) [of i] that by (simp add: unlinked_def)
    from unlinkedD [OF this] show "b_dev (bufs t i) = - 1" "\<not> b_busy (bufs t i)" "\<not> b_valid (bufs t i)" "\<not> b_dirty (bufs t i)"
      by (simp_all add: zero_buf_def)
  qed
  have nd: "\<not> b_dev (bufs t i) < 2" if "i < NBUF" for i using f(1) [OF that] by simp
  have "uniq (bufs t)" using nd by (auto simp: uniq_def)
  moreover have "buf_ok (disk t) (havedisk1 t) (bufs t i)" if "i < NBUF" for i using f [OF that] by (simp add: buf_ok_def)
  ultimately have "binv t" using l(3) r by (auto simp: binv_def t_def)
  then show "bready c (binit s)" using l(2) by (simp add: bready_def t_def)
  show "cached (bufs (binit s)) k = None" using nd cached_SomeD [of "bufs t" k] by (cases "cached (bufs t) k") (auto simp: t_def)
  show "disk (binit s) = disk s" "dwrites (binit s) = dwrites s" "bframe (binit s) = bframe s" using l by (simp_all add: t_def)
qed

section \<open>Properties\<close>

text \<open>C7: \<^verbatim>\<open>bread\<close> of a block that nobody holds returns a buffer that the caller alone holds, with the
  current content of the block (the cached copy if there is one, else the disk's), and leaves all other
  blocks as they are; the invariant that no block has two buffers is kept.\<close>

theorem bread_returns_current_block:
  assumes "env c {} s" and "binv s" and "blk_ok s (d, n)" and "held s (d, n) = None"
    and "card (dirtyset s \<union> dom (held s)) < NBUF"
  shows "\<exists>b t. bread c d n s = Ok (b, t) \<and> env c {} t \<and> binv t \<and> b < NBUF \<and> b_busy (bufs t b) \<and>
    b_dev (bufs t b) = d \<and> b_blockno (bufs t b) = n \<and> b_data (bufs t b) = view s (d, n) \<and>
    view t = view s \<and> held t = (held s)((d, n) \<mapsto> b) \<and> dirtyset t = dirtyset s \<and> disk t = disk s"
proof -
  obtain b t where t: "bread c d n s = Ok (b, t)" "bstep c s t" "disk t = disk s"
    "view t = view s" "held t = (held s)((d, n) \<mapsto> b)" "dirtyset t = dirtyset s"
    using bread_ok [OF assms(1-4)] assms(5) by blast
  note h = held_handle [of t "(d, n)" b]
  show ?thesis using t h by (auto simp: bstep_def bkey_def)
qed


text \<open>C24: data that is stored in a buffer and written with \<^verbatim>\<open>bwrite\<close> survives a restart: on a machine that
  boots with that disk, \<^verbatim>\<open>bread\<close> of the block returns it.\<close>

theorem written_block_survives_reboot:
  assumes "bready c s" and "blk_ok s (d, n)" and "held s (d, n) = None" and "card (dirtyset s \<union> dom (held s)) < NBUF"
    and "boot_ok c' s'" and "havedisk1 s' = havedisk1 s"
  shows "\<exists>b t. bnd (bread c d n s) (\<lambda>(b, s). bnd (bwrite c b (set_data b v s)) (brelse c b)) = Ok t \<and>
    (\<exists>u. bread c' d n (binit (s'\<lparr>disk := disk t\<rparr>)) = Ok (b, u) \<and> b_data (bufs u b) = v)"
proof -
  have k: "(case (d, n) of (d, n) \<Rightarrow> bread c d n) s = bread c d n s" by simp
  obtain b t1 where t1: "bread c d n s = Ok (b, t1)" "bready c t1" "held t1 = (held s)((d, n) \<mapsto> b)"
    using bc.rd_ok [OF assms(1-3)] assms(4) by auto
  let ?p = "set_data b v t1"
  have h1: "held t1 (d, n) = Some b" using t1 by simp
  have p: "bready c ?p" "view ?p (d, n) = v" "held ?p (d, n) = Some b"
    using bc.put_ok [OF t1(2) h1, of v] h1 by auto
  obtain t2 where t2: "bwrite c b ?p = Ok t2" "bready c t2" "disk t2 (dsec (d, n)) = v" "view t2 (d, n) = v"
    "held t2 (d, n) = Some b"
    using bc.wr_ok [OF p(1,3)] p by auto
  obtain t where t: "brelse c b t2 = Ok t" "disk t = disk t2"
    using bc.relse_ok [OF t2(2,5)] t2 by auto
  let ?s = "s'\<lparr>disk := disk t\<rparr>"
  have "boot_ok c' ?s" using assms(5) by (simp add: boot_ok_def)
  note i = binit_ok [OF this]
  have hv: "havedisk1 (binit ?s) = havedisk1 s" using bframe_sel(1) [OF i(6)] assms(6) by simp
  have none: "held (binit ?s) = Map.empty" "dirtyset (binit ?s) = {}"
    using i(3) by (auto simp: held_def dirtyset_def)
  have ok: "blk_ok (binit ?s) (d, n)" using assms(2) hv by (simp add: blk_ok_def)
  have vw: "view (binit ?s) (d, n) = v" using i(3,4) t(2) t2(3) by (simp add: view_def dblk_def)
  obtain b' u where u: "bread c' d n (binit ?s) = Ok (b', u)" "view u = view (binit ?s)" "held u (d, n) = Some b'"
    using bc.rd_ok [OF i(1) ok] none by (auto simp: NBUF_def)
  have "b_data (bufs u b') = v" using held_handle(4) [OF u(3)] u(2) vw by simp
  moreover have "bnd (bread c d n s) (\<lambda>(b, s). bnd (bwrite c b (set_data b v s)) (brelse c b)) = Ok t"
    using t1 t2 t by simp
  ultimately show ?thesis using u(1) by blast
qed

section \<open>Witnesses\<close>

definition demo_boot :: bcache where
  "demo_boot = kmem.extend demo_kmem
     \<lparr>bufs = (\<lambda>_. zero_buf), idequeue = None, havedisk1 = True, disk = (\<lambda>_ _. 0), dwrites = []\<rparr>"

lemma env_demo: "locks s = locks demo_kmem \<Longrightarrow> cpus s = cpus demo_kmem \<Longrightarrow> procs s = procs demo_kmem \<Longrightarrow>
  heads s = heads demo_kmem \<Longrightarrow> tails s = tails demo_kmem \<Longrightarrow> env c {} s"
proof -
  assume a: "locks s = locks demo_kmem" "cpus s = cpus demo_kmem" "procs s = procs demo_kmem"
    "heads s = heads demo_kmem" "tails s = tails demo_kmem"
  have "pinv (mk_tab (\<lambda>_. blank_proc)) (qs_of (\<lambda>_. blank_proc))" by (rule pinv_mk_tab) (simp add: blank_proc_def)
  moreover have "pinv s qs = pinv (mk_tab (\<lambda>_. blank_proc)) qs" for qs
    by (rule pinv_cong) (simp_all add: a demo_kmem_def ptab.defs nxt_def fun_eq_iff)
  ultimately have "\<exists>qs. pinv s qs" by blast
  then show "env c {} s" by (simp add: env_def a lock_free_def idle_cpu_def)
qed

lemma boot_demo: "boot_ok c demo_boot"
  unfolding boot_ok_def by (intro conjI env_demo) (simp_all add: demo_boot_def kmem.defs)

lemma demo_boot_sel [simp]: "havedisk1 demo_boot" "disk demo_boot = (\<lambda>_ _. 0)"
  by (simp_all add: demo_boot_def kmem.defs)

lemma havedisk1_demo [simp]: "havedisk1 (binit demo_boot)"
  using bframe_sel(1) [OF binit_ok(6) [OF boot_demo]] by simp

lemma demo_cache:
  "env 0 {} (binit demo_boot)" "binv (binit demo_boot)" "ring (binit demo_boot) (rev [0..<NBUF])"
  "blk_ok (binit demo_boot) (1, 5)" "cached (bufs (binit demo_boot)) (1, 5) = None" "held (binit demo_boot) = Map.empty"
  "dirtyset (binit demo_boot) = {}" "view (binit demo_boot) k = (\<lambda>_. 0)"
  using binit_ok [OF boot_demo [of 0]]
  by (auto simp: bready_def blk_ok_def FSSIZE_def held_def dirtyset_def view_def dblk_def)

theorem bread_returns_current_block_witness:
  "\<exists>b t. bread 0 1 5 (binit demo_boot) = Ok (b, t) \<and> env 0 {} t \<and> binv t \<and> b < NBUF \<and> b_busy (bufs t b) \<and>
    b_dev (bufs t b) = 1 \<and> b_blockno (bufs t b) = 5 \<and> b_data (bufs t b) = (\<lambda>_. 0) \<and> dirtyset t = {}"
  using bread_returns_current_block [OF demo_cache(1,2,4)] demo_cache(6,7,8) by (auto simp: NBUF_def)


theorem written_block_survives_reboot_witness:
  "\<exists>b t u. bnd (bread 0 1 5 (binit demo_boot)) (\<lambda>(b, s). bnd (bwrite 0 b (set_data b (\<lambda>_. 7) s)) (brelse 0 b)) = Ok t \<and>
    bread 0 1 5 (binit (demo_boot\<lparr>disk := disk t\<rparr>)) = Ok (b, u) \<and> b_data (bufs u b) = (\<lambda>_. 7)"
proof -
  have "bready 0 (binit demo_boot)" by (rule binit_ok(1) [OF boot_demo])
  from written_block_survives_reboot [OF this demo_cache(4) _ _ boot_demo, of "\<lambda>_. 7"]
  show ?thesis using demo_cache(6,7) by (auto simp: NBUF_def)
qed

end
