(* ===== verification/Log.thy ===== *)
theory Log
  imports Bio
begin

text \<open>
  The redo log, \<^verbatim>\<open>src/log.c\<close>, with \<^verbatim>\<open>readsb\<close> of \<^verbatim>\<open>src/fs.c\<close>. The in-memory header \<^verbatim>\<open>log.lh\<close> is the pair
  \<open>lg_n\<close>, \<open>lg_block\<close>. A process that would sleep on the log (a commit is running, or the log may overflow)
  does not return (\<open>Spin\<close>). Words inside a block are little-endian at a byte offset.
\<close>

section \<open>Definitions\<close>

definition MAXOPBLOCKS :: nat where "MAXOPBLOCKS = 10"
definition LOGSIZE :: nat where "LOGSIZE = MAXOPBLOCKS * 3"

definition blk_rd32 :: "block \<Rightarrow> nat \<Rightarrow> uint32" where
  "blk_rd32 d i = ucast (d i) OR push_bit 8 (ucast (d (i + 1))) OR push_bit 16 (ucast (d (i + 2)))
     OR push_bit 24 (ucast (d (i + 3)))"

definition blk_wr32 :: "nat \<Rightarrow> uint32 \<Rightarrow> block \<Rightarrow> block" where
  "blk_wr32 i w d = d(i := ucast w, i + 1 := ucast (drop_bit 8 w), i + 2 := ucast (drop_bit 16 w),
     i + 3 := ucast (drop_bit 24 w))"

record superblock =
  sb_size :: uint32
  sb_nblocks :: uint32
  sb_ninodes :: uint32
  sb_nlog :: uint32
  sb_logstart :: uint32
  sb_inodestart :: uint32
  sb_bmapstart :: uint32

definition sb_of :: "block \<Rightarrow> superblock" where
  "sb_of d = \<lparr>sb_size = blk_rd32 d 0, sb_nblocks = blk_rd32 d 4, sb_ninodes = blk_rd32 d 8, sb_nlog = blk_rd32 d 12,
     sb_logstart = blk_rd32 d 16, sb_inodestart = blk_rd32 d 20, sb_bmapstart = blk_rd32 d 24\<rparr>"

definition readsb :: "nat \<Rightarrow> uint32 \<Rightarrow> 'a bcache_scheme \<Rightarrow> (superblock \<times> 'a bcache_scheme) outcome" where
  "readsb c dev s =
     bnd (bread c dev 1 s) (\<lambda>(bp, s).
     let sb = sb_of (b_data (bufs s bp))
     in bnd (brelse c bp s) (\<lambda>s. Ok (sb, s)))"

record logst = bcache +
  lg_start :: uint32
  lg_size :: int
  lg_outstanding :: int
  lg_committing :: bool
  lg_dev :: uint32
  lg_n :: int
  lg_block :: "nat \<Rightarrow> uint32"

definition log_blk :: "'a logst_scheme \<Rightarrow> nat \<Rightarrow> uint32" where
  "log_blk s i = lg_start s + of_nat i + 1"

definition install_one :: "nat \<Rightarrow> nat \<Rightarrow> 'a logst_scheme \<Rightarrow> 'a logst_scheme outcome" where
  "install_one c i s =
     bnd (bread c (lg_dev s) (log_blk s i) s) (\<lambda>(lbuf, s).
     bnd (bread c (lg_dev s) (lg_block s i) s) (\<lambda>(dbuf, s).
     let s = set_data dbuf (b_data (bufs s lbuf)) s
     in bnd (bwrite c dbuf s) (\<lambda>s.
        bnd (brelse c lbuf s) (brelse c dbuf))))"

definition install_trans :: "nat \<Rightarrow> 'a logst_scheme \<Rightarrow> 'a logst_scheme outcome" where
  "install_trans c s = for_each (install_one c) [0..<nat (lg_n s)] s"

text \<open>The header as it lies in its block: the count, then the block numbers.\<close>

definition head_n :: "block \<Rightarrow> int" where
  "head_n d = sint (blk_rd32 d 0)"

definition head_block :: "block \<Rightarrow> nat \<Rightarrow> uint32" where
  "head_block d i = blk_rd32 d (4 + 4 * i)"

definition read_head :: "nat \<Rightarrow> 'a logst_scheme \<Rightarrow> 'a logst_scheme outcome" where
  "read_head c s =
     bnd (bread c (lg_dev s) (lg_start s) s) (\<lambda>(b, s).
     let lh = b_data (bufs s b); s = s\<lparr>lg_n := head_n lh\<rparr>
     in if int LOGSIZE < lg_n s then Fault
        else brelse c b (s\<lparr>lg_block := (\<lambda>i. if int i < lg_n s then head_block lh i else lg_block s i)\<rparr>))"

fun put_blocks :: "(nat \<Rightarrow> uint32) \<Rightarrow> nat \<Rightarrow> block \<Rightarrow> block" where
  "put_blocks f 0 d = d"
| "put_blocks f (Suc n) d = blk_wr32 (4 + 4 * n) (f n) (put_blocks f n d)"

definition put_head :: "int \<Rightarrow> (nat \<Rightarrow> uint32) \<Rightarrow> block \<Rightarrow> block" where
  "put_head n f d = put_blocks f (nat n) (blk_wr32 0 (of_int n) d)"

definition write_head :: "nat \<Rightarrow> 'a logst_scheme \<Rightarrow> 'a logst_scheme outcome" where
  "write_head c s =
     bnd (bread c (lg_dev s) (lg_start s) s) (\<lambda>(b, s).
     bnd (bwrite c b (set_data b (put_head (lg_n s) (lg_block s) (b_data (bufs s b))) s)) (brelse c b))"

definition recover_from_log :: "nat \<Rightarrow> 'a logst_scheme \<Rightarrow> 'a logst_scheme outcome" where
  "recover_from_log c s =
     bnd (read_head c s) (\<lambda>s.
     bnd (install_trans c s) (\<lambda>s. write_head c (s\<lparr>lg_n := 0\<rparr>)))"

definition initlog :: "nat \<Rightarrow> uint32 \<Rightarrow> 'a logst_scheme \<Rightarrow> 'a logst_scheme outcome" where
  "initlog c dev s =
     (if 4 + 4 * LOGSIZE \<ge> BSIZE then Panic ''initlog: too big logheader''
      else
        let s = initlock Lk_log ''log'' s
        in bnd (readsb c dev s) (\<lambda>(sb, s).
           recover_from_log c (s\<lparr>lg_start := sb_logstart sb, lg_size := sint (sb_nlog sb), lg_dev := dev\<rparr>)))"

definition begin_op :: "nat \<Rightarrow> 'a logst_scheme \<Rightarrow> 'a logst_scheme outcome" where
  "begin_op c s =
     bnd (acquire c Lk_log s) (\<lambda>s.
     if lg_committing s then Spin
     else if lg_n s + (lg_outstanding s + 1) * int MAXOPBLOCKS > int LOGSIZE then Spin
     else release c Lk_log (s\<lparr>lg_outstanding := lg_outstanding s + 1\<rparr>))"

definition write_log_one :: "nat \<Rightarrow> nat \<Rightarrow> 'a logst_scheme \<Rightarrow> 'a logst_scheme outcome" where
  "write_log_one c i s =
     bnd (bread c (lg_dev s) (log_blk s i) s) (\<lambda>(to, s).
     bnd (bread c (lg_dev s) (lg_block s i) s) (\<lambda>(frm, s).
     let s = set_data to (b_data (bufs s frm)) s
     in bnd (bwrite c to s) (\<lambda>s.
        bnd (brelse c frm s) (brelse c to))))"

definition write_log :: "nat \<Rightarrow> 'a logst_scheme \<Rightarrow> 'a logst_scheme outcome" where
  "write_log c s = for_each (write_log_one c) [0..<nat (lg_n s)] s"

definition commit :: "nat \<Rightarrow> 'a logst_scheme \<Rightarrow> 'a logst_scheme outcome" where
  "commit c s =
     (if lg_n s > 0
      then bnd (write_log c s) (\<lambda>s.
           bnd (write_head c s) (\<lambda>s.
           bnd (install_trans c s) (\<lambda>s. write_head c (s\<lparr>lg_n := 0\<rparr>))))
      else Ok s)"

definition end_op :: "nat \<Rightarrow> 'a logst_scheme \<Rightarrow> 'a logst_scheme outcome" where
  "end_op c s =
     bnd (acquire c Lk_log s) (\<lambda>s.
     let s = s\<lparr>lg_outstanding := lg_outstanding s - 1\<rparr>
     in if lg_committing s then Panic ''log.committing''
        else if lg_outstanding s = 0
        then
          bnd (release c Lk_log (s\<lparr>lg_committing := True\<rparr>)) (\<lambda>s.
          bnd (commit c s) (\<lambda>s.
          bnd (acquire c Lk_log s) (\<lambda>s.
          bnd (wakeup c Chan_log (s\<lparr>lg_committing := False\<rparr>)) (release c Lk_log))))
        else bnd (wakeup c Chan_log s) (release c Lk_log))"

text \<open>The slot that \<^verbatim>\<open>log_write\<close> uses: the one that already has the block, else a new one.\<close>

definition log_slot :: "uint32 \<Rightarrow> 'a logst_scheme \<Rightarrow> nat" where
  "log_slot bn s = length (takeWhile (\<lambda>i. lg_block s i \<noteq> bn) [0..<nat (lg_n s)])"

definition log_write :: "nat \<Rightarrow> nat \<Rightarrow> 'a logst_scheme \<Rightarrow> 'a logst_scheme outcome" where
  "log_write c b s =
     (if lg_n s \<ge> int LOGSIZE \<or> lg_n s \<ge> lg_size s - 1 then Panic ''too big a transaction''
      else if lg_outstanding s < 1 then Panic ''log_write outside of trans''
      else
        bnd (acquire c Lk_log s) (\<lambda>s.
        let i = log_slot (b_blockno (bufs s b)) s;
            s = s\<lparr>lg_block := (lg_block s)(i := b_blockno (bufs s b))\<rparr>;
            s = (if int i = lg_n s then s\<lparr>lg_n := lg_n s + 1\<rparr> else s)
        in release c Lk_log (upd_buf b (\<lambda>r. r\<lparr>b_dirty := True\<rparr>) s)))"

section \<open>Sequences of block writes\<close>

definition upd_all :: "('k \<times> 'v) list \<Rightarrow> ('k \<Rightarrow> 'v) \<Rightarrow> 'k \<Rightarrow> 'v" where
  "upd_all ws m = fold (\<lambda>(k, v) m. m(k := v)) ws m"

lemma upd_all_simps [simp]:
  "upd_all [] m = m" "upd_all ((k, v) # ws) m = upd_all ws (m(k := v))"
  "upd_all (ws @ ws') m = upd_all ws' (upd_all ws m)"
  by (simp_all add: upd_all_def)

lemma upd_all_other: "k \<notin> fst ` set ws \<Longrightarrow> upd_all ws m k = m k"
proof (induction ws arbitrary: m)
  case (Cons w ws)
  then show ?case by (cases w) simp
qed simp

lemma upd_all_map_other:
  assumes "\<And>i. i < n \<Longrightarrow> a i \<noteq> k"
  shows "upd_all (map (\<lambda>i. (a i, v i)) [0..<n]) m k = m k"
proof (rule upd_all_other)
  have "a ` {..<n} \<inter> {k} = {}" using assms by blast
  then show "k \<notin> fst ` set (map (\<lambda>i. (a i, v i)) [0..<n])" by (auto simp: image_image lessThan_atLeast0)
qed

lemma upd_all_map:
  assumes "i < n" and "inj_on a {..<n}"
  shows "upd_all (map (\<lambda>i. (a i, v i)) [0..<n]) m (a i) = v i"
  using assms
proof (induction n)
  case (Suc n)
  then show ?case by (cases "i = n") (auto simp: inj_on_def)
qed simp

context block_cache
begin

lemma copy_loop:
  fixes src dst :: "nat \<Rightarrow> 'k"
  assumes step: "\<And>i t. \<lbrakk>i < N; inv t; frame t = frame s; holder t = Map.empty; pinned t = pinned s - dst ` {..<i};
      content t = upd_all (map (\<lambda>i. (dst i, content s (src i))) [0..<i]) (content s)\<rbrakk> \<Longrightarrow>
      \<exists>u. f i t = Ok u \<and> inv u \<and> frame u = frame t \<and> holder u = Map.empty \<and>
        content u = (content t)(dst i := content t (src i)) \<and> stored u = (stored t)(addr (dst i) := content t (src i)) \<and>
        writes u = writes t @ [(addr (dst i), content t (src i))] \<and> pinned u = pinned t - {dst i}"
    and i: "inv s" "holder s = Map.empty" and d: "\<And>i j. i < N \<Longrightarrow> j < N \<Longrightarrow> src i \<noteq> dst j" and n: "n \<le> N"
  shows "\<exists>t. for_each f [0..<n] s = Ok t \<and> inv t \<and> frame t = frame s \<and> holder t = Map.empty \<and>
    pinned t = pinned s - dst ` {..<n} \<and>
    content t = upd_all (map (\<lambda>i. (dst i, content s (src i))) [0..<n]) (content s) \<and>
    stored t = upd_all (map (\<lambda>i. (addr (dst i), content s (src i))) [0..<n]) (stored s) \<and>
    writes t = writes s @ map (\<lambda>i. (addr (dst i), content s (src i))) [0..<n]"
  using n
proof (induction n)
  case 0
  then show ?case using i by simp
next
  case (Suc n)
  obtain t where t: "for_each f [0..<n] s = Ok t" "inv t" "frame t = frame s" "holder t = Map.empty"
    "pinned t = pinned s - dst ` {..<n}"
    "content t = upd_all (map (\<lambda>i. (dst i, content s (src i))) [0..<n]) (content s)"
    "stored t = upd_all (map (\<lambda>i. (addr (dst i), content s (src i))) [0..<n]) (stored s)"
    "writes t = writes s @ map (\<lambda>i. (addr (dst i), content s (src i))) [0..<n]"
    using Suc by auto
  have v: "content t (src n) = content s (src n)"
    unfolding t(6) using d Suc.prems by (intro upd_all_other) auto
  obtain u where u: "f n t = Ok u" "inv u" "frame u = frame t" "holder u = Map.empty"
    "content u = (content t)(dst n := content t (src n))" "stored u = (stored t)(addr (dst n) := content t (src n))"
    "writes u = writes t @ [(addr (dst n), content t (src n))]" "pinned u = pinned t - {dst n}"
    using step [OF _ t(2-6)] Suc.prems by auto
  have "for_each f [0..<Suc n] s = Ok u" using t(1) u(1) by (simp add: for_each_append)
  moreover have "pinned u = pinned s - dst ` {..<Suc n}" using u(8) t(5) by (auto simp: lessThan_Suc)
  moreover have "content u = upd_all (map (\<lambda>i. (dst i, content s (src i))) [0..<Suc n]) (content s)"
    unfolding u(5) [unfolded v] t(6) by (simp add: upd_all_def)
  moreover have "stored u = upd_all (map (\<lambda>i. (addr (dst i), content s (src i))) [0..<Suc n]) (stored s)"
    unfolding u(6) [unfolded v] t(7) by (simp add: upd_all_def)
  ultimately show ?case using u(2-4,7) t(3,8) v by (intro exI [of _ u]) simp
qed

lemma put_one:
  assumes i: "inv s" and k: "ok s k" and h: "holder s = Map.empty" and r: "card (pinned s) < cap" and p: "k \<notin> pinned s"
  shows "\<exists>b t u v. rd k s = Ok (b, t) \<and> frame t = frame s \<and> dat t b = content s k \<and> wr b (put b d t) = Ok u \<and>
    relse b u = Ok v \<and> inv v \<and> frame v = frame s \<and> holder v = Map.empty \<and> pinned v = pinned s \<and>
    content v = (content s)(k := d) \<and> stored v = (stored s)(addr k := d) \<and> writes v = writes s @ [(addr k, d)]"
proof -
  obtain b t where t: "rd k s = Ok (b, t)" "inv t" "frame t = frame s" "stored t = stored s" "writes t = writes s"
    "content t = content s" "holder t = [k \<mapsto> b]" "pinned t = pinned s"
    using rd_ok [OF i k] h r by auto
  have hk: "holder t k = Some b" using t by simp
  let ?p = "put b d t"
  have q: "inv ?p" "frame ?p = frame s" "stored ?p = stored s" "writes ?p = writes s" "content ?p = (content s)(k := d)"
    "holder ?p = [k \<mapsto> b]" "pinned ?p = pinned s"
    using put_ok [OF t(2) hk, of d] t by auto
  obtain u where u: "wr b ?p = Ok u" "inv u" "frame u = frame s" "stored u = (stored s)(addr k := d)"
    "writes u = writes s @ [(addr k, d)]" "content u = (content s)(k := d)" "holder u = [k \<mapsto> b]" "pinned u = pinned s"
    using wr_ok [OF q(1), of k b] q p by auto
  obtain v where v: "relse b u = Ok v" "inv v" "frame v = frame s" "stored v = stored u" "writes v = writes u"
    "content v = content u" "holder v = Map.empty" "pinned v = pinned s"
    using relse_ok [OF u(2), of k b] u by auto
  show ?thesis using t u v dat_held [OF hk] by auto
qed

end

section \<open>The steps of a commit\<close>

text \<open>The blocks of a transaction: the home of entry \<open>i\<close>, its copy in the log, and the header.\<close>

definition home :: "'a logst_scheme \<Rightarrow> nat \<Rightarrow> bid" where
  "home s i = (lg_dev s, lg_block s i)"

definition logb :: "'a logst_scheme \<Rightarrow> nat \<Rightarrow> bid" where
  "logb s i = (lg_dev s, log_blk s i)"

definition hdr :: "'a logst_scheme \<Rightarrow> bid" where
  "hdr s = (lg_dev s, lg_start s)"

lemma bframe_lg:
  fixes s t :: "'a logst_scheme"
  assumes "bframe t = bframe s"
  shows "lg_dev t = lg_dev s" "lg_start t = lg_start s" "lg_n t = lg_n s" "lg_block t = lg_block s"
    "home t = home s" "logb t = logb s" "hdr t = hdr s" "lg_size t = lg_size s" "lg_outstanding t = lg_outstanding s"
    "lg_committing t = lg_committing s"
proof -
  have "bcache.more t = bcache.more s" using assms by (rule bframe_sel)
  then show "lg_dev t = lg_dev s" "lg_start t = lg_start s" "lg_n t = lg_n s" "lg_block t = lg_block s"
    "home t = home s" "logb t = logb s" "hdr t = hdr s" "lg_size t = lg_size s" "lg_outstanding t = lg_outstanding s"
    "lg_committing t = lg_committing s"
    by (cases t; cases s; simp add: home_def logb_def log_blk_def hdr_def fun_eq_iff)+
qed

lemma bready_cong:
  assumes "locks t = locks s" "cpus t = cpus s" "procs t = procs s" "heads t = heads s" "tails t = tails s"
    and "bufs t = bufs s" "idequeue t = idequeue s" "disk t = disk s" "havedisk1 t = havedisk1 s"
  shows "bready c t = bready c s"
proof -
  have "env c {} t = env c {} s" by (rule env_more) (rule assms)+
  moreover have "ring t bs = ring s bs" for bs by (rule ring_links) (simp add: assms)
  ultimately show ?thesis by (simp add: bready_def binv_def assms)
qed

lemma bready_lg [simp]:
  "bready c (lg_n_update f s) = bready c s" "bready c (lg_block_update g s) = bready c s"
  "bready c (lg_start_update h s) = bready c s" "bready c (lg_size_update k s) = bready c s"
  "bready c (lg_dev_update l s) = bready c s" "bready c (lg_outstanding_update m s) = bready c s"
  "bready c (lg_committing_update n s) = bready c s"
  by (rule bready_cong; simp)+

lemma view_lg [simp]:
  "view (lg_n_update f s) = view s" "view (lg_block_update g s) = view s"
  "held (lg_n_update f s) = held s" "held (lg_block_update g s) = held s"
  "dirtyset (lg_n_update f s) = dirtyset s" "dirtyset (lg_block_update g s) = dirtyset s"
  by (rule view_cong; simp)+

lemma blk_ok_lg [simp]: "blk_ok (lg_n_update f s) = blk_ok s" "blk_ok (lg_block_update g s) = blk_ok s"
  by (simp_all add: blk_ok_def fun_eq_iff)

lemma hdr_lg [simp]: "hdr (lg_n_update f s) = hdr s" "hdr (lg_block_update g s) = hdr s"
  by (simp_all add: hdr_def)

lemma write_log_one_ok:
  assumes b: "bready c s" and h: "held s = Map.empty" and k: "blk_ok s (home s i)" "blk_ok s (logb s i)"
    and d: "home s i \<in> dirtyset s" "logb s i \<notin> dirtyset s" and r: "card (dirtyset s) < NBUF"
  shows "\<exists>t. write_log_one c i s = Ok t \<and> bready c t \<and> bframe t = bframe s \<and> held t = Map.empty \<and>
    view t = (view s)(logb s i := view s (home s i)) \<and>
    disk t = (disk s)(dsec (logb s i) := view s (home s i)) \<and>
    dwrites t = dwrites s @ [(dsec (logb s i), view s (home s i))] \<and> dirtyset t = dirtyset s - {logb s i}"
proof -
  have ne: "logb s i \<noteq> home s i" using d by auto
  obtain to frm t u where u: "bread c (lg_dev s) (log_blk s i) s = Ok (to, t)" "bframe t = bframe s"
    "bread c (lg_dev s) (lg_block s i) t = Ok (frm, u)"
    "bready c u" "bframe u = bframe s" "disk u = disk s" "dwrites u = dwrites s" "view u = view s"
    "held u = [logb s i \<mapsto> to, home s i \<mapsto> frm]" "dirtyset u = dirtyset s"
    using bc.rd_two [OF b k(2,1) ne] h d r by (auto simp: logb_def home_def)
  have hs: "held u (home s i) = Some frm" "held u (logb s i) = Some to" using u(9) ne by auto
  have "home s i \<in> dirtyset u \<or> view u (home s i) = disk u (dsec (home s i))" using u(10) d by simp
  then obtain v where v: "bnd (bwrite c to (set_data to (b_data (bufs u frm)) u)) (\<lambda>s. bnd (brelse c frm s) (brelse c to)) = Ok v"
    "bready c v" "bframe v = bframe u" "view v = (view u)(logb s i := view u (home s i))"
    "disk v = (disk u)(dsec (logb s i) := view u (home s i))"
    "dwrites v = dwrites u @ [(dsec (logb s i), view u (home s i))]"
    "held v = (held u)(home s i := None, logb s i := None)" "dirtyset v = dirtyset u - {logb s i}"
    using bc.copy_tail_ok [OF u(4) hs ne [symmetric]] by blast
  have "write_log_one c i s = Ok v"
    using u(1,3) v(1) bframe_lg [OF u(2)] by (simp add: write_log_one_def Let_def)
  moreover have "held v = Map.empty" using v(7) u(9) by (auto simp: fun_eq_iff)
  ultimately show ?thesis using u v by auto
qed

lemma install_one_ok:
  assumes b: "bready c s" and h: "held s = Map.empty" and k: "blk_ok s (home s i)" "blk_ok s (logb s i)"
    and d: "home s i \<in> dirtyset s \<or> dirtyset s = {}" "logb s i \<notin> dirtyset s" "logb s i \<noteq> home s i" and r: "card (dirtyset s) < NBUF"
  shows "\<exists>t. install_one c i s = Ok t \<and> bready c t \<and> bframe t = bframe s \<and> held t = Map.empty \<and>
    view t = (view s)(home s i := view s (logb s i)) \<and>
    disk t = (disk s)(dsec (home s i) := view s (logb s i)) \<and>
    dwrites t = dwrites s @ [(dsec (home s i), view s (logb s i))] \<and> dirtyset t = dirtyset s - {home s i}"
proof -
  have r2: "home s i \<in> dirtyset s \<or> card (insert (logb s i) (dirtyset s \<union> dom (held s))) < NBUF"
    using d(1) h by (auto simp: NBUF_def)
  obtain lb db t u where u: "bread c (lg_dev s) (log_blk s i) s = Ok (lb, t)" "bframe t = bframe s"
    "bread c (lg_dev s) (lg_block s i) t = Ok (db, u)"
    "bready c u" "bframe u = bframe s" "disk u = disk s" "dwrites u = dwrites s" "view u = view s"
    "held u = [logb s i \<mapsto> lb, home s i \<mapsto> db]" "dirtyset u = dirtyset s"
    using bc.rd_two [OF b k(2,1) d(3) _ _ _ r2] h r by (auto simp: logb_def home_def)
  have hs: "held u (logb s i) = Some lb" "held u (home s i) = Some db" using u(9) d(3) by auto
  have "view s (logb s i) = disk s (dsec (logb s i))" using bc.clean_content [OF b] h d(2) by simp
  then have "logb s i \<in> dirtyset u \<or> view u (logb s i) = disk u (dsec (logb s i))" using u by simp
  then obtain v where v: "bnd (bwrite c db (set_data db (b_data (bufs u lb)) u)) (\<lambda>s. bnd (brelse c lb s) (brelse c db)) = Ok v"
    "bready c v" "bframe v = bframe u" "view v = (view u)(home s i := view u (logb s i))"
    "disk v = (disk u)(dsec (home s i) := view u (logb s i))"
    "dwrites v = dwrites u @ [(dsec (home s i), view u (logb s i))]"
    "held v = (held u)(logb s i := None, home s i := None)" "dirtyset v = dirtyset u - {home s i}"
    using bc.copy_tail_ok [OF u(4) hs d(3)] by blast
  have "install_one c i s = Ok v"
    using u(1,3) v(1) bframe_lg [OF u(2)] by (simp add: install_one_def Let_def)
  moreover have "held v = Map.empty" using v(7) u(9) by (auto simp: fun_eq_iff)
  ultimately show ?thesis using u v by auto
qed

lemma write_head_ok:
  assumes b: "bready c s" and h: "held s = Map.empty" and k: "blk_ok s (hdr s)" and d: "hdr s \<notin> dirtyset s"
    and r: "card (dirtyset s) < NBUF"
  defines "w \<equiv> put_head (lg_n s) (lg_block s) (view s (hdr s))"
  shows "\<exists>t. write_head c s = Ok t \<and> bready c t \<and> bframe t = bframe s \<and> held t = Map.empty \<and> dirtyset t = dirtyset s \<and>
    view t = (view s)(hdr s := w) \<and> disk t = (disk s)(dsec (hdr s) := w) \<and> dwrites t = dwrites s @ [(dsec (hdr s), w)]"
proof -
  obtain x t u v where v: "bread c (lg_dev s) (lg_start s) s = Ok (x, t)" "bframe t = bframe s" "b_data (bufs t x) = view s (hdr s)"
    "bwrite c x (set_data x w t) = Ok u" "brelse c x u = Ok v" "bready c v" "bframe v = bframe s" "held v = Map.empty"
    "dirtyset v = dirtyset s" "view v = (view s)(hdr s := w)" "disk v = (disk s)(dsec (hdr s) := w)"
    "dwrites v = dwrites s @ [(dsec (hdr s), w)]"
    using bc.put_one [OF b k h r d, of w] by (auto simp: hdr_def)
  have "write_head c s = Ok v"
    using v(1,3,4,5) bframe_lg [OF v(2)] by (simp add: write_head_def w_def)
  then show ?thesis using v by auto
qed

section \<open>The header block\<close>

lemma blk_rd_wr: "blk_rd32 (blk_wr32 i w d) i = w"
  using word_of_bytes [of w] by (simp add: blk_rd32_def blk_wr32_def)

lemma blk_rd_wr_other: "i + 4 \<le> j \<or> j + 4 \<le> i \<Longrightarrow> blk_rd32 (blk_wr32 i w d) j = blk_rd32 d j"
  by (auto simp: blk_rd32_def blk_wr32_def)

lemma put_blocks_rd: "i < n \<Longrightarrow> blk_rd32 (put_blocks f n d) (4 + 4 * i) = f i"
  by (induction n) (auto simp: blk_rd_wr blk_rd_wr_other less_Suc_eq)

lemma put_blocks_count: "blk_rd32 (put_blocks f n d) 0 = blk_rd32 d 0"
  by (induction n) (auto simp: blk_rd_wr_other)

lemma head_n_put:
  assumes "0 \<le> n" and "n \<le> int LOGSIZE"
  shows "head_n (put_head n f d) = n"
proof -
  have "sint (of_int n :: uint32) = signed_take_bit 31 n" by (simp add: sint_sbintrunc')
  also have "\<dots> = n" using assms by (simp add: signed_take_bit_int_eq_self LOGSIZE_def MAXOPBLOCKS_def)
  finally show ?thesis by (simp add: head_n_def put_head_def put_blocks_count blk_rd_wr)
qed

lemma head_block_put: "int i < n \<Longrightarrow> head_block (put_head n f d) i = f i"
  by (simp add: head_block_def put_head_def put_blocks_rd)

section \<open>Commit\<close>

text \<open>A transaction of \<open>n\<close> blocks that the log can take: distinct home blocks outside the log.\<close>

definition txn_ok :: "'a logst_scheme \<Rightarrow> nat \<Rightarrow> bool" where
  "txn_ok s n \<longleftrightarrow> lg_n s = int n \<and> n < NBUF \<and> inj_on (lg_block s) {..<n} \<and> blk_ok s (hdr s) \<and>
     (\<forall>i<n. blk_ok s (home s i) \<and> blk_ok s (logb s i) \<and> home s i \<noteq> hdr s \<and> (\<forall>j<n. home s i \<noteq> logb s j))"

lemma txn_okD:
  assumes "txn_ok s n"
  shows "nat (lg_n s) = n" "n < NBUF" "inj_on (home s) {..<n}" "blk_ok s (hdr s)"
    and "i < n \<Longrightarrow> blk_ok s (home s i)" "i < n \<Longrightarrow> blk_ok s (logb s i)" "i < n \<Longrightarrow> home s i \<noteq> hdr s"
    "i < n \<Longrightarrow> j < n \<Longrightarrow> home s i \<noteq> logb s j"
  using assms by (auto simp: txn_ok_def inj_on_def home_def)

lemma of_nat32_inj:
  assumes "i < 4294967296" and "j < 4294967296" and "(of_nat i :: uint32) = of_nat j"
  shows "i = j"
  using assms by (metis unat_of_nat32)

lemma log_blk_inj: "n \<le> NBUF \<Longrightarrow> inj_on (logb s) {..<n}"
  unfolding logb_def log_blk_def inj_on_def by (auto simp: NBUF_def intro!: of_nat32_inj)

lemma logb_hdr: "i < NBUF \<Longrightarrow> logb s i \<noteq> hdr s"
proof
  assume i: "i < NBUF" and "logb s i = hdr s"
  then have "(of_nat (Suc i) :: uint32) = of_nat 0" by (simp add: logb_def hdr_def log_blk_def add.commute)
  then have "Suc i = 0" using i by (intro of_nat32_inj) (auto simp: NBUF_def)
  then show False by simp
qed

lemma write_log_ok:
  assumes b: "bready c s" and h: "held s = Map.empty" and t: "txn_ok s n" and d: "dirtyset s = home s ` {..<n}"
  shows "\<exists>t. write_log c s = Ok t \<and> bready c t \<and> bframe t = bframe s \<and> held t = Map.empty \<and> dirtyset t = dirtyset s \<and>
    view t = upd_all (map (\<lambda>i. (logb s i, view s (home s i))) [0..<n]) (view s) \<and>
    disk t = upd_all (map (\<lambda>i. (dsec (logb s i), view s (home s i))) [0..<n]) (disk s) \<and>
    dwrites t = dwrites s @ map (\<lambda>i. (dsec (logb s i), view s (home s i))) [0..<n]"
proof -
  note T = txn_okD [OF t]
  have nl: "logb s j \<notin> dirtyset s" if "j < n" for j using that T(8) d by (metis imageE lessThan_iff)
  have same: "dirtyset s - logb s ` {..<i} = dirtyset s" if i: "i \<le> n" for i
  proof (rule Diff_triv)
    have "logb s j \<notin> dirtyset s" if "j < i" for j using nl that i by (meson order_less_le_trans)
    then show "dirtyset s \<inter> logb s ` {..<i} = {}" by blast
  qed
  have card: "card (dirtyset s) < NBUF"
    using T(2) card_image_le [of "{..<n}" "home s"] by (simp add: d)
  have "\<exists>t. for_each (write_log_one c) [0..<n] s = Ok t \<and> bready c t \<and> bframe t = bframe s \<and> held t = Map.empty \<and>
    dirtyset t = dirtyset s - logb s ` {..<n} \<and>
    view t = upd_all (map (\<lambda>i. (logb s i, view s (home s i))) [0..<n]) (view s) \<and>
    disk t = upd_all (map (\<lambda>i. (dsec (logb s i), view s (home s i))) [0..<n]) (disk s) \<and>
    dwrites t = dwrites s @ map (\<lambda>i. (dsec (logb s i), view s (home s i))) [0..<n]"
  proof (rule bc.copy_loop [where N = n, OF _ b h _ order_refl])
    fix i t
    assume t: "i < n" "bready c t" "bframe t = bframe s" "held t = Map.empty" "dirtyset t = dirtyset s - logb s ` {..<i}"
    note f = bframe_lg [OF t(3)]
    have k: "blk_ok t = blk_ok s" by (rule bc.ok_frame [OF t(3)])
    have dt: "dirtyset t = dirtyset s" using t(5) same [of i] t(1) by simp
    have hm: "home s i \<in> dirtyset s" using d t(1) by simp
    show "\<exists>u. write_log_one c i t = Ok u \<and> bready c u \<and> bframe u = bframe t \<and> held u = Map.empty \<and>
        view u = (view t)(logb s i := view t (home s i)) \<and> disk u = (disk t)(dsec (logb s i) := view t (home s i)) \<and>
        dwrites u = dwrites t @ [(dsec (logb s i), view t (home s i))] \<and> dirtyset u = dirtyset t - {logb s i}"
      using write_log_one_ok [OF t(2,4), of i, unfolded f k dt, OF T(5,6) [OF t(1)] hm nl [OF t(1)] card] unfolding dt .
  qed (use T(8) in blast)
  then show ?thesis using same [of n] T(1) by (simp add: write_log_def)
qed

lemma install_trans_ok:
  assumes b: "bready c s" and h: "held s = Map.empty" and t: "txn_ok s n"
    and d: "dirtyset s = home s ` {..<n} \<or> dirtyset s = {}"
  shows "\<exists>t. install_trans c s = Ok t \<and> bready c t \<and> bframe t = bframe s \<and> held t = Map.empty \<and> dirtyset t = {} \<and>
    view t = upd_all (map (\<lambda>i. (home s i, view s (logb s i))) [0..<n]) (view s) \<and>
    disk t = upd_all (map (\<lambda>i. (dsec (home s i), view s (logb s i))) [0..<n]) (disk s) \<and>
    dwrites t = dwrites s @ map (\<lambda>i. (dsec (home s i), view s (logb s i))) [0..<n]"
proof -
  note T = txn_okD [OF t]
  have nl: "logb s j \<notin> dirtyset s" if "j < n" for j using that T(8) d by (metis imageE lessThan_iff empty_iff)
  have fin: "finite (dirtyset s)" using d by auto
  have card: "card (dirtyset s) < NBUF"
    using d T(2) card_image_le [of "{..<n}" "home s"] by auto
  have "\<exists>t. for_each (install_one c) [0..<n] s = Ok t \<and> bready c t \<and> bframe t = bframe s \<and> held t = Map.empty \<and>
    dirtyset t = dirtyset s - home s ` {..<n} \<and>
    view t = upd_all (map (\<lambda>i. (home s i, view s (logb s i))) [0..<n]) (view s) \<and>
    disk t = upd_all (map (\<lambda>i. (dsec (home s i), view s (logb s i))) [0..<n]) (disk s) \<and>
    dwrites t = dwrites s @ map (\<lambda>i. (dsec (home s i), view s (logb s i))) [0..<n]"
  proof (rule bc.copy_loop [where N = n, OF _ b h _ order_refl])
    fix i t
    assume t: "i < n" "bready c t" "bframe t = bframe s" "held t = Map.empty" "dirtyset t = dirtyset s - home s ` {..<i}"
    note f = bframe_lg [OF t(3)]
    have k: "blk_ok t = blk_ok s" by (rule bc.ok_frame [OF t(3)])
    have "home s i \<notin> home s ` {..<i}" 
    proof
      assume "home s i \<in> home s ` {..<i}"
      then obtain j where j: "j < i" "home s i = home s j" by auto
      then show False using inj_onD [OF T(3) j(2)] t(1) by auto
    qed
    then have hm: "home s i \<in> dirtyset t \<or> dirtyset t = {}" using d t(1,5) by auto
    have nl': "logb s i \<notin> dirtyset t" using nl [OF t(1)] t(5) by blast
    have "card (dirtyset t) \<le> card (dirtyset s)" unfolding t(5) using fin by (intro card_mono) auto
    then have cd: "card (dirtyset t) < NBUF" using card by simp
    have ne: "logb s i \<noteq> home s i" using T(8) [OF t(1) t(1)] by simp
    show "\<exists>u. install_one c i t = Ok u \<and> bready c u \<and> bframe u = bframe t \<and> held u = Map.empty \<and>
        view u = (view t)(home s i := view t (logb s i)) \<and> disk u = (disk t)(dsec (home s i) := view t (logb s i)) \<and>
        dwrites u = dwrites t @ [(dsec (home s i), view t (logb s i))] \<and> dirtyset u = dirtyset t - {home s i}"
      using install_one_ok [OF t(2,4), of i, unfolded f k, OF T(5,6) [OF t(1)] hm nl' ne cd] .
  qed (use T(8) in metis)
  moreover have "dirtyset s - home s ` {..<n} = {}" using d by auto
  ultimately show ?thesis using T(1) by (simp add: install_trans_def)
qed

text \<open>The writes of a commit, in order: the blocks to the log, the header, the blocks to their homes, the
  header again.\<close>

definition commit_head :: "'a logst_scheme \<Rightarrow> nat \<Rightarrow> block" where
  "commit_head s n = put_head (int n) (lg_block s) (view s (hdr s))"

definition commit_writes :: "'a logst_scheme \<Rightarrow> nat \<Rightarrow> ((nat \<times> uint32) \<times> block) list" where
  "commit_writes s n =
     map (\<lambda>i. (dsec (logb s i), view s (home s i))) [0..<n] @
     [(dsec (hdr s), commit_head s n)] @
     map (\<lambda>i. (dsec (home s i), view s (home s i))) [0..<n] @
     [(dsec (hdr s), put_head 0 (lg_block s) (commit_head s n))]"

lemma bframe_lgn: "bframe t = bframe s \<Longrightarrow> bframe (t\<lparr>lg_n := x\<rparr>) = bframe (s\<lparr>lg_n := x\<rparr>)"
  by (cases t; cases s) (simp add: bframe_def)

lemma commit_ok:
  assumes b: "bready c s" and h: "held s = Map.empty" and t: "txn_ok s n" and n: "0 < n"
    and d: "dirtyset s = home s ` {..<n}"
  shows "\<exists>t. commit c s = Ok t \<and> bready c t \<and> bframe t = bframe (s\<lparr>lg_n := 0\<rparr>) \<and> held t = Map.empty \<and> dirtyset t = {} \<and>
    disk t = upd_all (commit_writes s n) (disk s) \<and> dwrites t = dwrites s @ commit_writes s n"
proof -
  note T = txn_okD [OF t]
  have N: "n \<le> NBUF" using T(2) by simp
  have card: "card (dirtyset s) < NBUF" using T(2) card_image_le [of "{..<n}" "home s"] by (simp add: d)
  have hd: "hdr s \<notin> dirtyset s" using T(7) d by (metis imageE lessThan_iff)
  let ?V = "\<lambda>i. view s (home s i)"
  obtain u where u: "write_log c s = Ok u" "bready c u" "bframe u = bframe s" "held u = Map.empty" "dirtyset u = dirtyset s"
    "view u = upd_all (map (\<lambda>i. (logb s i, ?V i)) [0..<n]) (view s)"
    "disk u = upd_all (map (\<lambda>i. (dsec (logb s i), ?V i)) [0..<n]) (disk s)"
    "dwrites u = dwrites s @ map (\<lambda>i. (dsec (logb s i), ?V i)) [0..<n]"
    using write_log_ok [OF b h t d] by blast
  note fu = bframe_lg [OF u(3)]
  have ku: "blk_ok u = blk_ok s" by (rule bc.ok_frame [OF u(3)])
  have vh: "view u (hdr s) = view s (hdr s)"
    unfolding u(6) by (rule upd_all_map_other) (use logb_hdr [of _ s] T(2) in simp)
  have lgn: "lg_n u = int n" using fu t by (simp add: txn_ok_def)
  obtain w where w: "write_head c u = Ok w" "bready c w" "bframe w = bframe u" "held w = Map.empty" "dirtyset w = dirtyset s"
    "view w = (view u)(hdr s := commit_head s n)" "disk w = (disk u)(dsec (hdr s) := commit_head s n)"
    "dwrites w = dwrites u @ [(dsec (hdr s), commit_head s n)]"
    using write_head_ok [OF u(2,4), unfolded fu ku u(5) vh, OF T(4) hd card] fu(3) lgn unfolding commit_head_def by auto
  have fw: "bframe w = bframe s" using w u by simp
  note gw = bframe_lg [OF fw]
  have tw: "txn_ok w n" using t bc.ok_frame [OF fw] unfolding txn_ok_def gw by simp
  have vl: "view w (logb s i) = ?V i" if "i < n" for i
    using upd_all_map [OF that log_blk_inj [OF N], of s ?V] logb_hdr [of i s] that T(2) by (simp add: w(6) u(6))
  have m: "map (\<lambda>i. (g i, view w (logb s i))) [0..<n] = map (\<lambda>i. (g i, ?V i)) [0..<n]" for g :: "nat \<Rightarrow> 'z"
    using vl by simp
  obtain x where x: "install_trans c w = Ok x" "bready c x" "bframe x = bframe w" "held x = Map.empty" "dirtyset x = {}"
    "view x = upd_all (map (\<lambda>i. (home s i, ?V i)) [0..<n]) (view w)"
    "disk x = upd_all (map (\<lambda>i. (dsec (home s i), ?V i)) [0..<n]) (disk w)"
    "dwrites x = dwrites w @ map (\<lambda>i. (dsec (home s i), ?V i)) [0..<n]"
    using install_trans_ok [OF w(2,4) tw, unfolded gw m] d u(5) w(5) by auto
  let ?x = "x\<lparr>lg_n := 0\<rparr>"
  have fx: "bframe x = bframe s" using x fw by simp
  note gx = bframe_lg [OF bframe_lgn [OF fx, of 0]]
  have hx: "hdr ?x = hdr s" "lg_block ?x = lg_block s" "lg_n ?x = 0" "bready c ?x" "held ?x = Map.empty" "dirtyset ?x = {}"
    using x gx bframe_lg [OF fx] by (simp_all add: hdr_def)
  have kx: "blk_ok ?x = blk_ok s" using bc.ok_frame [OF fx] by simp
  have vx: "view ?x (hdr s) = commit_head s n"
    using upd_all_map_other [of n "home s" "hdr s" ?V "view w", OF T(7)] by (simp add: x(6)) (simp add: w(6))
  obtain y where y: "write_head c ?x = Ok y" "bready c y" "bframe y = bframe ?x" "held y = Map.empty" "dirtyset y = {}"
    "disk y = (disk ?x)(dsec (hdr s) := put_head 0 (lg_block s) (commit_head s n))"
    "dwrites y = dwrites ?x @ [(dsec (hdr s), put_head 0 (lg_block s) (commit_head s n))]"
    using write_head_ok [OF hx(4,5), unfolded hx kx vx, OF T(4)] by (auto simp: NBUF_def)
  have "commit c s = Ok y" using t n u(1) w(1) x(1) y(1) by (simp add: commit_def txn_ok_def)
  moreover have "bframe y = bframe (s\<lparr>lg_n := 0\<rparr>)" using y(3) bframe_lgn [OF fx] by simp
  moreover have "disk y = upd_all (commit_writes s n) (disk s)"
    unfolding y(6) by (simp add: commit_writes_def x(7) w(7) u(7))
  moreover have "dwrites y = dwrites s @ commit_writes s n"
    unfolding y(7) by (simp add: commit_writes_def x(8) w(8) u(8))
  ultimately show ?thesis using y by blast
qed

section \<open>Recovery\<close>

definition head_upd :: "block \<Rightarrow> 'a logst_scheme \<Rightarrow> 'a logst_scheme" where
  "head_upd d s = s\<lparr>lg_n := head_n d, lg_block := (\<lambda>i. if int i < head_n d then head_block d i else lg_block s i)\<rparr>"

lemma head_upd_sel [simp]:
  "bready c (head_upd d s) = bready c s" "view (head_upd d s) = view s" "held (head_upd d s) = held s"
  "dirtyset (head_upd d s) = dirtyset s" "disk (head_upd d s) = disk s" "dwrites (head_upd d s) = dwrites s"
  "hdr (head_upd d s) = hdr s" "logb (head_upd d s) = logb s" "lg_n (head_upd d s) = head_n d"
  "blk_ok (head_upd d s) = blk_ok s"
  by (simp_all add: head_upd_def hdr_def logb_def log_blk_def fun_eq_iff)

lemma bframe_lgh: "bframe t = bframe s \<Longrightarrow> bframe (t\<lparr>lg_n := x, lg_block := f\<rparr>) = bframe (s\<lparr>lg_n := x, lg_block := f\<rparr>)"
  by (cases t; cases s) (simp add: bframe_def)

lemma bframe_head_upd:
  assumes "bframe t = bframe s"
  shows "bframe (head_upd d t) = bframe (head_upd d s)"
  unfolding head_upd_def bframe_lg(4) [OF assms] by (rule bframe_lgh [OF assms])

lemma read_head_ok:
  assumes b: "bready c s" and h: "held s = Map.empty" and k: "blk_ok s (hdr s)" and d: "dirtyset s = {}"
    and n: "head_n (view s (hdr s)) \<le> int LOGSIZE"
  shows "\<exists>t. read_head c s = Ok t \<and> bready c t \<and> bframe t = bframe (head_upd (view s (hdr s)) s) \<and> held t = Map.empty \<and>
    dirtyset t = {} \<and> view t = view s \<and> disk t = disk s \<and> dwrites t = dwrites s"
proof -
  let ?d = "view s (hdr s)"
  obtain x t where t: "bread c (lg_dev s) (lg_start s) s = Ok (x, t)" "bready c t" "bframe t = bframe s" "disk t = disk s"
    "dwrites t = dwrites s" "view t = view s" "held t = [hdr s \<mapsto> x]" "dirtyset t = {}"
    using bc.rd_ok [OF b k] h d by (auto simp: hdr_def NBUF_def)
  have hx: "held t (hdr s) = Some x" using t by simp
  have dx: "b_data (bufs t x) = ?d" using bc.dat_held [OF hx] t by simp
  let ?u = "head_upd ?d t"
  have c: "view ?u (hdr s) = disk ?u (dsec (hdr s))" using bc.clean_content [OF b] h d t by simp
  obtain v where v: "brelse c x ?u = Ok v" "bready c v" "bframe v = bframe ?u" "disk v = disk s" "dwrites v = dwrites s"
    "view v = view s" "held v = Map.empty" "dirtyset v = {}"
    using bc.relse_ok [of c ?u "hdr s" x] t c by (auto simp: fun_upd_idem)
  have "read_head c s = Ok v" using t(1) v(1) n dx by (simp add: read_head_def Let_def head_upd_def cong: if_cong)
  then show ?thesis using v bframe_head_upd [OF t(3)] by auto
qed

lemma recover_ok:
  assumes b: "bready c s" and h: "held s = Map.empty" and d: "dirtyset s = {}"
    and m: "head_n (view s (hdr s)) = int m" and t: "txn_ok (head_upd (view s (hdr s)) s) m"
  shows "\<exists>t w. recover_from_log c s = Ok t \<and> bready c t \<and> lg_n t = 0 \<and>
    disk t = (upd_all (map (\<lambda>i. (dsec (home (head_upd (view s (hdr s)) s) i), view s (logb s i))) [0..<m]) (disk s))
      (dsec (hdr s) := w)"
proof -
  let ?u = "head_upd (view s (hdr s)) s"
  note T = txn_okD [OF t]
  have k: "blk_ok s (hdr s)" using T(4) by simp
  have n: "head_n (view s (hdr s)) \<le> int LOGSIZE" using m T(2) by (simp add: NBUF_def LOGSIZE_def MAXOPBLOCKS_def)
  obtain u where u: "read_head c s = Ok u" "bready c u" "bframe u = bframe ?u" "held u = Map.empty" "dirtyset u = {}"
    "view u = view s" "disk u = disk s"
    using read_head_ok [OF b h k d n] by blast
  note fu = bframe_lg [OF u(3)]
  have ku: "blk_ok u = blk_ok s" using bc.ok_frame [OF u(3)] by simp
  have tu: "txn_ok u m" using t unfolding txn_ok_def fu ku by simp
  obtain v where v: "install_trans c u = Ok v" "bready c v" "bframe v = bframe u" "held v = Map.empty" "dirtyset v = {}"
    "disk v = upd_all (map (\<lambda>i. (dsec (home ?u i), view s (logb s i))) [0..<m]) (disk s)"
    using install_trans_ok [OF u(2,4) tu, unfolded fu u(6,7)] u(5) by auto
  let ?v = "v\<lparr>lg_n := 0\<rparr>"
  have fv: "bframe v = bframe ?u" using v u by simp
  have hv: "hdr ?v = hdr s" "blk_ok ?v (hdr s)" "hdr ?v \<notin> dirtyset ?v" "card (dirtyset ?v) < NBUF"
    using bframe_lg(7) [OF fv] bc.ok_frame [OF fv] k v(5) by (simp_all add: NBUF_def)
  obtain w where w: "write_head c ?v = Ok w" "bready c w" "bframe w = bframe ?v"
    "disk w = (disk v)(dsec (hdr s) := put_head 0 (lg_block v) (view v (hdr s)))"
    using write_head_ok [of c ?v] v(2,4) hv by auto
  have "lg_n w = 0" using bframe_lg(3) [OF w(3)] by simp
  moreover have "recover_from_log c s = Ok w" using u(1) v(1) w(1) by (simp add: recover_from_log_def)
  ultimately show ?thesis using w(2,4) v(6) by auto
qed

lemma upd_home:
  assumes "inj_on (home s) {..<n}" and "q \<le> n"
  shows "upd_all (map (\<lambda>i. (dsec (home s i), view s (home s i))) [0..<q]) m (dsec k) =
    (if k \<in> home s ` {..<q} then view s k else m (dsec k))"
proof (cases "k \<in> home s ` {..<q}")
  case True
  then obtain i where i: "i < q" "k = home s i" by auto
  have "inj_on (\<lambda>i. dsec (home s i)) {..<q}"
    using assms by (auto simp: inj_on_def dsec_inj)
  then show ?thesis using upd_all_map [OF i(1), of "\<lambda>i. dsec (home s i)" "\<lambda>i. view s (home s i)" m] i True by simp
next
  case False
  then have "dsec (home s i) \<noteq> dsec k" if "i < q" for i using that by (auto simp: dsec_inj)
  then show ?thesis using upd_all_map_other [of q "\<lambda>i. dsec (home s i)" "dsec k"] False by simp
qed

text \<open>The machine restarts with disk \<open>D\<close>; the log is where it was.\<close>

definition restart :: "'a logst_scheme \<Rightarrow> (nat \<times> uint32 \<Rightarrow> block) \<Rightarrow> 'a logst_scheme" where
  "restart s0 D = binit (s0\<lparr>disk := D\<rparr>)"

lemma restart_ok:
  assumes "boot_ok c s0"
  shows "bready c (restart s0 D)" "held (restart s0 D) = Map.empty" "dirtyset (restart s0 D) = {}"
    "view (restart s0 D) k = D (dsec k)" "disk (restart s0 D) = D" "lg_dev (restart s0 D) = lg_dev s0"
    "lg_start (restart s0 D) = lg_start s0" "blk_ok (restart s0 D) = blk_ok s0"
proof -
  have "boot_ok c (s0\<lparr>disk := D\<rparr>)" using assms by (simp add: boot_ok_def)
  note i = binit_ok [OF this, folded restart_def]
  show "bready c (restart s0 D)" "disk (restart s0 D) = D" using i by simp_all
  show "held (restart s0 D) = Map.empty" "dirtyset (restart s0 D) = {}" "view (restart s0 D) k = D (dsec k)"
    using i(3,4) by (simp_all add: held_def [abs_def] dirtyset_def view_def dblk_def)
  have f: "bframe (restart s0 D) = bframe s0" using i(6) by simp
  show "lg_dev (restart s0 D) = lg_dev s0" "lg_start (restart s0 D) = lg_start s0" using bframe_lg [OF f] by simp_all
  show "blk_ok (restart s0 D) = blk_ok s0" by (rule bc.ok_frame [OF f])
qed

lemma recover_restart:
  assumes b: "boot_ok c s0" and lg: "lg_dev s0 = lg_dev s" "lg_start s0 = lg_start s" "blk_ok s0 = blk_ok s"
    and t: "txn_ok s n" and m: "head_n (D (dsec (hdr s))) = int m" "m = 0 \<or> m = n"
    and e: "\<And>i. i < m \<Longrightarrow> head_block (D (dsec (hdr s))) i = lg_block s i"
    and v: "\<And>i. i < m \<Longrightarrow> D (dsec (logb s i)) = view s (home s i)"
  shows "\<exists>u. recover_from_log c (restart s0 D) = Ok u \<and>
    (\<forall>k. k \<noteq> hdr s \<longrightarrow> disk u (dsec k) = (if k \<in> home s ` {..<m} then view s k else D (dsec k)))"
proof -
  let ?r = "restart s0 D"
  note r = restart_ok [OF b, of D]
  have h: "hdr ?r = hdr s" "logb ?r = logb s" using r(6,7) lg by (simp_all add: hdr_def logb_def log_blk_def fun_eq_iff)
  let ?u = "head_upd (view ?r (hdr ?r)) ?r"
  have hm: "home ?u i = home s i" if "i < m" for i
    using that m(1) e r(4,6) lg h by (simp add: home_def head_upd_def)
  have T: "txn_ok ?u m"
  proof -
    have lb: "lg_block ?u i = lg_block s i" if "i < m" for i using that m(1) e r(4) h by (simp add: head_upd_def)
    have "inj_on (lg_block ?u) {..<m} = inj_on (lg_block s) {..<m}" by (rule inj_on_cong) (simp add: lb)
    then show ?thesis using t m lg r(4,8) hm h by (auto simp: txn_ok_def)
  qed
  obtain u w where u: "recover_from_log c ?r = Ok u"
    "disk u = (upd_all (map (\<lambda>i. (dsec (home ?u i), view ?r (logb ?r i))) [0..<m]) D) (dsec (hdr s) := w)"
    using recover_ok [OF r(1-3) _ T] m(1) h r(4,5) by auto
  have mp: "map (\<lambda>i. (dsec (home ?u i), view ?r (logb ?r i))) [0..<m] = map (\<lambda>i. (dsec (home s i), view s (home s i))) [0..<m]"
    using hm v r(4) h by simp
  note d = u(2) [unfolded mp]
  have "disk u (dsec k) = (if k \<in> home s ` {..<m} then view s k else D (dsec k))" if "k \<noteq> hdr s" for k
    using that upd_home [OF txn_okD(3) [OF t], of m D k] m(2) by (auto simp: d dsec_inj)
  then show ?thesis using u(1) by blast
qed

text \<open>The disk after the first \<open>p\<close> writes of a commit: what its header and the log blocks hold.\<close>

lemma crash_disk:
  fixes s :: "'a logst_scheme"
  assumes t: "txn_ok s n" and n: "0 < n" and p: "p \<le> length (commit_writes s n)"
    and z: "head_n (disk s (dsec (hdr s))) = 0"
  defines "D \<equiv> upd_all (take p (commit_writes s n)) (disk s)"
  shows "\<exists>m. head_n (D (dsec (hdr s))) = int m \<and> (m = 0 \<or> m = n) \<and>
    (\<forall>i<m. head_block (D (dsec (hdr s))) i = lg_block s i \<and> D (dsec (logb s i)) = view s (home s i)) \<and>
    (\<forall>k. k \<noteq> hdr s \<and> (\<forall>i<n. k \<noteq> logb s i) \<longrightarrow>
      (if k \<in> home s ` {..<m} then view s k else D (dsec k)) =
      (if p \<le> n then disk s (dsec k) else if k \<in> home s ` {..<n} then view s k else disk s (dsec k)))"
proof -
  note T = txn_okD [OF t]
  let ?V = "\<lambda>i. view s (home s i)"
  let ?A = "\<lambda>q. map (\<lambda>i. (dsec (logb s i), ?V i)) [0..<q]"
  let ?B = "\<lambda>q. map (\<lambda>i. (dsec (home s i), ?V i)) [0..<q]"
  have A_other: "upd_all (?A q) m (dsec k) = m (dsec k)" if "q \<le> n" "\<forall>i<n. k \<noteq> logb s i" for q m k
  proof (rule upd_all_map_other)
    fix i assume "i < q"
    then show "dsec (logb s i) \<noteq> dsec k" using that dsec_inj by (metis order_less_le_trans)
  qed
  have hl: "\<forall>i<n. hdr s \<noteq> logb s i" using logb_hdr [of _ s] T(2) by (metis order_less_trans)
  have A_in: "upd_all (?A n) m (dsec (logb s i)) = ?V i" if "i < n" for i m
  proof -
    have "inj_on (\<lambda>i. dsec (logb s i)) {..<n}"
      using log_blk_inj [of n s] T(2) by (simp add: inj_on_def dsec_inj)
    then show ?thesis using upd_all_map [OF that, of "\<lambda>i. dsec (logb s i)" ?V] by simp
  qed
  have hn: "int n \<le> int LOGSIZE" using T(2) by (simp add: NBUF_def LOGSIZE_def MAXOPBLOCKS_def)
  have hb: "hdr s \<notin> home s ` {..<q}" if "q \<le> n" for q
    using that T(7) by (metis imageE lessThan_iff order_less_le_trans)
  have lb: "logb s i \<notin> home s ` {..<q}" if "q \<le> n" "i < n" for i q
    using that T(8) by (metis imageE lessThan_iff order_less_le_trans)
  have len: "length (commit_writes s n) = 2 * n + 2" by (simp add: commit_writes_def)
  have "p \<le> n \<or> (\<exists>q. p = n + 1 + q \<and> q \<le> n) \<or> p = 2 * n + 2" using p len by presburger
  then consider "p \<le> n" | q where "p = n + 1 + q" "q \<le> n" | "p = 2 * n + 2" by blast
  then show ?thesis
  proof cases
    case 1
    then have "take p (commit_writes s n) = ?A p" by (simp add: commit_writes_def take_map)
    then have D: "D = upd_all (?A p) (disk s)" by (simp add: D_def)
    have "D (dsec (hdr s)) = disk s (dsec (hdr s))" unfolding D by (rule A_other [OF 1 hl])
    moreover have "D (dsec k) = disk s (dsec k)" if "\<forall>i<n. k \<noteq> logb s i" for k unfolding D by (rule A_other [OF 1 that])
    ultimately show ?thesis using 1 z by (intro exI [of _ 0]) simp
  next
    case 2
    then have "take p (commit_writes s n) = ?A n @ [(dsec (hdr s), commit_head s n)] @ ?B q"
      by (simp add: commit_writes_def take_map)
    then have D: "D = upd_all (?B q) ((upd_all (?A n) (disk s))(dsec (hdr s) := commit_head s n))" by (simp add: D_def)
    note U = upd_home [OF T(3) 2(2)]
    have hd: "D (dsec (hdr s)) = commit_head s n" using hb [OF 2(2)] by (simp add: D U)
    have lg: "D (dsec (logb s i)) = ?V i" if "i < n" for i
      using lb [OF 2(2) that] A_in [OF that] hl that by (auto simp: D U dsec_inj)
    have dk: "D (dsec k) = disk s (dsec k)" if "k \<notin> home s ` {..<n}" "k \<noteq> hdr s" "\<forall>i<n. k \<noteq> logb s i" for k
    proof -
      have "k \<notin> home s ` {..<q}" using that(1) 2(2) by auto
      then show ?thesis using that A_other [OF order_refl that(3)] by (simp add: D U dsec_inj)
    qed
    have "head_n (D (dsec (hdr s))) = int n" unfolding hd commit_head_def by (rule head_n_put) (use hn in simp_all)
    moreover have "head_block (D (dsec (hdr s))) i = lg_block s i" if "i < n" for i
      unfolding hd commit_head_def by (rule head_block_put) (use that in simp)
    moreover have "\<not> p \<le> n" using 2 by simp
    ultimately show ?thesis using lg dk by (intro exI [of _ n]) simp
  next
    case 3
    then have "take p (commit_writes s n) = commit_writes s n" using len by simp
    then have D: "D = (upd_all (?B n) ((upd_all (?A n) (disk s))(dsec (hdr s) := commit_head s n)))
        (dsec (hdr s) := put_head 0 (lg_block s) (commit_head s n))"
      by (simp add: D_def commit_writes_def)
    note U = upd_home [OF T(3) order_refl]
    have "head_n (D (dsec (hdr s))) = 0" unfolding D by (simp add: head_n_put)
    moreover have "D (dsec k) = (if k \<in> home s ` {..<n} then view s k else disk s (dsec k))"
      if "k \<noteq> hdr s" "\<forall>i<n. k \<noteq> logb s i" for k
      using that A_other [OF order_refl that(2)] by (simp add: D U dsec_inj)
    moreover have "\<not> p \<le> n" using 3 by simp
    ultimately show ?thesis by (intro exI [of _ 0]) simp
  qed
qed

section \<open>Recording a block\<close>

lemma lg_lock [simp]:
  fixes s :: "'a logst_scheme"
  shows "lg_n (locked_by c l s) = lg_n s" "lg_block (locked_by c l s) = lg_block s" "lg_size (locked_by c l s) = lg_size s"
    "lg_outstanding (locked_by c l s) = lg_outstanding s" "lg_committing (locked_by c l s) = lg_committing s"
    "lg_n (unlocked_by c l s) = lg_n s" "lg_block (unlocked_by c l s) = lg_block s" "lg_size (unlocked_by c l s) = lg_size s"
    "lg_outstanding (unlocked_by c l s) = lg_outstanding s" "lg_committing (unlocked_by c l s) = lg_committing s"
    "lg_dev (locked_by c l s) = lg_dev s" "lg_dev (unlocked_by c l s) = lg_dev s"
    "lg_start (locked_by c l s) = lg_start s" "lg_start (unlocked_by c l s) = lg_start s"
  by (simp_all add: locked_by_def unlocked_by_def)

lemma env_lg [simp]:
  "env c L (lg_n_update f s) = env c L s" "env c L (lg_block_update g s) = env c L s"
  "env c L (lg_outstanding_update h s) = env c L s" "env c L (lg_committing_update k s) = env c L s"
  by (rule env_more; simp)+

lemma takeWhile_upt:
  assumes "m \<le> n" and "\<forall>i<m. P i" and "m < n \<Longrightarrow> \<not> P m"
  shows "takeWhile P [0..<n] = [0..<m]"
proof -
  have "[0..<n] = [0..<m] @ [m..<n]" using upt_add_eq_append [of 0 m "n - m"] assms(1) by simp
  moreover have "takeWhile P [m..<n] = []" using assms by (cases "m < n") (auto simp: upt_conv_Cons)
  moreover have "takeWhile P ([0..<m] @ [m..<n]) = [0..<m] @ takeWhile P [m..<n]"
    using assms(2) by (intro takeWhile_append2) auto
  ultimately show ?thesis by simp
qed

lemma log_slot_new:
  assumes "lg_n s = int n" and "bn \<notin> lg_block s ` {..<n}"
  shows "log_slot bn s = n"
proof -
  have "\<forall>i<n. lg_block s i \<noteq> bn" using assms(2) by auto
  from takeWhile_upt [OF order_refl this] have "log_slot bn s = length [0..<n]"
    unfolding log_slot_def assms(1) nat_int by (intro arg_cong [of _ _ length]) simp
  then show ?thesis by simp
qed

lemma log_slot_old:
  assumes "lg_n s = int n" and "inj_on (lg_block s) {..<n}" and "i < n"
  shows "log_slot (lg_block s i) s = i"
proof -
  have "lg_block s j \<noteq> lg_block s i" if "j < i" for j
    using inj_onD [OF assms(2), of j i] that assms(3) by auto
  then have "takeWhile (\<lambda>j. lg_block s j \<noteq> lg_block s i) [0..<n] = [0..<i]"
    using assms(3) by (intro takeWhile_upt) auto
  then show ?thesis using assms(1) by (simp add: log_slot_def)
qed

text \<open>What \<^verbatim>\<open>log_write\<close> leaves: the list of logged blocks has no duplicates and is extended by the block.\<close>

lemma log_write_ok:
  fixes s :: "'a logst_scheme"
  assumes b: "bready c s" and h: "held s k = Some b" and n: "lg_n s = int n" "n < LOGSIZE" "int n < lg_size s - 1"
    and o1: "1 \<le> lg_outstanding s" and inj: "inj_on (lg_block s) {..<n}"
  shows "\<exists>t m. log_write c b s = Ok t \<and> bready c t \<and> lg_n t = int m \<and> m \<le> n + 1 \<and> inj_on (lg_block t) {..<m} \<and>
    lg_block t ` {..<m} = insert (snd k) (lg_block s ` {..<n}) \<and> dirtyset t = insert k (dirtyset s) \<and>
    view t = view s \<and> held t = held s \<and> disk t = disk s \<and> dwrites t = dwrites s \<and>
    bframe t = bframe (s\<lparr>lg_n := lg_n t, lg_block := lg_block t\<rparr>)"
proof -
  have e: "env c {} s" and i: "binv s" using b by (simp_all add: bready_def)
  note hh = held_handle [OF h]
  have bn: "b_blockno (bufs s b) = snd k" using hh(2) by (auto simp: bkey_def)
  let ?i = "log_slot (snd k) s"
  define m where "m = (if ?i = n then n + 1 else n)"
  let ?f = "(lg_block s)(?i := snd k)"
  have slot: "?i = n \<and> snd k \<notin> lg_block s ` {..<n} \<or> ?i < n \<and> lg_block s ?i = snd k"
  proof (cases "snd k \<in> lg_block s ` {..<n}")
    case True
    then obtain j where "j < n" "snd k = lg_block s j" by auto
    then show ?thesis using log_slot_old [OF n(1) inj] by simp
  qed (use log_slot_new [OF n(1)] in blast)
  let ?s = "upd_buf b (\<lambda>r. r\<lparr>b_dirty := True\<rparr>) s"
  note sd = set_dirty_ok [OF e i h]
  define t where "t = unlocked_by c Lk_log (upd_buf b (\<lambda>r. r\<lparr>b_dirty := True\<rparr>) ((locked_by c Lk_log s)\<lparr>lg_block := ?f, lg_n := int m\<rparr>))"
  note a = env_acquire [OF e, of Lk_log, simplified]
  have "env c {Lk_log} (upd_buf b (\<lambda>r. r\<lparr>b_dirty := True\<rparr>) ((locked_by c Lk_log s)\<lparr>lg_block := ?f, lg_n := int m\<rparr>))"
    using a(2) by simp
  note rl = env_release [OF this, of Lk_log, simplified, folded t_def]
  have st: "log_slot (snd k) (locked_by c Lk_log s) = ?i" by (simp add: log_slot_def)
  have run: "log_write c b s = Ok t"
  proof (cases "?i = n")
    case True
    then show ?thesis using a(1) rl(1) n o1 unfolding log_write_def by (simp add: Let_def bn st m_def add.commute)
  next
    case False
    then have "(locked_by c Lk_log s)\<lparr>lg_block := ?f, lg_n := int m\<rparr> = (locked_by c Lk_log s)\<lparr>lg_block := ?f\<rparr>"
      using n(1) by (simp add: m_def)
    then show ?thesis using a(1) rl(1) n o1 False unfolding log_write_def by (simp add: Let_def bn st)
  qed
  have tb: "bufs t = bufs ?s" "disk t = disk s" "dwrites t = dwrites s" "idequeue t = idequeue s" by (simp_all add: t_def)
  have tl: "lg_n t = int m" "lg_block t = ?f" by (simp_all add: t_def upd_buf_def)
  have fr: "bframe t = bframe (s\<lparr>lg_n := lg_n t, lg_block := lg_block t\<rparr>)"
    unfolding tl by (cases s) (simp add: t_def bframe_def upd_buf_def locked_by_def unlocked_by_def)
  have vw: "view t = view s" "held t = held s" "dirtyset t = insert k (dirtyset s)"
    using view_cong [of t ?s] tb sd(2-4) by simp_all
  have "binv t"
  proof -
    have bs: "binv ?s" using sd(1) by (simp add: bstep_def)
    have "ring t bs = ring ?s bs" for bs by (rule ring_links) (simp add: tb)
    then show ?thesis using bs tb bframe_sel(1) [OF fr] by (simp add: binv_def)
  qed
  moreover have "inj_on (lg_block t) {..<m} \<and> lg_block t ` {..<m} = insert (snd k) (lg_block s ` {..<n})"
    using slot
  proof (elim disjE conjE)
    assume s: "?i = n" "snd k \<notin> lg_block s ` {..<n}"
    have "{..<n} \<inter> {x. x \<noteq> n} = {..<n}" by auto
    then show ?thesis using s inj_on_fun_updI [OF inj s(2), of n] by (simp add: tl m_def lessThan_Suc)
  next
    assume "?i < n" "lg_block s ?i = snd k"
    then show ?thesis using inj by (simp add: tl m_def fun_upd_idem insert_absorb rev_image_eqI)
  qed
  ultimately show ?thesis using run rl(2) tb vw tl fr by (auto simp: bready_def m_def)
qed

section \<open>Properties\<close>

text \<open>C1: committing a transaction is atomic with respect to crashes. The commit succeeds and performs a
  sequence of block writes; if the machine stops after any number of them and restarts, recovery
  succeeds, and every block outside the log holds its old content when the header had not been
  written yet, and its new content (that of the cache for the blocks of the transaction) otherwise.\<close>

theorem commit_is_atomic:
  assumes "bready c s" and "held s = Map.empty" and "txn_ok s n" and "0 < n" and "dirtyset s = home s ` {..<n}"
    and "head_n (disk s (dsec (hdr s))) = 0"
    and "boot_ok c' s0" and "lg_dev s0 = lg_dev s" and "lg_start s0 = lg_start s" and "havedisk1 s0 = havedisk1 s"
  shows "\<exists>t W. commit c s = Ok t \<and> dwrites t = dwrites s @ W \<and> disk t = upd_all W (disk s) \<and> lg_n t = 0 \<and>
    (\<forall>p. p \<le> length W \<longrightarrow> (\<exists>u. recover_from_log c' (restart s0 (upd_all (take p W) (disk s))) = Ok u \<and>
      (\<forall>k. k \<noteq> hdr s \<and> (\<forall>i<n. k \<noteq> logb s i) \<longrightarrow> disk u (dsec k) =
        (if p \<le> n then disk s (dsec k) else if k \<in> home s ` {..<n} then view s k else disk s (dsec k)))))"
proof -
  obtain t where t: "commit c s = Ok t" "bframe t = bframe (s\<lparr>lg_n := 0\<rparr>)" "disk t = upd_all (commit_writes s n) (disk s)"
    "dwrites t = dwrites s @ commit_writes s n"
    using commit_ok [OF assms(1-5)] by blast
  have ok: "blk_ok s0 = blk_ok s" using assms(10) by (simp add: blk_ok_def fun_eq_iff)
  have "\<exists>u. recover_from_log c' (restart s0 (upd_all (take p (commit_writes s n)) (disk s))) = Ok u \<and>
      (\<forall>k. k \<noteq> hdr s \<and> (\<forall>i<n. k \<noteq> logb s i) \<longrightarrow> disk u (dsec k) =
        (if p \<le> n then disk s (dsec k) else if k \<in> home s ` {..<n} then view s k else disk s (dsec k)))"
    if p: "p \<le> length (commit_writes s n)" for p
  proof -
    let ?D = "upd_all (take p (commit_writes s n)) (disk s)"
    obtain m where m: "head_n (?D (dsec (hdr s))) = int m" "m = 0 \<or> m = n"
      "\<forall>i<m. head_block (?D (dsec (hdr s))) i = lg_block s i \<and> ?D (dsec (logb s i)) = view s (home s i)"
      "\<forall>k. k \<noteq> hdr s \<and> (\<forall>i<n. k \<noteq> logb s i) \<longrightarrow> (if k \<in> home s ` {..<m} then view s k else ?D (dsec k)) =
        (if p \<le> n then disk s (dsec k) else if k \<in> home s ` {..<n} then view s k else disk s (dsec k))"
      using crash_disk [OF assms(3,4) p assms(6)] by blast
    obtain u where u: "recover_from_log c' (restart s0 ?D) = Ok u"
      "\<forall>k. k \<noteq> hdr s \<longrightarrow> disk u (dsec k) = (if k \<in> home s ` {..<m} then view s k else ?D (dsec k))"
      using recover_restart [where D = ?D, OF assms(7-9) ok assms(3) m(1,2)] m(3) by blast
    show ?thesis using u m(4) by (intro exI [of _ u]) presburger
  qed
  moreover have "lg_n t = 0" using bframe_lg(3) [OF t(2)] by simp
  ultimately show ?thesis using t by blast
qed

text \<open>C33: \<^verbatim>\<open>log_write\<close> extends the transaction by the block of the buffer and never records a block twice:
  the entries stay distinct, grow by at most one, and are the old ones and the block, which is pinned in
  the cache; no content changes.\<close>

theorem log_write_absorbs:
  fixes s :: "'a logst_scheme"
  assumes "bready c s" and "held s k = Some b" and "lg_n s = int n" and "n < LOGSIZE" and "int n < lg_size s - 1"
    and "1 \<le> lg_outstanding s" and "inj_on (lg_block s) {..<n}"
  shows "\<exists>t m. log_write c b s = Ok t \<and> bready c t \<and> lg_n t = int m \<and> m \<le> n + 1 \<and> inj_on (lg_block t) {..<m} \<and>
    lg_block t ` {..<m} = insert (snd k) (lg_block s ` {..<n}) \<and> (snd k \<in> lg_block s ` {..<n} \<longrightarrow> m = n) \<and>
    dirtyset t = insert k (dirtyset s) \<and> view t = view s \<and> disk t = disk s"
proof -
  obtain t m where t: "log_write c b s = Ok t" "bready c t" "lg_n t = int m" "m \<le> n + 1" "inj_on (lg_block t) {..<m}"
    "lg_block t ` {..<m} = insert (snd k) (lg_block s ` {..<n})" "dirtyset t = insert k (dirtyset s)" "view t = view s"
    "disk t = disk s"
    using log_write_ok [OF assms] by blast
  have "m = n" if "snd k \<in> lg_block s ` {..<n}"
  proof -
    have "lg_block t ` {..<m} = lg_block s ` {..<n}" using t(6) that by auto
    then show ?thesis using card_image [OF t(5)] card_image [OF assms(7)] by simp
  qed
  then show ?thesis using t by blast
qed

lemma begin_op_ok:
  fixes s :: "'a logst_scheme"
  assumes e: "env c {} s" and "\<not> lg_committing s" and "lg_n s + (lg_outstanding s + 1) * 10 \<le> 30"
  shows "\<exists>t. begin_op c s = Ok t \<and> env c {} t \<and> \<not> lg_committing t \<and> lg_n t = lg_n s \<and> lg_size t = lg_size s \<and>
    lg_outstanding t = lg_outstanding s + 1"
proof -
  note a = env_acquire [OF e, of Lk_log, simplified]
  let ?s = "(locked_by c Lk_log s)\<lparr>lg_outstanding := lg_outstanding s + 1\<rparr>"
  have "env c {Lk_log} ?s" using a(2) by simp
  note r = env_release [OF this, of Lk_log, simplified]
  show ?thesis using a(1) r assms(2,3) by (simp add: begin_op_def MAXOPBLOCKS_def LOGSIZE_def)
qed


section \<open>Witnesses\<close>

definition demo_log :: logst where
  "demo_log = bcache.extend demo_boot
     \<lparr>lg_start = 2, lg_size = 30, lg_outstanding = 0, lg_committing = False, lg_dev = 1, lg_n = 0, lg_block = (\<lambda>_. 0)\<rparr>"

lemma demo_log_sel [simp]:
  "lg_start demo_log = 2" "lg_size demo_log = 30" "lg_outstanding demo_log = 0" "\<not> lg_committing demo_log"
  "lg_dev demo_log = 1" "lg_n demo_log = 0" "havedisk1 demo_log" "disk demo_log = (\<lambda>_ _. 0)"
  "bufs demo_log = (\<lambda>_. zero_buf)" "idequeue demo_log = None"
  by (simp_all add: demo_log_def demo_boot_def bcache.defs kmem.defs)

lemma boot_demo_log: "boot_ok c demo_log"
  unfolding boot_ok_def
  by (intro conjI env_demo) (simp_all add: demo_log_def demo_boot_def bcache.defs kmem.defs)

text \<open>A transaction that fills block 50 with nines: it reads the block, changes it, logs it and lets it go.\<close>

definition demo_start :: logst where
  "demo_start = (binit demo_log)\<lparr>lg_outstanding := 1\<rparr>"

definition demo_modify :: "nat \<Rightarrow> logst \<Rightarrow> logst outcome" where
  "demo_modify b s = bnd (log_write 0 b (set_data b (\<lambda>_. 9) s)) (brelse 0 b)"

lemma demo_start_ok:
  "bready 0 demo_start" "held demo_start = Map.empty" "dirtyset demo_start = {}" "view demo_start k = (\<lambda>_. 0)"
  "disk demo_start = (\<lambda>_ _. 0)" "lg_n demo_start = 0" "lg_size demo_start = 30" "lg_outstanding demo_start = 1"
  "lg_dev demo_start = 1" "lg_start demo_start = 2" "havedisk1 demo_start"
proof -
  note i = binit_ok [OF boot_demo_log [of 0]]
  note f = bframe_lg [OF i(6)] bframe_sel(1) [OF i(6)]
  have v: "view demo_start = view (binit demo_log)" "held demo_start = held (binit demo_log)"
    "dirtyset demo_start = dirtyset (binit demo_log)"
    by (rule view_cong; simp add: demo_start_def)+
  show "bready 0 demo_start" using i(1) by (simp add: demo_start_def)
  show "held demo_start = Map.empty" "dirtyset demo_start = {}" "view demo_start k = (\<lambda>_. 0)"
    unfolding v using i(3,4) by (simp_all add: held_def [abs_def] dirtyset_def view_def dblk_def)
  show "disk demo_start = (\<lambda>_ _. 0)" "lg_n demo_start = 0" "lg_size demo_start = 30" "lg_outstanding demo_start = 1"
    "lg_dev demo_start = 1" "lg_start demo_start = 2" "havedisk1 demo_start"
    using i f by (simp_all add: demo_start_def)
qed

lemma demo_read:
  "\<exists>b t. bread 0 1 50 demo_start = Ok (b, t) \<and> bready 0 t \<and> bframe t = bframe demo_start \<and> disk t = (\<lambda>_ _. 0) \<and>
    view t = view demo_start \<and> held t = [(1, 50) \<mapsto> b] \<and> dirtyset t = {}"
  using bc.rd_ok [OF demo_start_ok(1), of "(1, 50)"] demo_start_ok by (auto simp: blk_ok_def FSSIZE_def NBUF_def)

theorem log_write_absorbs_witness:
  "\<exists>b s t. bread 0 1 50 demo_start = Ok (b, s) \<and> log_write 0 b s = Ok t \<and> lg_n t \<le> 1 \<and> (1, 50) \<in> dirtyset t"
proof -
  obtain b s where s: "bread 0 1 50 demo_start = Ok (b, s)" "bready 0 s" "bframe s = bframe demo_start"
    "held s = [(1, 50) \<mapsto> b]"
    using demo_read by blast
  note f = bframe_lg [OF s(3), unfolded demo_start_ok]
  have "\<exists>t m. log_write 0 b s = Ok t \<and> lg_n t = int m \<and> m \<le> 0 + 1 \<and> dirtyset t = insert (1, 50) (dirtyset s)"
    using log_write_absorbs [OF s(2), of "(1, 50)" b 0] s f by (auto simp: LOGSIZE_def MAXOPBLOCKS_def)
  then show ?thesis using s by auto
qed

lemma demo_txn:
  "\<exists>b u s. bread 0 1 50 demo_start = Ok (b, u) \<and> demo_modify b u = Ok s \<and> bready 0 s \<and> held s = Map.empty \<and> txn_ok s 1 \<and>
    dirtyset s = home s ` {..<1} \<and> home s 0 = (1, 50) \<and> view s (1, 50) = (\<lambda>_. 9) \<and> disk s = (\<lambda>_ _. 0) \<and>
    lg_dev s = 1 \<and> lg_start s = 2 \<and> havedisk1 s"
proof -
  obtain b u where u: "bread 0 1 50 demo_start = Ok (b, u)" "bready 0 u" "bframe u = bframe demo_start" "disk u = (\<lambda>_ _. 0)"
    "held u = [(1, 50) \<mapsto> b]" "dirtyset u = {}"
    using demo_read by blast
  have hu: "held u (1, 50) = Some b" using u by simp
  let ?p = "set_data b (\<lambda>_. 9) u"
  have p: "bready 0 ?p" "bframe ?p = bframe u" "disk ?p = disk u" "view ?p = (view u)((1, 50) := (\<lambda>_. 9))"
    "held ?p = held u" "dirtyset ?p = {}"
    using bc.put_ok [OF u(2) hu, of "\<lambda>_. 9"] u(6) by auto
  note fp = bframe_lg [OF p(2)]
  note f = bframe_lg [OF u(3), unfolded demo_start_ok]
  have hp: "held ?p (1, 50) = Some b" using hu p(5) by simp
  have "\<exists>t m. log_write 0 b ?p = Ok t \<and> bready 0 t \<and> lg_n t = int m \<and> m \<le> 0 + 1 \<and> inj_on (lg_block t) {..<m} \<and>
    lg_block t ` {..<m} = insert (snd (1 :: uint32, 50)) (lg_block ?p ` {..<0}) \<and> dirtyset t = insert (1, 50) (dirtyset ?p) \<and>
    view t = view ?p \<and> held t = held ?p \<and> disk t = disk ?p \<and> dwrites t = dwrites ?p \<and>
    bframe t = bframe (?p\<lparr>lg_n := lg_n t, lg_block := lg_block t\<rparr>)"
    by (rule log_write_ok [OF p(1) hp]) (use fp f in \<open>simp_all add: LOGSIZE_def MAXOPBLOCKS_def\<close>)
  then obtain t m where t: "log_write 0 b ?p = Ok t" "bready 0 t" "lg_n t = int m" "m \<le> 1"
    "lg_block t ` {..<m} = {50}" "dirtyset t = {(1, 50)}" "view t = view ?p" "held t = held u" "disk t = disk u"
    "bframe t = bframe (?p\<lparr>lg_n := lg_n t, lg_block := lg_block t\<rparr>)"
    using p(3,5,6) by auto
  have m: "m = 1" "lg_block t 0 = 50" using t(4,5) by (cases m; auto)+
  have ht: "held t (1, 50) = Some b" using t(8) hu by simp
  obtain s where s: "brelse 0 b t = Ok s" "bready 0 s" "bframe s = bframe t" "disk s = disk t" "view s = view t"
    "held s = (held t)((1, 50) := None)" "dirtyset s = dirtyset t"
    using bc.relse_ok [OF t(2) ht] t(6) by auto
  note ft = bframe_lg [OF t(10)] bframe_sel(1) [OF t(10)]
  note fs = bframe_lg [OF s(3)] bframe_sel(1) [OF s(3)]
  have lg: "lg_dev s = 1" "lg_start s = 2" "havedisk1 s" "lg_n s = 1" "lg_block s 0 = 50"
    using fs ft f fp t(3) m bframe_sel(1) [OF p(2)] bframe_sel(1) [OF u(3)] demo_start_ok(11) by simp_all
  have "txn_ok s 1"
    using lg by (simp add: txn_ok_def NBUF_def FSSIZE_def blk_ok_def hdr_def home_def logb_def log_blk_def lessThan_Suc)
  then show ?thesis
    using u(1,4,5) t(1,6-9) p(4) s lg by (auto simp: demo_modify_def home_def)
qed

theorem commit_is_atomic_witness:
  "\<exists>b u s t W x y. bread 0 1 50 demo_start = Ok (b, u) \<and> demo_modify b u = Ok s \<and> commit 0 s = Ok t \<and>
    recover_from_log 0 (restart demo_log (upd_all (take 1 W) (disk s))) = Ok x \<and> disk x (1, 50) = (\<lambda>_. 0) \<and>
    recover_from_log 0 (restart demo_log (upd_all (take 2 W) (disk s))) = Ok y \<and> disk y (1, 50) = (\<lambda>_. 9)"
proof -
  obtain b u s where s: "bread 0 1 50 demo_start = Ok (b, u)" "demo_modify b u = Ok s" "bready 0 s" "held s = Map.empty"
    "txn_ok s 1" "dirtyset s = home s ` {..<1}" "home s 0 = (1, 50)" "view s (1, 50) = (\<lambda>_. 9)" "disk s = (\<lambda>_ _. 0)"
    "lg_dev s = 1" "lg_start s = 2" "havedisk1 s"
    using demo_txn by blast
  have z: "head_n (disk s (dsec (hdr s))) = 0" by (simp add: s(9) head_n_def blk_rd32_def)
  have lg: "lg_dev demo_log = lg_dev s" "lg_start demo_log = lg_start s" "havedisk1 demo_log = havedisk1 s"
    using s by simp_all
  obtain t W where t: "commit 0 s = Ok t" "dwrites t = dwrites s @ W" "\<And>p. p \<le> length W \<Longrightarrow>
      \<exists>u. recover_from_log 0 (restart demo_log (upd_all (take p W) (disk s))) = Ok u \<and>
      (\<forall>k. k \<noteq> hdr s \<and> (\<forall>i<1. k \<noteq> logb s i) \<longrightarrow> disk u (dsec k) =
        (if p \<le> 1 then disk s (dsec k) else if k \<in> home s ` {..<1} then view s k else disk s (dsec k)))"
    using commit_is_atomic [OF s(3,4,5) zero_less_one s(6) z boot_demo_log lg] by blast
  have "W = commit_writes s 1" using commit_ok [OF s(3,4,5) zero_less_one s(6)] t(1,2) by auto
  then have W: "2 \<le> length W" by (simp add: commit_writes_def)
  have k: "(1, 50) \<noteq> hdr s \<and> (\<forall>i<1. (1, 50) \<noteq> logb s i)" using s by (simp add: hdr_def logb_def log_blk_def)
  have d: "dsec (1, 50) = (1, 50)" by (simp add: dsec_def)
  obtain x where "recover_from_log 0 (restart demo_log (upd_all (take 1 W) (disk s))) = Ok x" "disk x (1, 50) = (\<lambda>_. 0)"
    using t(3) [of 1] W k d s(9) by fastforce
  moreover obtain y where "recover_from_log 0 (restart demo_log (upd_all (take 2 W) (disk s))) = Ok y" "disk y (1, 50) = (\<lambda>_. 9)"
    using t(3) [of 2] W k d s(7,8) by fastforce
  ultimately show ?thesis using s(1,2) t(1) by blast
qed


end
