(* ===== verification/Inode.thy ===== *)
theory Inode
  imports Log
begin

text \<open>
  The lower half of \<^verbatim>\<open>src/fs.c\<close>: the block allocator and the inode layer, over the log. An in-memory inode
  is an index into \<^verbatim>\<open>icache.inode\<close>; the two flag bits are truth values. A process that would sleep for an
  inode another process has locked does not return (\<open>Spin\<close>). \<^verbatim>\<open>iinit\<close>,
  which prints, follows the console.
\<close>

section \<open>Definitions\<close>

definition NDIRECT :: nat where "NDIRECT = 10"
definition NINDIRECT :: nat where "NINDIRECT = BSIZE div 4"
definition MAXFILE :: nat where "MAXFILE = NDIRECT + NINDIRECT"
definition IPB :: nat where "IPB = BSIZE div 64"
definition BPB :: nat where "BPB = BSIZE * 8"
definition NINODE :: nat where "NINODE = 50"
definition ROOTINO :: uint32 where "ROOTINO = 1"
definition T_DIR :: ushort where "T_DIR = 1"
definition T_FILE :: ushort where "T_FILE = 2"
definition T_DEV :: ushort where "T_DEV = 3"

text \<open>\<^verbatim>\<open>struct dinode\<close>, and its layout in a block: 64 bytes from offset \<open>p\<close>. The mode is the union read as an
  integer.\<close>

record dinode =
  d_type :: ushort
  d_major :: ushort
  d_minor :: ushort
  d_nlink :: ushort
  d_mode :: uint32
  d_uid :: ushort
  d_gid :: ushort
  d_size :: uint32
  d_addrs :: "nat \<Rightarrow> uint32"

definition blk_rd16 :: "block \<Rightarrow> nat \<Rightarrow> ushort" where
  "blk_rd16 d i = ucast (d i) OR push_bit 8 (ucast (d (i + 1)))"

definition blk_wr16 :: "nat \<Rightarrow> ushort \<Rightarrow> block \<Rightarrow> block" where
  "blk_wr16 i w d = d(i := ucast w, i + 1 := ucast (drop_bit 8 w))"

definition dip_get :: "block \<Rightarrow> nat \<Rightarrow> dinode" where
  "dip_get d p = \<lparr>d_type = blk_rd16 d p, d_major = blk_rd16 d (p + 2), d_minor = blk_rd16 d (p + 4),
     d_nlink = blk_rd16 d (p + 6), d_mode = blk_rd32 d (p + 8), d_uid = blk_rd16 d (p + 12),
     d_gid = blk_rd16 d (p + 14), d_size = blk_rd32 d (p + 16),
     d_addrs = (\<lambda>i. if i \<le> NDIRECT then blk_rd32 d (p + 20 + 4 * i) else 0)\<rparr>"

fun put_words :: "nat \<Rightarrow> (nat \<Rightarrow> uint32) \<Rightarrow> nat \<Rightarrow> block \<Rightarrow> block" where
  "put_words p f 0 d = d"
| "put_words p f (Suc n) d = blk_wr32 (p + 4 * n) (f n) (put_words p f n d)"

definition dip_put :: "nat \<Rightarrow> dinode \<Rightarrow> block \<Rightarrow> block" where
  "dip_put p r d =
     put_words (p + 20) (d_addrs r) (NDIRECT + 1)
      (blk_wr32 (p + 8) (d_mode r)
      (blk_wr16 (p + 14) (d_gid r)
      (blk_wr16 (p + 12) (d_uid r)
      (blk_wr32 (p + 16) (d_size r)
      (blk_wr16 (p + 6) (d_nlink r)
      (blk_wr16 (p + 4) (d_minor r)
      (blk_wr16 (p + 2) (d_major r)
      (blk_wr16 p (d_type r) d))))))))"

record inode =
  i_dev :: uint32
  i_inum :: uint32
  i_ref :: int
  i_busy :: bool
  i_valid :: bool
  i_d :: dinode

record icache = logst +
  inodes :: "nat \<Rightarrow> inode"
  fs_sb :: superblock

definition upd_inode :: "nat \<Rightarrow> (inode \<Rightarrow> inode) \<Rightarrow> 'a icache_scheme \<Rightarrow> 'a icache_scheme" where
  "upd_inode ip f s = s\<lparr>inodes := (inodes s)(ip := f (inodes s ip))\<rparr>"

definition upd_dinode :: "nat \<Rightarrow> (dinode \<Rightarrow> dinode) \<Rightarrow> 'a icache_scheme \<Rightarrow> 'a icache_scheme" where
  "upd_dinode ip f s = upd_inode ip (\<lambda>r. r\<lparr>i_d := f (i_d r)\<rparr>) s"

definition IBLOCK :: "uint32 \<Rightarrow> superblock \<Rightarrow> uint32" where
  "IBLOCK i sb = i div of_nat IPB + sb_inodestart sb"

definition ioff :: "uint32 \<Rightarrow> nat" where
  "ioff i = 64 * (unat i mod IPB)"

definition BBLOCK :: "uint32 \<Rightarrow> superblock \<Rightarrow> uint32" where
  "BBLOCK b sb = b div of_nat BPB + sb_bmapstart sb"

definition bzero :: "nat \<Rightarrow> uint32 \<Rightarrow> uint32 \<Rightarrow> 'a logst_scheme \<Rightarrow> 'a logst_scheme outcome" where
  "bzero c dev bno s =
     bnd (bread c dev bno s) (\<lambda>(bp, s).
     bnd (log_write c bp (set_data bp (\<lambda>_. 0) s)) (brelse c bp))"

definition bit_used :: "block \<Rightarrow> nat \<Rightarrow> bool" where
  "bit_used d bi = bit (d (bi div 8)) (bi mod 8)"

definition set_used :: "nat \<Rightarrow> block \<Rightarrow> block" where
  "set_used bi d = d(bi div 8 := d (bi div 8) OR push_bit (bi mod 8) 1)"

definition clear_used :: "nat \<Rightarrow> block \<Rightarrow> block" where
  "clear_used bi d = d(bi div 8 := d (bi div 8) AND NOT (push_bit (bi mod 8) 1))"

text \<open>The two loops of \<^verbatim>\<open>balloc\<close>: over the bitmap blocks, from block \<open>b\<close> on, and over the bits of one.\<close>

fun balloc_from :: "nat \<Rightarrow> nat \<Rightarrow> uint32 \<Rightarrow> nat \<Rightarrow> 'a icache_scheme \<Rightarrow> (uint32 \<times> 'a icache_scheme) outcome" where
  "balloc_from 0 c dev b s = Spin"
| "balloc_from (Suc k) c dev b s =
     (if b < unat (sb_size (fs_sb s)) then
        bnd (bread c dev (BBLOCK (of_nat b) (fs_sb s)) s) (\<lambda>(bp, s).
        case find (\<lambda>bi. \<not> bit_used (b_data (bufs s bp)) bi) [0..<min BPB (unat (sb_size (fs_sb s)) - b)] of
          Some bi \<Rightarrow>
            bnd (log_write c bp (set_data bp (set_used bi (b_data (bufs s bp))) s)) (\<lambda>s.
            bnd (brelse c bp s) (\<lambda>s.
            bnd (bzero c dev (of_nat (b + bi)) s) (\<lambda>s. Ok (of_nat (b + bi), s))))
        | None \<Rightarrow> bnd (brelse c bp s) (balloc_from k c dev (b + BPB)))
      else Panic ''balloc: out of blocks'')"

definition balloc :: "nat \<Rightarrow> uint32 \<Rightarrow> 'a icache_scheme \<Rightarrow> (uint32 \<times> 'a icache_scheme) outcome" where
  "balloc c dev s = balloc_from (unat (sb_size (fs_sb s)) div BPB + 2) c dev 0 s"

definition bfree :: "nat \<Rightarrow> uint32 \<Rightarrow> uint32 \<Rightarrow> 'a icache_scheme \<Rightarrow> 'a icache_scheme outcome" where
  "bfree c dev b s =
     bnd (readsb c dev s) (\<lambda>(sb, s).
     let s = s\<lparr>fs_sb := sb\<rparr>
     in bnd (bread c dev (BBLOCK b (fs_sb s)) s) (\<lambda>(bp, s).
        let bi = unat b mod BPB; d = b_data (bufs s bp)
        in if \<not> bit_used d bi then Panic ''freeing free block''
           else bnd (log_write c bp (set_data bp (clear_used bi d) s)) (brelse c bp)))"

definition iget :: "nat \<Rightarrow> uint32 \<Rightarrow> uint32 \<Rightarrow> 'a icache_scheme \<Rightarrow> (nat \<times> 'a icache_scheme) outcome" where
  "iget c dev inum s =
     bnd (acquire c Lk_icache s) (\<lambda>s.
     case find (\<lambda>i. i_ref (inodes s i) > 0 \<and> i_dev (inodes s i) = dev \<and> i_inum (inodes s i) = inum) [0..<NINODE] of
       Some ip \<Rightarrow>
         bnd (release c Lk_icache (upd_inode ip (\<lambda>r. r\<lparr>i_ref := i_ref r + 1\<rparr>) s)) (\<lambda>s. Ok (ip, s))
     | None \<Rightarrow>
         (case find (\<lambda>i. i_ref (inodes s i) = 0) [0..<NINODE] of
            None \<Rightarrow> Panic ''iget: no inodes''
          | Some ip \<Rightarrow>
              bnd (release c Lk_icache (upd_inode ip (\<lambda>r. r\<lparr>i_dev := dev, i_inum := inum, i_ref := 1,
                 i_busy := False, i_valid := False\<rparr>) s)) (\<lambda>s. Ok (ip, s))))"

definition zero_dinode :: dinode where
  "zero_dinode = \<lparr>d_type = 0, d_major = 0, d_minor = 0, d_nlink = 0, d_mode = 0, d_uid = 0, d_gid = 0, d_size = 0,
     d_addrs = (\<lambda>_. 0)\<rparr>"

text \<open>The loop of \<^verbatim>\<open>ialloc\<close> over the inode numbers that are left.\<close>

fun ialloc_from :: "nat \<Rightarrow> uint32 \<Rightarrow> ushort \<Rightarrow> nat list \<Rightarrow> 'a icache_scheme \<Rightarrow> (nat \<times> 'a icache_scheme) outcome" where
  "ialloc_from c dev ty [] s = Panic ''ialloc: no inodes''"
| "ialloc_from c dev ty (inum # ns) s =
     bnd (bread c dev (IBLOCK (of_nat inum) (fs_sb s)) s) (\<lambda>(bp, s).
     let d = b_data (bufs s bp); p = ioff (of_nat inum)
     in if d_type (dip_get d p) = 0
        then
          bnd (log_write c bp (set_data bp (dip_put p (zero_dinode\<lparr>d_type := ty\<rparr>) d) s)) (\<lambda>s.
          bnd (brelse c bp s) (iget c dev (of_nat inum)))
        else bnd (brelse c bp s) (ialloc_from c dev ty ns))"

definition ialloc :: "nat \<Rightarrow> uint32 \<Rightarrow> ushort \<Rightarrow> 'a icache_scheme \<Rightarrow> (nat \<times> 'a icache_scheme) outcome" where
  "ialloc c dev ty s = ialloc_from c dev ty [1..<unat (sb_ninodes (fs_sb s))] s"

definition iupdate :: "nat \<Rightarrow> nat \<Rightarrow> 'a icache_scheme \<Rightarrow> 'a icache_scheme outcome" where
  "iupdate c ip s =
     bnd (bread c (i_dev (inodes s ip)) (IBLOCK (i_inum (inodes s ip)) (fs_sb s)) s) (\<lambda>(bp, s).
     bnd (log_write c bp (set_data bp (dip_put (ioff (i_inum (inodes s ip))) (i_d (inodes s ip)) (b_data (bufs s bp))) s))
       (brelse c bp))"

definition idup :: "nat \<Rightarrow> nat \<Rightarrow> 'a icache_scheme \<Rightarrow> (nat \<times> 'a icache_scheme) outcome" where
  "idup c ip s =
     bnd (acquire c Lk_icache s) (\<lambda>s.
     bnd (release c Lk_icache (upd_inode ip (\<lambda>r. r\<lparr>i_ref := i_ref r + 1\<rparr>) s)) (\<lambda>s. Ok (ip, s)))"

definition ilock :: "nat \<Rightarrow> ptr \<Rightarrow> 'a icache_scheme \<Rightarrow> 'a icache_scheme outcome" where
  "ilock c ipp s = (case ipp of None \<Rightarrow> Panic ''ilock'' | Some ip \<Rightarrow>
     if i_ref (inodes s ip) < 1 then Panic ''ilock''
     else
       bnd (acquire c Lk_icache s) (\<lambda>s.
       if i_busy (inodes s ip) then Spin
       else
         bnd (release c Lk_icache (upd_inode ip (\<lambda>r. r\<lparr>i_busy := True\<rparr>) s)) (\<lambda>s.
         if i_valid (inodes s ip) then Ok s
         else
           bnd (bread c (i_dev (inodes s ip)) (IBLOCK (i_inum (inodes s ip)) (fs_sb s)) s) (\<lambda>(bp, s).
           let s = upd_dinode ip (\<lambda>_. dip_get (b_data (bufs s bp)) (ioff (i_inum (inodes s ip)))) s
           in bnd (brelse c bp s) (\<lambda>s.
              let s = upd_inode ip (\<lambda>r. r\<lparr>i_valid := True\<rparr>) s
              in if d_type (i_d (inodes s ip)) = 0 then Panic ''ilock: no type'' else Ok s)))))"

definition iunlock :: "nat \<Rightarrow> ptr \<Rightarrow> 'a icache_scheme \<Rightarrow> 'a icache_scheme outcome" where
  "iunlock c ipp s = (case ipp of None \<Rightarrow> Panic ''iunlock'' | Some ip \<Rightarrow>
     if \<not> i_busy (inodes s ip) \<or> i_ref (inodes s ip) < 1 then Panic ''iunlock''
     else
       bnd (acquire c Lk_icache s) (\<lambda>s.
       bnd (wakeup c (Chan_inode ip) (upd_inode ip (\<lambda>r. r\<lparr>i_busy := False\<rparr>) s)) (release c Lk_icache)))"

definition trunc_direct :: "nat \<Rightarrow> nat \<Rightarrow> nat \<Rightarrow> 'a icache_scheme \<Rightarrow> 'a icache_scheme outcome" where
  "trunc_direct c ip i s =
     (let a = d_addrs (i_d (inodes s ip)) i
      in if a \<noteq> 0
         then bnd (bfree c (i_dev (inodes s ip)) a s) (\<lambda>s. Ok (upd_dinode ip (\<lambda>r. r\<lparr>d_addrs := (d_addrs r)(i := 0)\<rparr>) s))
         else Ok s)"

definition trunc_indirect :: "nat \<Rightarrow> nat \<Rightarrow> nat \<Rightarrow> nat \<Rightarrow> 'a icache_scheme \<Rightarrow> 'a icache_scheme outcome" where
  "trunc_indirect c ip bp j s =
     (let a = blk_rd32 (b_data (bufs s bp)) (4 * j)
      in if a \<noteq> 0 then bfree c (i_dev (inodes s ip)) a s else Ok s)"

definition itrunc :: "nat \<Rightarrow> nat \<Rightarrow> 'a icache_scheme \<Rightarrow> 'a icache_scheme outcome" where
  "itrunc c ip s =
     bnd (for_each (trunc_direct c ip) [0..<NDIRECT] s) (\<lambda>s.
     let a = d_addrs (i_d (inodes s ip)) NDIRECT
     in bnd (if a \<noteq> 0
          then
            bnd (bread c (i_dev (inodes s ip)) a s) (\<lambda>(bp, s).
            bnd (for_each (trunc_indirect c ip bp) [0..<NINDIRECT] s) (\<lambda>s.
            bnd (brelse c bp s) (\<lambda>s.
            bnd (bfree c (i_dev (inodes s ip)) (d_addrs (i_d (inodes s ip)) NDIRECT) s) (\<lambda>s.
            Ok (upd_dinode ip (\<lambda>r. r\<lparr>d_addrs := (d_addrs r)(NDIRECT := 0)\<rparr>) s)))))
          else Ok s) (\<lambda>s.
        iupdate c ip (upd_dinode ip (\<lambda>r. r\<lparr>d_size := 0\<rparr>) s)))"

definition iput :: "nat \<Rightarrow> nat \<Rightarrow> 'a icache_scheme \<Rightarrow> 'a icache_scheme outcome" where
  "iput c ip s =
     bnd (acquire c Lk_icache s) (\<lambda>s.
     bnd (if i_ref (inodes s ip) = 1 \<and> i_valid (inodes s ip) \<and> d_nlink (i_d (inodes s ip)) = 0
          then
            if i_busy (inodes s ip) then Panic ''iput busy''
            else
              bnd (release c Lk_icache (upd_inode ip (\<lambda>r. r\<lparr>i_busy := True\<rparr>) s)) (\<lambda>s.
              bnd (itrunc c ip s) (\<lambda>s.
              bnd (iupdate c ip (upd_dinode ip (\<lambda>r. r\<lparr>d_type := 0\<rparr>) s)) (\<lambda>s.
              bnd (acquire c Lk_icache s) (\<lambda>s.
              wakeup c (Chan_inode ip) (upd_inode ip (\<lambda>r. r\<lparr>i_busy := False, i_valid := False\<rparr>) s)))))
          else Ok s) (\<lambda>s.
     release c Lk_icache (upd_inode ip (\<lambda>r. r\<lparr>i_ref := i_ref r - 1\<rparr>) s)))"

definition iunlockput :: "nat \<Rightarrow> nat \<Rightarrow> 'a icache_scheme \<Rightarrow> 'a icache_scheme outcome" where
  "iunlockput c ip s = bnd (iunlock c (Some ip) s) (iput c ip)"

definition bmap :: "nat \<Rightarrow> nat \<Rightarrow> uint32 \<Rightarrow> 'a icache_scheme \<Rightarrow> (uint32 \<times> 'a icache_scheme) outcome" where
  "bmap c ip bn s =
     (if unat bn < NDIRECT
      then
        let addr = d_addrs (i_d (inodes s ip)) (unat bn)
        in if addr = 0
           then bnd (balloc c (i_dev (inodes s ip)) s) (\<lambda>(addr, s).
             Ok (addr, upd_dinode ip (\<lambda>r. r\<lparr>d_addrs := (d_addrs r)(unat bn := addr)\<rparr>) s))
           else Ok (addr, s)
      else
        let bn = unat bn - NDIRECT
        in if bn < NINDIRECT
           then
             let addr = d_addrs (i_d (inodes s ip)) NDIRECT
             in bnd (if addr = 0
                  then bnd (balloc c (i_dev (inodes s ip)) s) (\<lambda>(addr, s).
                    Ok (addr, upd_dinode ip (\<lambda>r. r\<lparr>d_addrs := (d_addrs r)(NDIRECT := addr)\<rparr>) s))
                  else Ok (addr, s)) (\<lambda>(addr, s).
                bnd (bread c (i_dev (inodes s ip)) addr s) (\<lambda>(bp, s).
                let addr = blk_rd32 (b_data (bufs s bp)) (4 * bn)
                in bnd (if addr = 0
                     then bnd (balloc c (i_dev (inodes s ip)) s) (\<lambda>(addr, s).
                       let s = set_data bp (blk_wr32 (4 * bn) addr (b_data (bufs s bp))) s
                       in bnd (log_write c bp s) (\<lambda>s. Ok (addr, s)))
                     else Ok (addr, s)) (\<lambda>(addr, s).
                   bnd (brelse c bp s) (\<lambda>s. Ok (addr, s)))))
           else Panic ''bmap: out of range'')"

end
