(* ===== verification/Ring.thy ===== *)
theory Ring
  imports Prelude
begin

text \<open>
  Ring buffers with free-running 32-bit counters, as the console input (\<^verbatim>\<open>src/console.c\<close>) and the pipes
  (\<^verbatim>\<open>src/pipe.c\<close>) use them: a counter is reduced modulo the size of the buffer only when it is used as an index,
  and wraps around at $2^{32}$. The abstraction is the list of the elements between the two counters.
\<close>

definition ring_list :: "nat \<Rightarrow> (nat \<Rightarrow> 'b) \<Rightarrow> uint32 \<Rightarrow> uint32 \<Rightarrow> 'b list" where
  "ring_list N buf r w = map (\<lambda>k. buf ((unat r + k) mod N)) [0..<unat (w - r)]"

lemma ring_list_length [simp]: "length (ring_list N buf r w) = unat (w - r)"
  by (simp add: ring_list_def)

lemma ring_list_empty [simp]: "ring_list N buf r r = []"
  by (simp add: ring_list_def)

lemma ring_list_Nil_iff [simp]: "ring_list N buf r w = [] \<longleftrightarrow> w = r"
  by (simp add: ring_list_def unat_eq_zero)

lemma unat_Suc_diff:
  fixes r w :: uint32
  assumes "unat (w - r) < 2 ^ 32 - 1"
  shows "unat (w + 1 - r) = Suc (unat (w - r))"
proof -
  have "w + 1 - r = (w - r) + 1" by simp
  moreover have "unat ((w - r) + 1) = unat (w - r) + 1"
    using unat_add_no_wrap [of "w - r" 1] assms by simp
  ultimately show ?thesis by (metis Suc_eq_plus1)
qed

lemma unat_pred_diff:
  fixes r w :: uint32
  assumes "w \<noteq> r"
  shows "unat (w - 1 - r) = unat (w - r) - 1" and "unat (w - (r + 1)) = unat (w - r) - 1" and "0 < unat (w - r)"
proof -
  show g: "0 < unat (w - r)" using assms by (simp add: unat_gt_0)
  have "unat ((w - r) - 1) = unat (w - r) - 1" using assms by (simp add: unat_minus_one)
  then show "unat (w - 1 - r) = unat (w - r) - 1" and "unat (w - (r + 1)) = unat (w - r) - 1"
    by (simp_all add: algebra_simps)
qed

locale ring_buffer =
  fixes N :: nat
  assumes pos: "0 < N" and small: "N < 2 ^ 32" and dvd: "N dvd 2 ^ 32"
begin

lemma idx_add: "(unat (r :: uint32) + unat (w - r)) mod N = unat w mod N"
proof -
  have "unat w = (unat r + unat (w - r)) mod 2 ^ 32"
    using unat_word_ariths(1) [of r "w - r"] by simp
  then have "unat w mod N = (unat r + unat (w - r)) mod 2 ^ 32 mod N" by simp
  also have "\<dots> = (unat r + unat (w - r)) mod N" using dvd by (rule mod_mod_cancel)
  finally show ?thesis by simp
qed

lemma idx_inj: "j < N \<Longrightarrow> k < N \<Longrightarrow> (a + j) mod N = (a + k) mod N \<Longrightarrow> j = k"
proof -
  have "j \<le> k \<Longrightarrow> k < N \<Longrightarrow> (a + k) mod N = (a + j) mod N \<Longrightarrow> j = k" for j k
  proof -
    assume h: "j \<le> k" "k < N" "(a + k) mod N = (a + j) mod N"
    then have "N dvd (a + k) - (a + j)" by (intro mod_eq_dvd_iff_nat [THEN iffD1]) auto
    with h show "j = k" by (auto dest: dvd_imp_le)
  qed
  then show "j < N \<Longrightarrow> k < N \<Longrightarrow> (a + j) mod N = (a + k) mod N \<Longrightarrow> j = k" by (metis nat_le_linear)
qed

lemma put:
  assumes "unat (w - r) < N"
  shows "ring_list N (buf(unat w mod N := x)) r (w + 1) = ring_list N buf r w @ [x]"
proof -
  have s: "unat (w + 1 - r) = Suc (unat (w - r))" using assms small by (intro unat_Suc_diff) simp
  have ne: "(unat r + k) mod N \<noteq> unat w mod N" if "k < unat (w - r)" for k
    using idx_inj [of k "unat (w - r)" "unat r"] that assms idx_add [of r w] by auto
  show ?thesis using idx_add [of r w] by (simp add: ring_list_def s ne)
qed

lemma get:
  assumes "w \<noteq> r"
  shows "ring_list N buf r w = buf (unat r mod N) # ring_list N buf (r + 1) w"
proof -
  have n: "unat (w - r) = Suc (unat (w - (r + 1)))" using unat_pred_diff [OF assms] by simp
  have "(unat (r + 1) + k) mod N = (unat r + Suc k) mod N" for k
  proof -
    have "unat (r + 1) mod N = (unat r + 1) mod N" using idx_add [of r "r + 1"] by simp
    then show ?thesis by (metis Suc_eq_plus1 add.commute add.left_commute mod_add_left_eq)
  qed
  then show ?thesis unfolding ring_list_def n by (simp add: upt_conv_Cons map_Suc_upt [symmetric] del: upt_Suc map_Suc_upt)
qed

lemma unput: "w \<noteq> r \<Longrightarrow> ring_list N buf r (w - 1) = butlast (ring_list N buf r w)"
  by (cases "unat (w - r)") (simp_all add: ring_list_def unat_pred_diff map_butlast [symmetric])

lemma last_elem: "w \<noteq> r \<Longrightarrow> last (ring_list N buf r w) = buf (unat (w - 1) mod N)"
  using idx_add [of r "w - 1"] by (simp add: ring_list_def last_map last_upt unat_pred_diff)

lemma split:
  assumes "unat (w - r) \<le> unat (e - r)"
  shows "ring_list N buf r e = ring_list N buf r w @ ring_list N buf w e"
proof -
  have d: "unat (e - w) = unat (e - r) - unat (w - r)"
  proof -
    have "unat ((e - r) - (w - r)) = unat (e - r) - unat (w - r)"
      using assms by (intro unat_sub) (simp add: word_le_nat_alt)
    then show ?thesis by simp
  qed
  have i: "(unat w + k) mod N = (unat r + (unat (w - r) + k)) mod N" for k
    using idx_add [of r w] by (metis add.assoc mod_add_left_eq)
  have "[unat (w - r)..<unat (e - r)] = map (\<lambda>k. unat (w - r) + k) [0..<unat (e - w)]"
    using map_add_upt [of "unat (w - r)" "unat (e - w)"] assms by (simp add: d add.commute)
  then have u: "[0..<unat (e - r)] = [0..<unat (w - r)] @ map (\<lambda>k. unat (w - r) + k) [0..<unat (e - w)]"
    using upt_add_eq_append [of 0 "unat (w - r)" "unat (e - r) - unat (w - r)"] assms by simp
  show ?thesis unfolding ring_list_def u by (simp add: i)
qed

end

end
