(* ===== verification/Console.thy ===== *)
theory Console
  imports Inode Ring "HOL-Library.Signed_Division"
begin

text \<open>
  The console, \<^verbatim>\<open>src/console.c\<close>, with the process listings of \<^verbatim>\<open>src/proc.c\<close> that print on it. The screen is the
  array \<open>crt\<close> with the cursor position that the CRT controller keeps; the serial line is the list of bytes sent,
  and \<open>uart\<close> says whether there is one. Bytes are \<open>8 word\<close>, and a string is the list of its bytes before the
  terminating zero. An interrupt delivers the characters that \<^verbatim>\<open>getc\<close> returns before its first negative result.
\<close>

section \<open>State\<close>

definition NDEV :: nat where "NDEV = 10"
definition CONSOLE :: nat where "CONSOLE = 1"
definition INPUT_BUF :: nat where "INPUT_BUF = 128"
definition BACKSPACE :: int where "BACKSPACE = 0x100"

datatype devfn = Dev_null | Dev_console

record conss = icache +
  cons_locking :: bool
  panicked :: bool
  crt :: "nat \<Rightarrow> ushort"
  crt_pos :: int
  uart :: bool
  uart_out :: "uchar list"
  in_buf :: "nat \<Rightarrow> uchar"
  in_r :: uint32
  in_w :: uint32
  in_e :: uint32
  dev_read :: "nat \<Rightarrow> devfn"
  dev_write :: "nat \<Rightarrow> devfn"

definition bytes :: "string \<Rightarrow> uchar list" where
  "bytes cs = map of_char cs"

section \<open>Output\<close>

definition uartputc :: "int \<Rightarrow> 'a conss_scheme \<Rightarrow> 'a conss_scheme" where
  "uartputc ch s = (if uart s then s\<lparr>uart_out := uart_out s @ [of_int ch]\<rparr> else s)"

definition scroll :: "int \<Rightarrow> (nat \<Rightarrow> ushort) \<Rightarrow> nat \<Rightarrow> ushort" where
  "scroll pos m =
     (let m = (\<lambda>i. if i < 23 * 80 then m (i + 80) else m i)
      in (\<lambda>i. if nat pos \<le> i \<and> i < 24 * 80 then 0 else m i))"

definition cgaputc :: "int \<Rightarrow> 'a conss_scheme \<Rightarrow> 'a conss_scheme outcome" where
  "cgaputc ch s =
     (let pos = crt_pos s;
          (m, pos) =
            (if ch = 10 then (crt s, pos + 80 - pos mod 80)
             else if ch = BACKSPACE then (crt s, if pos > 0 then pos - 1 else pos)
             else ((crt s)(nat pos := (of_int ch AND 0xff) OR 0x0700), pos + 1))
      in if pos < 0 \<or> pos > 25 * 80 then Panic ''pos under/overflow''
         else
           let (m, pos) = (if pos div 80 \<ge> 24 then (scroll (pos - 80) m, pos - 80) else (m, pos))
           in Ok (s\<lparr>crt := m(nat pos := 0x0720), crt_pos := pos\<rparr>))"

definition consputc :: "int \<Rightarrow> 'a conss_scheme \<Rightarrow> 'a conss_scheme outcome" where
  "consputc ch s =
     (if panicked s then Spin
      else
        cgaputc ch (if ch = BACKSPACE then uartputc 8 (uartputc 32 (uartputc 8 s)) else uartputc ch s))"

definition put_bytes :: "uchar list \<Rightarrow> 'a conss_scheme \<Rightarrow> 'a conss_scheme outcome" where
  "put_bytes bs = for_each (\<lambda>b. consputc (uint b)) bs"

text \<open>The digits that \<^verbatim>\<open>printint\<close> leaves in its buffer, least significant first; sixteen are enough for a
  32-bit number in base ten or sixteen.\<close>

definition digit :: "nat \<Rightarrow> uchar" where
  "digit d = (if d < 10 then of_nat (48 + d) else of_nat (87 + d))"

fun int_digits :: "nat \<Rightarrow> nat \<Rightarrow> nat \<Rightarrow> uchar list" where
  "int_digits 0 base x = []"
| "int_digits (Suc n) base x =
     digit (x mod base) # (if x div base \<noteq> 0 then int_digits n base (x div base) else [])"

definition printint_bytes :: "uint32 \<Rightarrow> nat \<Rightarrow> bool \<Rightarrow> uchar list" where
  "printint_bytes xx base sg =
     (let neg = sg \<and> sint xx < 0;
          x = (if neg then - xx else xx);
          buf = int_digits 16 base (unat x)
      in rev (if neg then buf @ [45] else buf))"

definition printint :: "uint32 \<Rightarrow> nat \<Rightarrow> bool \<Rightarrow> 'a conss_scheme \<Rightarrow> 'a conss_scheme outcome" where
  "printint xx base sg = put_bytes (printint_bytes xx base sg)"

text \<open>The arguments of \<^verbatim>\<open>cprintf\<close>: words and string pointers, \<open>AStr None\<close> being the null pointer. A directive
  without the argument it needs reads whatever lies on the stack, which C leaves undefined (\<open>Fault\<close>).\<close>

datatype arg = AInt uint32 | AStr "uchar list option"

fun cprintf_from :: "uchar list \<Rightarrow> arg list \<Rightarrow> 'a conss_scheme \<Rightarrow> 'a conss_scheme outcome" where
  "cprintf_from [] as s = Ok s"
| "cprintf_from (ch # fmt) as s =
     (if ch \<noteq> 37 then bnd (consputc (uint ch) s) (cprintf_from fmt as)
      else case fmt of
        [] \<Rightarrow> Ok s
      | d # fmt \<Rightarrow>
         if d = 100 then
           (case as of AInt w # as \<Rightarrow> bnd (printint w 10 True s) (cprintf_from fmt as) | _ \<Rightarrow> Fault)
         else if d = 120 \<or> d = 112 then
           (case as of AInt w # as \<Rightarrow> bnd (printint w 16 False s) (cprintf_from fmt as) | _ \<Rightarrow> Fault)
         else if d = 115 then
           (case as of AStr x # as \<Rightarrow>
              bnd (put_bytes (case x of None \<Rightarrow> bytes ''(null)'' | Some bs \<Rightarrow> bs) s) (cprintf_from fmt as)
            | _ \<Rightarrow> Fault)
         else if d = 37 then bnd (consputc 37 s) (cprintf_from fmt as)
         else bnd (consputc 37 s) (\<lambda>s. bnd (consputc (uint d) s) (cprintf_from fmt as)))"

definition cprintf :: "nat \<Rightarrow> uchar list \<Rightarrow> arg list \<Rightarrow> 'a conss_scheme \<Rightarrow> 'a conss_scheme outcome" where
  "cprintf c fmt as s =
     (let lk = cons_locking s
      in bnd (if lk then acquire c Lk_cons s else Ok s) (\<lambda>s.
         bnd (cprintf_from fmt as s) (\<lambda>s.
         if lk then release c Lk_cons s else Ok s)))"

text \<open>\<^verbatim>\<open>panic\<close> up to the endless loop that ends it, with the address of its argument \<^verbatim>\<open>s\<close> on the stack. The
  components below only record the message (\<open>Panic\<close>).\<close>

definition panic :: "nat \<Rightarrow> uchar list \<Rightarrow> uint32 \<Rightarrow> 'a conss_scheme \<Rightarrow> 'a conss_scheme outcome" where
  "panic c msg v s =
     bnd (cprintf c (bytes ''cpu%d: panic: '') [AInt (ucast (c_id (cpus s c)))] ((cli c s)\<lparr>cons_locking := False\<rparr>)) (\<lambda>s.
     bnd (cprintf c msg [] s) (\<lambda>s.
     bnd (cprintf c [10] [] s) (\<lambda>s.
     bnd (for_each (\<lambda>pc. cprintf c (bytes '' %p'') [AInt pc]) (getcallerpcs (\<lambda>a. ld32 a (mem s)) v) s) (\<lambda>s.
     Ok (s\<lparr>panicked := True\<rparr>)))))"

section \<open>Process listings\<close>

definition print_ticks :: "nat \<Rightarrow> uint32 \<Rightarrow> 'a conss_scheme \<Rightarrow> 'a conss_scheme outcome" where
  "print_ticks c time s =
     (let t = sint time
      in bnd (cprintf c (bytes ''%d.'') [AInt (of_int (t sdiv 1000))] s) (\<lambda>s.
         bnd (cprintf c (bytes ''%d'') [AInt (of_int ((t smod 1000) sdiv 100))] s) (\<lambda>s.
         bnd (cprintf c (bytes ''%d'') [AInt (of_int ((t smod 100) sdiv 10))] s) (\<lambda>s.
         bnd (cprintf c (bytes ''%d'') [AInt (of_int ((t smod 10) sdiv 1))] s) (\<lambda>s.
         cprintf c (bytes ''s'' @ [9]) [] s)))))"

definition state_name :: "procstate \<Rightarrow> uchar list" where
  "state_name st = bytes (case st of UNUSED \<Rightarrow> ''unused'' | EMBRYO \<Rightarrow> ''embryo'' | SLEEPING \<Rightarrow> ''sleep ''
     | RUNNABLE \<Rightarrow> ''runble'' | RUNNING \<Rightarrow> ''run   '' | ZOMBIE \<Rightarrow> ''zombie'')"

fun print_pcs :: "nat \<Rightarrow> uint32 list \<Rightarrow> 'a conss_scheme \<Rightarrow> 'a conss_scheme outcome" where
  "print_pcs c [] s = Ok s"
| "print_pcs c (pc # pcs) s =
     (if pc \<noteq> 0 then bnd (cprintf c (bytes '' %p'') [AInt pc] s) (print_pcs c pcs) else Ok s)"

definition tabbed :: "string list \<Rightarrow> uchar list" where
  "tabbed xs = concat (map (\<lambda>x. bytes x @ [9]) xs)"

definition procdump_one :: "nat \<Rightarrow> nat \<Rightarrow> 'a conss_scheme \<Rightarrow> 'a conss_scheme outcome" where
  "procdump_one c p s =
     (let r = procs s p
      in if p_state r = UNUSED then Ok s
         else
           bnd (deref (p_parent r)) (\<lambda>q.
           bnd (cprintf c (tabbed [''%d'', ''%s'', ''%d'', ''%d'', ''%d'', ''%d''])
                 [AInt (p_pid r), AStr (Some (bytes (p_name r))), AInt (p_uid r), AInt (p_gid r),
                  AInt (p_pid (procs s q)), AInt (of_nat MAXPRIO - p_priority r)] s) (\<lambda>s.
           bnd (print_ticks c (ticks s - p_start_ticks r) s) (\<lambda>s.
           bnd (print_ticks c (p_cpu_ticks_total r) s) (\<lambda>s.
           bnd (cprintf c (bytes ''%s '') [AStr (Some (state_name (p_state r)))] s) (\<lambda>s.
           bnd (if p_state r = SLEEPING
                then print_pcs c (getcallerpcs (\<lambda>a. ld32 a (mem s)) (x_ebp (p_context r) + 8)) s
                else Ok s)
             (cprintf c [10] [])))))))"

definition procdump :: "nat \<Rightarrow> 'a conss_scheme \<Rightarrow> 'a conss_scheme outcome" where
  "procdump c s =
     bnd (cprintf c (tabbed [''PID'', ''Name'', ''UID'', ''GID'', ''PPID'', ''Prio'', ''Elapsed'', ''CPU'', ''STATE'']
            @ bytes ''PCs'' @ [10]) [] s)
       (for_each (procdump_one c) [0..<NPROC])"

text \<open>\<^verbatim>\<open>countList\<close> and the loops of the listings follow a list of at most \<open>NPROC\<close> processes.\<close>

fun countList :: "nat \<Rightarrow> (nat \<Rightarrow> proc) \<Rightarrow> ptr \<Rightarrow> nat outcome" where
  "countList n ps None = Ok 0"
| "countList 0 ps (Some p) = Spin"
| "countList (Suc n) ps (Some p) = bnd (countList n ps (p_next (ps p))) (\<lambda>i. Ok (Suc i))"

definition printFree :: "nat \<Rightarrow> 'a conss_scheme \<Rightarrow> 'a conss_scheme outcome" where
  "printFree c s =
     bnd (countList NPROC (procs s) (heads s Lfree)) (\<lambda>n.
     cprintf c (bytes ''Free List:'' @ [10] @ bytes ''F -> %d procs.'' @ [10]) [AInt (of_nat n)] s)"

definition printSleep :: "nat \<Rightarrow> 'a conss_scheme \<Rightarrow> 'a conss_scheme outcome" where
  "printSleep c s =
     bnd (cprintf c (bytes ''Sleep List:'' @ [10] @ bytes ''S -> '') [] s) (\<lambda>s.
     bnd (walk NPROC (\<lambda>p s. cprintf c (bytes ''%d -> '') [AInt (p_pid (procs s p))] s) (heads s Lsleep) s)
       (cprintf c (bytes ''.'' @ [10]) []))"

definition printReady :: "nat \<Rightarrow> 'a conss_scheme \<Rightarrow> 'a conss_scheme outcome" where
  "printReady c s =
     bnd (cprintf c (bytes ''Ready Lists:'' @ [10]) [] s)
       (for_each (\<lambda>i s.
          bnd (cprintf c (bytes ''R%d -> '') [AInt (of_nat (MAXPRIO - i))] s) (\<lambda>s.
          bnd (walk NPROC (\<lambda>p s. cprintf c (bytes ''%d:%d -> '')
                 [AInt (p_pid (procs s p)), AInt (p_budget (procs s p))] s) (heads s (Lready i)) s)
            (cprintf c (bytes ''.'' @ [10]) []))) [0..<Suc MAXPRIO])"

definition printZombie :: "nat \<Rightarrow> 'a conss_scheme \<Rightarrow> 'a conss_scheme outcome" where
  "printZombie c s =
     bnd (cprintf c (bytes ''Zombie List:'' @ [10] @ bytes ''Z -> '') [] s) (\<lambda>s.
     bnd (walk NPROC (\<lambda>p s. bnd (deref (p_parent (procs s p))) (\<lambda>q.
            cprintf c (bytes ''(%d, %d) -> '') [AInt (p_pid (procs s p)), AInt (p_pid (procs s q))] s)) (heads s Lzombie) s)
       (cprintf c (bytes ''.'' @ [10]) []))"

section \<open>Input\<close>

definition buf_at :: "uint32 \<Rightarrow> 'a conss_scheme \<Rightarrow> uchar" where
  "buf_at i s = in_buf s (unat i mod INPUT_BUF)"

text \<open>Control-U: erase back to the last newline or to the end of the committed input. At most all of the
  buffer's characters can be erased.\<close>

fun kill_line :: "nat \<Rightarrow> 'a conss_scheme \<Rightarrow> 'a conss_scheme outcome" where
  "kill_line 0 s = Spin"
| "kill_line (Suc n) s =
     (if in_e s \<noteq> in_w s \<and> buf_at (in_e s - 1) s \<noteq> 10
      then bnd (consputc BACKSPACE (s\<lparr>in_e := in_e s - 1\<rparr>)) (kill_line n)
      else Ok s)"

text \<open>What the interrupt has to do after it has released the lock.\<close>

record conreq =
  doprocdump :: bool
  printlist :: nat

definition ctrl :: "char \<Rightarrow> int" where
  "ctrl x = of_char x - 64"

definition store_char :: "nat \<Rightarrow> int \<Rightarrow> 'a conss_scheme \<Rightarrow> 'a conss_scheme outcome" where
  "store_char c ch s =
     (if ch \<noteq> 0 \<and> unat (in_e s - in_r s) < INPUT_BUF
      then
        let ch = (if ch = 13 then 10 else ch);
            s = s\<lparr>in_buf := (in_buf s)(unat (in_e s) mod INPUT_BUF := of_int ch), in_e := in_e s + 1\<rparr>
        in bnd (consputc ch s) (\<lambda>s.
           if ch = 10 \<or> ch = ctrl (CHR ''D'') \<or> in_e s = in_r s + of_nat INPUT_BUF
           then wakeup c Chan_input (s\<lparr>in_w := in_e s\<rparr>)
           else Ok s)
      else Ok s)"

definition con_char :: "nat \<Rightarrow> int \<Rightarrow> conreq \<Rightarrow> 'a conss_scheme \<Rightarrow> (conreq \<times> 'a conss_scheme) outcome" where
  "con_char c ch q s =
     (if ch = ctrl (CHR ''P'') then Ok (q\<lparr>doprocdump := True\<rparr>, s)
      else if ch = ctrl (CHR ''F'') then Ok (q\<lparr>printlist := 1\<rparr>, s)
      else if ch = ctrl (CHR ''S'') then Ok (q\<lparr>printlist := 2\<rparr>, s)
      else if ch = ctrl (CHR ''R'') then Ok (q\<lparr>printlist := 3\<rparr>, s)
      else if ch = ctrl (CHR ''Z'') then Ok (q\<lparr>printlist := 4\<rparr>, s)
      else if ch = ctrl (CHR ''U'') then bnd (kill_line (INPUT_BUF + 1) s) (\<lambda>s. Ok (q, s))
      else if ch = ctrl (CHR ''H'') \<or> ch = 0x7f then
        if in_e s \<noteq> in_w s
        then bnd (consputc BACKSPACE (s\<lparr>in_e := in_e s - 1\<rparr>)) (\<lambda>s. Ok (q, s))
        else Ok (q, s)
      else bnd (store_char c ch s) (\<lambda>s. Ok (q, s)))"

fun con_chars :: "nat \<Rightarrow> int list \<Rightarrow> conreq \<Rightarrow> 'a conss_scheme \<Rightarrow> (conreq \<times> 'a conss_scheme) outcome" where
  "con_chars c [] q s = Ok (q, s)"
| "con_chars c (ch # cs) q s = bnd (con_char c ch q s) (\<lambda>(q, s). con_chars c cs q s)"

definition consoleintr :: "nat \<Rightarrow> int list \<Rightarrow> 'a conss_scheme \<Rightarrow> 'a conss_scheme outcome" where
  "consoleintr c cs s =
     bnd (acquire c Lk_cons s) (\<lambda>s.
     bnd (con_chars c cs \<lparr>doprocdump = False, printlist = 0\<rparr> s) (\<lambda>(q, s).
     bnd (release c Lk_cons s) (\<lambda>s.
     bnd (if doprocdump q then procdump c s else Ok s) (\<lambda>s.
     if printlist q = 1 then printFree c s
     else if printlist q = 2 then printSleep c s
     else if printlist q = 3 then printReady c s
     else if printlist q = 4 then printZombie c s
     else Ok s))))"

text \<open>The loop of \<^verbatim>\<open>consoleread\<close>: \<open>target\<close> and \<open>n\<close> as in the code, with the bytes delivered so far; the result is
  what is left of \<open>n\<close>, or nothing when the process was killed. With no input the process sleeps (\<open>Spin\<close>).\<close>

fun read_line :: "nat \<Rightarrow> nat \<Rightarrow> nat \<Rightarrow> uchar list \<Rightarrow> 'a conss_scheme \<Rightarrow> (nat option \<times> uchar list \<times> 'a conss_scheme) outcome" where
  "read_line c target 0 out s = Ok (Some 0, out, s)"
| "read_line c target (Suc n) out s =
     (if in_r s = in_w s
      then bnd (deref (c_proc (cpus s c))) (\<lambda>p. if p_killed (procs s p) then Ok (None, out, s) else Spin)
      else
        let ch = buf_at (in_r s) s; s = s\<lparr>in_r := in_r s + 1\<rparr>
        in if ch = 4
           then Ok (Some (Suc n), out, if Suc n < target then s\<lparr>in_r := in_r s - 1\<rparr> else s)
           else if ch = 10 then Ok (Some n, out @ [ch], s)
           else read_line c target n (out @ [ch]) s)"

definition consoleread :: "nat \<Rightarrow> nat \<Rightarrow> int \<Rightarrow> 'a conss_scheme \<Rightarrow> (int \<times> uchar list \<times> 'a conss_scheme) outcome" where
  "consoleread c ip n s =
     bnd (iunlock c (Some ip) s) (\<lambda>s.
     bnd (acquire c Lk_cons s) (\<lambda>s.
     bnd (read_line c (nat n) (nat n) [] s) (\<lambda>(r, out, s).
     bnd (release c Lk_cons s) (\<lambda>s.
     bnd (ilock c (Some ip) s) (\<lambda>s.
     case r of None \<Rightarrow> Ok (- 1, out, s) | Some left \<Rightarrow> Ok (int (nat n) - int left, out, s))))))"

definition consolewrite :: "nat \<Rightarrow> nat \<Rightarrow> uchar list \<Rightarrow> 'a conss_scheme \<Rightarrow> (int \<times> 'a conss_scheme) outcome" where
  "consolewrite c ip bs s =
     bnd (iunlock c (Some ip) s) (\<lambda>s.
     bnd (acquire c Lk_cons s) (\<lambda>s.
     bnd (put_bytes bs s) (\<lambda>s.
     bnd (release c Lk_cons s) (\<lambda>s.
     bnd (ilock c (Some ip) s) (\<lambda>s. Ok (int (length bs), s))))))"

definition consoleinit :: "'a conss_scheme \<Rightarrow> 'a conss_scheme" where
  "consoleinit s =
     (initlock Lk_cons ''console'' s)\<lparr>dev_write := (dev_write s)(CONSOLE := Dev_console),
        dev_read := (dev_read s)(CONSOLE := Dev_console), cons_locking := True\<rparr>"

end
