(* ===== verification/Fs.thy ===== *)
theory Fs
  imports Console
begin

text \<open>
  The upper half of \<^verbatim>\<open>src/fs.c\<close>: inode content, directories and path names. \<open>readi\<close> returns the bytes it
  delivers beside the C result, and \<open>writei\<close> takes the bytes it is given, so that the layers above say where
  they come from. A device inode goes to the functions registered in \<^verbatim>\<open>devsw\<close>. A path is the list of its
  bytes before the terminating zero, a name that of at most \<^verbatim>\<open>DIRSIZ\<close> bytes.
\<close>

section \<open>Content\<close>

definition iinit :: "nat \<Rightarrow> uint32 \<Rightarrow> 'a conss_scheme \<Rightarrow> 'a conss_scheme outcome" where
  "iinit c dev s =
     bnd (readsb c dev (initlock Lk_icache ''icache'' s)) (\<lambda>(sb, s).
     cprintf c (bytes ''sb: size %d nblocks %d ninodes %d nlog %d logstart %d inodestart %d bmap start %d'' @ [10])
       (map AInt [sb_size sb, sb_nblocks sb, sb_ninodes sb, sb_nlog sb, sb_logstart sb, sb_inodestart sb, sb_bmapstart sb])
       (s\<lparr>fs_sb := sb\<rparr>))"

record stat =
  st_type :: ushort
  st_dev :: uint32
  st_ino :: uint32
  st_nlink :: ushort
  st_mode :: uint32
  st_uid :: ushort
  st_gid :: ushort
  st_size :: uint32

definition stati :: "nat \<Rightarrow> 'a icache_scheme \<Rightarrow> stat" where
  "stati ip s =
     (let r = inodes s ip; d = i_d r
      in \<lparr>st_type = d_type d, st_dev = i_dev r, st_ino = i_inum r, st_nlink = d_nlink d, st_mode = d_mode d,
          st_uid = d_uid d, st_gid = d_gid d, st_size = d_size d\<rparr>)"

text \<open>The bytes of a transfer that lie in one block: \<^verbatim>\<open>min(n - tot, BSIZE - off % BSIZE)\<close>. Each round of the two
  loops moves at least one byte, so \<open>unat n + 1\<close> rounds are enough.\<close>

definition chunk :: "uint32 \<Rightarrow> uint32 \<Rightarrow> uint32 \<Rightarrow> uint32" where
  "chunk n tot off = min (n - tot) (of_nat BSIZE - off mod of_nat BSIZE)"

definition slice :: "block \<Rightarrow> nat \<Rightarrow> nat \<Rightarrow> uchar list" where
  "slice d i m = map (\<lambda>k. d (i + k)) [0..<m]"

definition splice :: "nat \<Rightarrow> uchar list \<Rightarrow> block \<Rightarrow> block" where
  "splice i bs d = (\<lambda>k. if i \<le> k \<and> k < i + length bs then bs ! (k - i) else d k)"

fun readi_loop :: "nat \<Rightarrow> nat \<Rightarrow> nat \<Rightarrow> uint32 \<Rightarrow> uint32 \<Rightarrow> uint32 \<Rightarrow> uchar list \<Rightarrow> 'a icache_scheme
    \<Rightarrow> (uchar list \<times> 'a icache_scheme) outcome" where
  "readi_loop 0 c ip off n tot out s = Spin"
| "readi_loop (Suc k) c ip off n tot out s =
     (if tot < n
      then
        bnd (bmap c ip (off div of_nat BSIZE) s) (\<lambda>(a, s).
        bnd (bread c (i_dev (inodes s ip)) a s) (\<lambda>(bp, s).
        let m = chunk n tot off;
            bs = slice (b_data (bufs s bp)) (unat (off mod of_nat BSIZE)) (unat m)
        in bnd (brelse c bp s) (readi_loop k c ip (off + m) n (tot + m) (out @ bs))))
      else Ok (out, s))"

definition readi :: "nat \<Rightarrow> nat \<Rightarrow> uint32 \<Rightarrow> uint32 \<Rightarrow> 'a conss_scheme \<Rightarrow> (int \<times> uchar list \<times> 'a conss_scheme) outcome" where
  "readi c ip off n s =
     (let d = i_d (inodes s ip)
      in if d_type d = T_DEV
         then
           if sint (d_major d) < 0 \<or> sint (d_major d) \<ge> int NDEV \<or> dev_read s (unat (d_major d)) = Dev_null
           then Ok (- 1, [], s)
           else consoleread c ip (sint n) s
         else if off > d_size d \<or> off + n < off then Ok (- 1, [], s)
         else
           let n = (if off + n > d_size d then d_size d - off else n)
           in bnd (readi_loop (unat n + 1) c ip off n 0 [] s) (\<lambda>(out, s). Ok (sint n, out, s)))"

fun writei_loop :: "nat \<Rightarrow> nat \<Rightarrow> nat \<Rightarrow> uchar list \<Rightarrow> uint32 \<Rightarrow> uint32 \<Rightarrow> uint32 \<Rightarrow> 'a icache_scheme
    \<Rightarrow> (uint32 \<times> 'a icache_scheme) outcome" where
  "writei_loop 0 c ip src off n tot s = Spin"
| "writei_loop (Suc k) c ip src off n tot s =
     (if tot < n
      then
        bnd (bmap c ip (off div of_nat BSIZE) s) (\<lambda>(a, s).
        bnd (bread c (i_dev (inodes s ip)) a s) (\<lambda>(bp, s).
        let m = chunk n tot off;
            s = set_data bp (splice (unat (off mod of_nat BSIZE)) (take (unat m) src) (b_data (bufs s bp))) s
        in bnd (log_write c bp s) (\<lambda>s.
           bnd (brelse c bp s) (writei_loop k c ip (drop (unat m) src) (off + m) n (tot + m)))))
      else Ok (off, s))"

definition writei :: "nat \<Rightarrow> nat \<Rightarrow> uchar list \<Rightarrow> uint32 \<Rightarrow> 'a conss_scheme \<Rightarrow> (int \<times> 'a conss_scheme) outcome" where
  "writei c ip src off s =
     (let d = i_d (inodes s ip); n = of_nat (length src) :: uint32
      in if d_type d = T_DEV
         then
           if sint (d_major d) < 0 \<or> sint (d_major d) \<ge> int NDEV \<or> dev_write s (unat (d_major d)) = Dev_null
           then Ok (- 1, s)
           else consolewrite c ip src s
         else if off > d_size d \<or> off + n < off then Ok (- 1, s)
         else if off + n > of_nat (MAXFILE * BSIZE) then Ok (- 1, s)
         else
           bnd (writei_loop (unat n + 1) c ip src off n 0 s) (\<lambda>(off, s).
           bnd (if n > 0 \<and> off > d_size (i_d (inodes s ip))
                then iupdate c ip (upd_dinode ip (\<lambda>r. r\<lparr>d_size := off\<rparr>) s)
                else Ok s) (\<lambda>s. Ok (sint n, s))))"

section \<open>Directories\<close>

definition DIRSIZ :: nat where "DIRSIZ = 14"

record dirent =
  de_inum :: ushort
  de_name :: "uchar list"

text \<open>The sixteen bytes of a directory entry.\<close>

definition dirent_of :: "uchar list \<Rightarrow> dirent" where
  "dirent_of bs = \<lparr>de_inum = blk_rd16 (\<lambda>i. bs ! i) 0, de_name = take DIRSIZ (drop 2 bs)\<rparr>"

definition dirent_bytes :: "dirent \<Rightarrow> uchar list" where
  "dirent_bytes de = [ucast (de_inum de), ucast (drop_bit 8 (de_inum de))] @ de_name de"

text \<open>\<^verbatim>\<open>strncmp\<close> on strings given by their bytes: past the last one there is a zero.\<close>

definition hd0 :: "uchar list \<Rightarrow> uchar" where
  "hd0 xs = (case xs of [] \<Rightarrow> 0 | x # _ \<Rightarrow> x)"

fun strncmp_l :: "nat \<Rightarrow> uchar list \<Rightarrow> uchar list \<Rightarrow> int" where
  "strncmp_l 0 p q = 0"
| "strncmp_l (Suc n) p q =
     (if hd0 p \<noteq> 0 \<and> hd0 p = hd0 q then strncmp_l n (tl p) (tl q) else uint (hd0 p) - uint (hd0 q))"

definition namecmp :: "uchar list \<Rightarrow> uchar list \<Rightarrow> int" where
  "namecmp p q = strncmp_l DIRSIZ p q"

text \<open>\<^verbatim>\<open>strncpy(de.name, name, DIRSIZ)\<close>: the name, filled up with zeros.\<close>

definition pad_name :: "uchar list \<Rightarrow> uchar list" where
  "pad_name nm = take DIRSIZ nm @ replicate (DIRSIZ - length nm) 0"

fun dirlookup_from :: "nat \<Rightarrow> nat \<Rightarrow> nat \<Rightarrow> uchar list \<Rightarrow> uint32 \<Rightarrow> 'a conss_scheme
    \<Rightarrow> ((nat \<times> uint32) option \<times> 'a conss_scheme) outcome" where
  "dirlookup_from 0 c dp nm off s = Spin"
| "dirlookup_from (Suc k) c dp nm off s =
     (if off < d_size (i_d (inodes s dp))
      then
        bnd (readi c dp off 16 s) (\<lambda>(r, bs, s).
        if r \<noteq> 16 then Panic ''dirlink read''
        else
          let de = dirent_of bs
          in if de_inum de = 0 then dirlookup_from k c dp nm (off + 16) s
             else if namecmp nm (de_name de) = 0
             then bnd (iget c (i_dev (inodes s dp)) (ucast (de_inum de)) s) (\<lambda>(ip, s). Ok (Some (ip, off), s))
             else dirlookup_from k c dp nm (off + 16) s)
      else Ok (None, s))"

definition dirlookup :: "nat \<Rightarrow> nat \<Rightarrow> uchar list \<Rightarrow> 'a conss_scheme \<Rightarrow> ((nat \<times> uint32) option \<times> 'a conss_scheme) outcome" where
  "dirlookup c dp nm s =
     (if d_type (i_d (inodes s dp)) \<noteq> T_DIR then Panic ''dirlookup not DIR''
      else dirlookup_from (unat (d_size (i_d (inodes s dp))) div 16 + 2) c dp nm 0 s)"

fun free_dirent :: "nat \<Rightarrow> nat \<Rightarrow> nat \<Rightarrow> uint32 \<Rightarrow> 'a conss_scheme \<Rightarrow> (uint32 \<times> 'a conss_scheme) outcome" where
  "free_dirent 0 c dp off s = Spin"
| "free_dirent (Suc k) c dp off s =
     (if off < d_size (i_d (inodes s dp))
      then
        bnd (readi c dp off 16 s) (\<lambda>(r, bs, s).
        if r \<noteq> 16 then Panic ''dirlink read''
        else if de_inum (dirent_of bs) = 0 then Ok (off, s)
        else free_dirent k c dp (off + 16) s)
      else Ok (off, s))"

definition dirlink :: "nat \<Rightarrow> nat \<Rightarrow> uchar list \<Rightarrow> uint32 \<Rightarrow> 'a conss_scheme \<Rightarrow> (int \<times> 'a conss_scheme) outcome" where
  "dirlink c dp nm inum s =
     bnd (dirlookup c dp nm s) (\<lambda>(r, s).
     case r of
       Some (ip, _) \<Rightarrow> bnd (iput c ip s) (\<lambda>s. Ok (- 1, s))
     | None \<Rightarrow>
         bnd (free_dirent (unat (d_size (i_d (inodes s dp))) div 16 + 2) c dp 0 s) (\<lambda>(off, s).
         bnd (writei c dp (dirent_bytes \<lparr>de_inum = ucast inum, de_name = pad_name nm\<rparr>) off s) (\<lambda>(r, s).
         if r \<noteq> 16 then Panic ''dirlink'' else Ok (0, s))))"

section \<open>Paths\<close>

definition slash :: uchar where "slash = 47"

definition skipelem :: "uchar list \<Rightarrow> (uchar list \<times> uchar list) option" where
  "skipelem path =
     (let path = dropWhile (\<lambda>ch. ch = slash) path
      in if path = [] then None
         else
           let el = takeWhile (\<lambda>ch. ch \<noteq> slash) path;
               path = dropWhile (\<lambda>ch. ch \<noteq> slash) path
           in Some (dropWhile (\<lambda>ch. ch = slash) path, take DIRSIZ el))"

lemma skipelem_shorter: "skipelem path = Some (rest, nm) \<Longrightarrow> length rest < length path"
proof -
  assume a: "skipelem path = Some (rest, nm)"
  let ?p = "dropWhile (\<lambda>ch. ch = slash) path"
  have p: "?p \<noteq> []" and r: "rest = dropWhile (\<lambda>ch. ch = slash) (dropWhile (\<lambda>ch. ch \<noteq> slash) ?p)"
    using a by (auto simp: skipelem_def Let_def split: if_splits)
  obtain x xs where x: "?p = x # xs" using p by (cases ?p) auto
  then have "x \<noteq> slash" using hd_dropWhile [OF p] by simp
  have "length rest \<le> length (dropWhile (\<lambda>ch. ch \<noteq> slash) xs)" using x \<open>x \<noteq> slash\<close> by (simp add: r length_dropWhile_le)
  also have "\<dots> \<le> length xs" by (rule length_dropWhile_le)
  also have "length xs < length ?p" using x by simp
  also have "\<dots> \<le> length path" by (rule length_dropWhile_le)
  finally show ?thesis .
qed

text \<open>The loop of \<^verbatim>\<open>namex\<close> from the directory \<open>ip\<close>; \<open>nm\<close> is the element copied last.\<close>

function namex_from :: "nat \<Rightarrow> bool \<Rightarrow> uchar list \<Rightarrow> uchar list \<Rightarrow> nat \<Rightarrow> 'a conss_scheme
    \<Rightarrow> ((nat \<times> uchar list) option \<times> 'a conss_scheme) outcome" where
  "namex_from c par path nm ip s =
     (case skipelem path of
        None \<Rightarrow> if par then bnd (iput c ip s) (\<lambda>s. Ok (None, s)) else Ok (Some (ip, nm), s)
      | Some (path, nm) \<Rightarrow>
          bnd (ilock c (Some ip) s) (\<lambda>s.
          if d_type (i_d (inodes s ip)) \<noteq> T_DIR then bnd (iunlockput c ip s) (\<lambda>s. Ok (None, s))
          else if par \<and> path = [] then bnd (iunlock c (Some ip) s) (\<lambda>s. Ok (Some (ip, nm), s))
          else
            bnd (dirlookup c ip nm s) (\<lambda>(r, s).
            case r of
              None \<Rightarrow> bnd (iunlockput c ip s) (\<lambda>s. Ok (None, s))
            | Some (ip2, _) \<Rightarrow> bnd (iunlockput c ip s) (namex_from c par path nm ip2))))"
  by pat_completeness auto
termination
  by (relation "measure (\<lambda>(c, par, path, nm, ip, s). length path)") (auto dest: skipelem_shorter)

definition namex :: "nat \<Rightarrow> uchar list \<Rightarrow> bool \<Rightarrow> 'a conss_scheme \<Rightarrow> ((nat \<times> uchar list) option \<times> 'a conss_scheme) outcome" where
  "namex c path par s =
     (if hd0 path = slash
      then bnd (iget c ROOTDEV ROOTINO s) (\<lambda>(ip, s). namex_from c par path [] ip s)
      else
        bnd (deref (c_proc (cpus s c))) (\<lambda>p.
        bnd (deref (p_cwd (procs s p))) (\<lambda>cwd.
        bnd (idup c cwd s) (\<lambda>(ip, s). namex_from c par path [] ip s))))"

definition namei :: "nat \<Rightarrow> uchar list \<Rightarrow> 'a conss_scheme \<Rightarrow> (ptr \<times> 'a conss_scheme) outcome" where
  "namei c path s = bnd (namex c path False s) (\<lambda>(r, s). Ok (map_option fst r, s))"

definition nameiparent :: "nat \<Rightarrow> uchar list \<Rightarrow> 'a conss_scheme \<Rightarrow> ((nat \<times> uchar list) option \<times> 'a conss_scheme) outcome" where
  "nameiparent c path s = namex c path True s"

section \<open>Modes and owners\<close>

definition chattr :: "(dinode \<Rightarrow> dinode) \<Rightarrow> nat \<Rightarrow> uchar list \<Rightarrow> 'a conss_scheme \<Rightarrow> (int \<times> 'a conss_scheme) outcome" where
  "chattr f c path s =
     bnd (begin_op c s) (\<lambda>s.
     bnd (namei c path s) (\<lambda>(r, s).
     case r of
       None \<Rightarrow> bnd (end_op c s) (\<lambda>s. Ok (- 1, s))
     | Some ip \<Rightarrow>
         bnd (ilock c (Some ip) s) (\<lambda>s.
         bnd (iupdate c ip (upd_dinode ip f s)) (\<lambda>s.
         bnd (iunlock c (Some ip) s) (\<lambda>s.
         bnd (end_op c s) (\<lambda>s. Ok (0, s)))))))"

definition chmod :: "nat \<Rightarrow> uchar list \<Rightarrow> uint32 \<Rightarrow> 'a conss_scheme \<Rightarrow> (int \<times> 'a conss_scheme) outcome" where
  "chmod c path mode = chattr (\<lambda>r. r\<lparr>d_mode := mode\<rparr>) c path"

definition chown :: "nat \<Rightarrow> uchar list \<Rightarrow> uint32 \<Rightarrow> 'a conss_scheme \<Rightarrow> (int \<times> 'a conss_scheme) outcome" where
  "chown c path uid = chattr (\<lambda>r. r\<lparr>d_uid := ucast uid\<rparr>) c path"

definition chgrp :: "nat \<Rightarrow> uchar list \<Rightarrow> uint32 \<Rightarrow> 'a conss_scheme \<Rightarrow> (int \<times> 'a conss_scheme) outcome" where
  "chgrp c path gid = chattr (\<lambda>r. r\<lparr>d_gid := ucast gid\<rparr>) c path"

end
