(* ===== verification/ConsoleProps.thy ===== *)
theory ConsoleProps
  imports Console
begin

text \<open>
  Correctness of the console: numbers print as their numerals, output never leaves the screen, and the line
  editor of the keyboard interrupt with \<^verbatim>\<open>consoleread\<close> implements an editor on lists of bytes.
\<close>

section \<open>Numbers\<close>

definition digit_val :: "uchar \<Rightarrow> nat" where
  "digit_val b = (if b < 58 then unat b - 48 else unat b - 87)"

text \<open>Reading a numeral back: the value of its digits, most significant first, and the sign.\<close>

definition numeral_val :: "nat \<Rightarrow> uchar list \<Rightarrow> nat" where
  "numeral_val base ds = foldl (\<lambda>a d. a * base + digit_val d) 0 ds"

fun read_num :: "nat \<Rightarrow> uchar list \<Rightarrow> int" where
  "read_num base [] = 0"
| "read_num base (d # ds) = (if d = 45 then - int (numeral_val base ds) else int (numeral_val base (d # ds)))"

lemma digit_val_digit: "d < 16 \<Longrightarrow> digit_val (digit d) = d \<and> digit d \<noteq> 45"
proof -
  assume "d < 16"
  then have "d \<in> set [0..<16]" by simp
  moreover have "\<forall>d \<in> set [0..<16]. digit_val (digit d) = d \<and> digit d \<noteq> 45" by code_simp
  ultimately show ?thesis by blast
qed

lemma numeral_val_snoc: "numeral_val base (ds @ [d]) = numeral_val base ds * base + digit_val d"
  by (simp add: numeral_val_def)

lemma int_digits_val:
  assumes "2 \<le> base" and "base \<le> 16"
  shows "x < base ^ n \<Longrightarrow> 0 < n \<Longrightarrow> numeral_val base (rev (int_digits n base x)) = x \<and> 45 \<notin> set (int_digits n base x)"
proof (induction n arbitrary: x)
  case (Suc n)
  have m: "x mod base < 16" using assms mod_less_divisor [of base x] by linarith
  show ?case
  proof (cases "x div base = 0")
    case True
    then have "x mod base = x" using assms by (simp add: div_eq_0_iff)
    with True m show ?thesis using digit_val_digit [of x] by (simp add: numeral_val_def)
  next
    case False
    have "x div base < base ^ n" using Suc.prems(1) by (simp add: less_mult_imp_div_less mult.commute)
    moreover have "0 < n" using False calculation by (cases n) auto
    ultimately show ?thesis using Suc.IH [of "x div base"] False digit_val_digit [OF m]
      by (simp add: numeral_val_snoc)
  qed
qed simp

lemma int_digits_length: "x < base ^ k \<Longrightarrow> 0 < k \<Longrightarrow> 0 < base \<Longrightarrow> length (int_digits n base x) \<le> k"
proof (induction n arbitrary: x k)
  case (Suc n)
  show ?case
  proof (cases "x div base = 0")
    case False
    then obtain j where j: "k = Suc j" "0 < j"
      using Suc.prems by (cases k; cases "k - 1") auto
    have "x div base < base ^ j" using Suc.prems(1) by (simp add: j less_mult_imp_div_less mult.commute)
    then show ?thesis using Suc.IH [of "x div base" j] j Suc.prems(3) False by simp
  qed (use Suc.prems in simp)
qed simp

lemma int_digits_ne: "int_digits (Suc n) base x \<noteq> []"
  by simp

lemma sint_uint32: "sint (x :: uint32) = (if sint x < 0 then uint x - 4294967296 else uint x)"
proof -
  have "sint x = uint x - 4294967296 * of_bool (bit (uint x) 31)"
    using take_bit_int_eq_self_iff [of 32 "uint x"] uint_lt2p [of x]
    by (simp add: sint_uint signed_take_bit_eq_take_bit_minus)
  then show ?thesis using uint_lt2p [of x] uint_ge_0 [of x] by (cases "bit (uint x) 31") auto
qed

lemma unat_neg_sint:
  fixes x :: uint32
  assumes "sint x < 0"
  shows "int (unat (- x)) = - sint x"
proof -
  have u: "uint x = sint x + 4294967296" using sint_uint32 [of x] assms by simp
  have "uint (- x) = (- uint x) mod 4294967296" by (simp add: uint_word_ariths)
  also have "\<dots> = - sint x mod 4294967296" unfolding u by (simp add: mod_simps)
  also have "\<dots> = - sint x" using assms sint_ge [of x] by (intro mod_pos_pos_trivial) simp_all
  finally show ?thesis by simp
qed


text \<open>\<^verbatim>\<open>printint\<close> in base ten or sixteen prints a numeral that reads back as the number, with a minus sign
  exactly when it is signed and negative (the smallest integer included), and its 16-byte buffer is enough.\<close>

theorem printint_numeral:
  assumes "base = 10 \<or> base = 16"
  shows "read_num base (printint_bytes xx base sg) = (if sg then sint xx else uint xx) \<and>
    length (printint_bytes xx base sg) \<le> 16"
proof -
  define neg where "neg = (sg \<and> sint xx < 0)"
  define x where "x = unat (if neg then - xx else xx)"
  define buf where "buf = int_digits 16 base x"
  have out: "printint_bytes xx base sg = (if neg then 45 # rev buf else rev buf)"
    by (simp add: printint_bytes_def neg_def x_def buf_def Let_def)
  have b: "2 \<le> base" "base \<le> 16" using assms by auto
  have x32: "x < 4294967296" by (simp add: x_def unat_lt32)
  then have "x < base ^ 10" using assms by auto
  then have len: "length buf \<le> 10" unfolding buf_def using b by (intro int_digits_length) auto
  have "x < base ^ 16" using x32 assms by auto
  then have val: "numeral_val base (rev buf) = x" "45 \<notin> set buf"
    using int_digits_val [OF b, of x 16] by (simp_all add: buf_def)
  have "buf \<noteq> []" using int_digits_ne [of 15] by (simp add: buf_def)
  then obtain d ds where r: "rev buf = d # ds" by (cases "rev buf") auto
  then have "d \<noteq> 45" using val(2) by (metis list.set_intros(1) set_rev)
  then have rd: "read_num base (printint_bytes xx base sg) = (if neg then - int x else int x)"
    using val(1) by (auto simp: out r)
  have "length (printint_bytes xx base sg) \<le> 16" using len by (simp add: out)
  moreover have "read_num base (printint_bytes xx base sg) = (if sg then sint xx else uint xx)"
  proof (cases neg)
    case True
    then show ?thesis using rd unat_neg_sint [of xx] by (simp add: neg_def x_def)
  next
    case False
    moreover have "uint xx = sint xx" if "sg" using False that sint_uint32 [of xx] by (simp add: neg_def)
    ultimately show ?thesis using rd by (simp add: x_def)
  qed
  ultimately show ?thesis by blast
qed

theorem printint_numeral_witness:
  "read_num 10 (printint_bytes 0x80000000 10 True) = - 2147483648 \<and> length (printint_bytes 0x80000000 10 True) \<le> 16"
  using printint_numeral [of 10 "0x80000000" True] by simp

section \<open>The screen\<close>

definition on_screen :: "'a conss_scheme \<Rightarrow> bool" where
  "on_screen s \<longleftrightarrow> 0 \<le> crt_pos s \<and> crt_pos s < 24 * 80"

text \<open>What output leaves alone: everything but the screen and the serial line.\<close>

definition quiet :: "'a conss_scheme \<Rightarrow> 'a conss_scheme \<Rightarrow> bool" where
  "quiet t s \<longleftrightarrow> t = s\<lparr>crt := crt t, crt_pos := crt_pos t, uart_out := uart_out t\<rparr>"

lemma quiet_refl [simp]: "quiet s s"
  by (simp add: quiet_def)

lemma quiet_trans: "quiet u t \<Longrightarrow> quiet t s \<Longrightarrow> quiet u s"
  by (cases s; cases t; cases u) (simp add: quiet_def)

lemma cgaputc_ok:
  assumes "on_screen s"
  shows "\<exists>t. cgaputc ch s = Ok t \<and> on_screen t \<and> quiet t s \<and> uart_out t = uart_out s \<and>
    (\<forall>i \<ge> 24 * 80. crt t i = crt s i) \<and> crt t (nat (crt_pos t)) = 0x0720"
proof -
  obtain pos where p: "crt_pos s = pos" "0 \<le> pos" "pos < 1920" using assms by (auto simp: on_screen_def)
  have m: "0 \<le> pos mod 80" "pos mod 80 < 80" by simp_all
  define mp where "mp = (if ch = 10 then (crt s, pos + 80 - pos mod 80)
      else if ch = BACKSPACE then (crt s, if pos > 0 then pos - 1 else pos)
      else ((crt s)(nat pos := (of_int ch AND 0xff) OR 0x0700), pos + 1))"
  obtain m1 q where mq: "mp = (m1, q)" by (cases mp)
  have q: "0 \<le> q" "q \<le> 1920 + 79" using mq p m by (auto simp: mp_def split: if_splits)
  have m1: "m1 i = crt s i" if "i \<ge> 1920" for i using mq p that by (auto simp: mp_def split: if_splits)
  show ?thesis
  proof (cases "q div 80 \<ge> 24")
    case True
    then have "1920 \<le> q" by linarith
    then show ?thesis using True p q m1 mq
      by (auto simp: cgaputc_def Let_def mp_def [symmetric] on_screen_def quiet_def scroll_def)
  next
    case False
    then have "q < 1920" using q by linarith
    then show ?thesis using False p q m1 mq
      by (auto simp: cgaputc_def Let_def mp_def [symmetric] on_screen_def quiet_def)
  qed
qed

lemma quietD:
  assumes "quiet t s"
  shows "locks t = locks s" "cpus t = cpus s" "procs t = procs s" "heads t = heads s" "tails t = tails s"
    "uart t = uart s" "panicked t = panicked s" "cons_locking t = cons_locking s" "in_buf t = in_buf s"
    "in_r t = in_r s" "in_w t = in_w s" "in_e t = in_e s"
  using assms by (cases s; cases t; simp add: quiet_def)+

lemma quiet_env: "quiet t s \<Longrightarrow> env c L t = env c L s"
  by (rule env_more) (simp_all add: quietD)

definition ready_out :: "'a conss_scheme \<Rightarrow> bool" where
  "ready_out s \<longleftrightarrow> on_screen s \<and> \<not> panicked s"

definition sent :: "int \<Rightarrow> uchar list" where
  "sent ch = (if ch = BACKSPACE then [8, 32, 8] else [of_int ch])"

lemma consputc_ok:
  assumes "ready_out s"
  shows "\<exists>t. consputc ch s = Ok t \<and> ready_out t \<and> quiet t s \<and>
    uart_out t = uart_out s @ (if uart s then sent ch else [])"
proof -
  define u where "u = (if ch = BACKSPACE then uartputc 8 (uartputc 32 (uartputc 8 s)) else uartputc ch s)"
  have u: "on_screen u" "quiet u s" "uart_out u = uart_out s @ (if uart s then sent ch else [])"
    using assms by (auto simp: u_def uartputc_def quiet_def on_screen_def ready_out_def sent_def)
  obtain t where t: "cgaputc ch u = Ok t" "on_screen t" "quiet t u" "uart_out t = uart_out u"
    using cgaputc_ok [OF u(1)] by blast
  have "consputc ch s = Ok t" using assms t(1) by (simp add: consputc_def u_def ready_out_def)
  moreover have q: "quiet t s" by (rule quiet_trans [OF t(3) u(2)])
  moreover have "ready_out t" using assms t(2) quietD(7) [OF q] by (simp add: ready_out_def)
  ultimately show ?thesis using t(4) u(3) by auto
qed

text \<open>The call \<open>m\<close> made in \<open>s\<close> succeeds and prints \<open>out\<close>.\<close>

definition prints :: "'a conss_scheme outcome \<Rightarrow> 'a conss_scheme \<Rightarrow> uchar list \<Rightarrow> bool" where
  "prints m s out \<longleftrightarrow> (\<exists>t. m = Ok t \<and> ready_out t \<and> quiet t s \<and> uart_out t = uart_out s @ (if uart s then out else []))"

lemma prints_bnd:
  assumes m: "prints m s out" and k: "\<And>t. ready_out t \<Longrightarrow> prints (g t) t rest"
  shows "prints (bnd m g) s (out @ rest)"
proof -
  obtain t where t: "m = Ok t" "ready_out t" "quiet t s" "uart_out t = uart_out s @ (if uart s then out else [])"
    using m by (auto simp: prints_def)
  obtain v where v: "g t = Ok v" "ready_out v" "quiet v t" "uart_out v = uart_out t @ (if uart t then rest else [])"
    using k [OF t(2)] by (auto simp: prints_def)
  show ?thesis unfolding prints_def using t(1,4) v(1,2,4) quiet_trans [OF v(3) t(3)] quietD(6) [OF t(3)] by auto
qed

lemma putc_prints: "ready_out s \<Longrightarrow> prints (consputc ch s) s (sent ch)"
  unfolding prints_def by (rule consputc_ok)

lemma sent_byte: "sent (uint (b :: uchar)) = [b]"
  using uint_lt2p [of b] by (simp add: sent_def BACKSPACE_def)

lemma put_bytes_prints: "ready_out s \<Longrightarrow> prints (put_bytes bs s) s bs"
proof (induction bs arbitrary: s)
  case Nil
  then show ?case by (simp add: put_bytes_def prints_def)
next
  case (Cons b bs)
  have "prints (bnd (consputc (uint b) s) (put_bytes bs)) s ([b] @ bs)"
    using putc_prints [OF Cons.prems, of "uint b"] Cons.IH by (intro prints_bnd) (simp_all add: sent_byte)
  then show ?case by (simp add: put_bytes_def)
qed

text \<open>What a format string and its arguments stand for.\<close>

fun render :: "uchar list \<Rightarrow> arg list \<Rightarrow> uchar list option" where
  "render [] as = Some []"
| "render (ch # fmt) as =
     (if ch \<noteq> 37 then map_option ((@) [ch]) (render fmt as)
      else case fmt of
        [] \<Rightarrow> Some []
      | d # fmt \<Rightarrow>
         if d = 100 then
           (case as of AInt w # as \<Rightarrow> map_option ((@) (printint_bytes w 10 True)) (render fmt as) | _ \<Rightarrow> None)
         else if d = 120 \<or> d = 112 then
           (case as of AInt w # as \<Rightarrow> map_option ((@) (printint_bytes w 16 False)) (render fmt as) | _ \<Rightarrow> None)
         else if d = 115 then
           (case as of AStr x # as \<Rightarrow>
              map_option ((@) (case x of None \<Rightarrow> bytes ''(null)'' | Some bs \<Rightarrow> bs)) (render fmt as)
            | _ \<Rightarrow> None)
         else if d = 37 then map_option ((@) [37]) (render fmt as)
         else map_option ((@) ([37] @ [d])) (render fmt as))"

lemma putc_byte_prints: "ready_out s \<Longrightarrow> prints (consputc (uint (ch :: uchar)) s) s [ch]"
  using putc_prints [of s "uint ch"] by (simp add: sent_byte)

lemma putc_percent_prints: "ready_out s \<Longrightarrow> prints (consputc 37 s) s [37]"
  using putc_byte_prints [of s 37] by simp

lemma printint_prints: "ready_out s \<Longrightarrow> prints (printint w base sg s) s (printint_bytes w base sg)"
  by (simp add: printint_def put_bytes_prints)

lemma cprintf_from_prints: "render fmt as = Some out \<Longrightarrow> ready_out s \<Longrightarrow> prints (cprintf_from fmt as s) s out"
proof (induction fmt as arbitrary: s out rule: render.induct)
  case (1 as)
  then show ?case by (simp add: prints_def)
next
  case (2 ch fmt as)
  show ?case
  proof (cases "ch = 37")
    case False
    then obtain o1 where o1: "render fmt as = Some o1" "out = [ch] @ o1" using "2.prems"(1) by auto
    show ?thesis using prints_bnd [OF putc_byte_prints [OF "2.prems"(2), of ch] "2.IH"(1) [OF False o1(1)]] False o1(2)
      by simp
  next
    case pc: True
    show ?thesis
    proof (cases fmt)
      case Nil
      then show ?thesis using pc "2.prems" by (simp add: prints_def)
    next
      case (Cons d f2)
      note prem = "2.prems"(1) [unfolded render.simps Cons, simplified pc]
      note put = prints_bnd [OF put_bytes_prints [OF "2.prems"(2)]]
      note num = prints_bnd [OF printint_prints [OF "2.prems"(2)]]
      have ih: "ready_out t \<Longrightarrow> prints (cprintf_from f2 as t) t o1" if "d \<notin> {100, 120, 112, 115}" "render f2 as = Some o1"
        for t :: "'a conss_scheme" and o1
        using "2.IH"(5,6) [OF _ Cons, where out = o1 and s = t] that pc by (cases "d = 37") auto
      consider (dec) "d = 100" | (hex) "d = 120 \<or> d = 112" | (str) "d = 115" | (pct) "d = 37"
        | (other) "d \<notin> {100, 120, 112, 115, 37}" by blast
      then show ?thesis
      proof cases
        case dec
        then obtain w as2 o1 where w: "as = AInt w # as2" "render f2 as2 = Some o1" "out = printint_bytes w 10 True @ o1"
          using prem by (auto split: list.splits arg.splits)
        then show ?thesis using num [OF "2.IH"(2) [OF _ Cons dec w(1) _ w(2)]] pc Cons dec by simp
      next
        case hex
        then have d: "d \<noteq> 100" by auto
        from hex obtain w as2 o1 where w: "as = AInt w # as2" "render f2 as2 = Some o1" "out = printint_bytes w 16 False @ o1"
          using prem by (auto split: list.splits arg.splits)
        then show ?thesis using num [OF "2.IH"(3) [OF _ Cons d hex w(1) _ w(2)]] pc Cons hex d by simp
      next
        case str
        then obtain x as2 o1 where w: "as = AStr x # as2" "render f2 as2 = Some o1"
          "out = (case x of None \<Rightarrow> bytes ''(null)'' | Some bs \<Rightarrow> bs) @ o1"
          using prem by (auto split: list.splits arg.splits)
        then show ?thesis using put [OF "2.IH"(4) [OF _ Cons _ _ str w(1) _ w(2)]] pc Cons str by simp
      next
        case pct
        then obtain o1 where o1: "render f2 as = Some o1" "out = [37] @ o1" using prem by auto
        show ?thesis using prints_bnd [OF putc_percent_prints [OF "2.prems"(2)] ih [OF _ o1(1)]] pc Cons pct o1(2) by simp
      next
        case other
        then obtain o1 where o1: "render f2 as = Some o1" "out = [37] @ [d] @ o1" using prem by auto
        have "prints (bnd (consputc (uint d) t) (cprintf_from f2 as)) t ([d] @ o1)" if "ready_out t" for t :: "'a conss_scheme"
          using prints_bnd [OF putc_byte_prints [OF that, of d] ih [OF _ o1(1)]] other by simp
        then show ?thesis
          using prints_bnd [OF putc_percent_prints [OF "2.prems"(2)], where g = "\<lambda>s. bnd (consputc (uint d) s) (cprintf_from f2 as)"
            and rest = "[d] @ o1"] pc Cons other o1(2) by simp
      qed
    qed
  qed
qed

lemma cons_locked_by [simp]:
  "crt_pos (locked_by c l s) = crt_pos s" "panicked (locked_by c l s) = panicked s" "uart (locked_by c l s) = uart s"
  "uart_out (locked_by c l s) = uart_out s" "cons_locking (locked_by c l s) = cons_locking s"
  "crt_pos (unlocked_by c l s) = crt_pos s" "panicked (unlocked_by c l s) = panicked s" "uart (unlocked_by c l s) = uart s"
  "uart_out (unlocked_by c l s) = uart_out s" "cons_locking (unlocked_by c l s) = cons_locking s"
  by (simp_all add: locked_by_def unlocked_by_def upd_lock_def upd_cpu_def)

lemma ready_out_lock [simp]: "ready_out (locked_by c l s) = ready_out s" "ready_out (unlocked_by c l s) = ready_out s"
  by (simp_all add: ready_out_def on_screen_def)


section \<open>Line editing\<close>

interpretation inp: ring_buffer INPUT_BUF
  by unfold_locales (simp_all add: INPUT_BUF_def)

text \<open>The abstract editor: the bytes of finished lines, and the line being typed.\<close>

definition finished :: "'a conss_scheme \<Rightarrow> uchar list" where
  "finished s = ring_list INPUT_BUF (in_buf s) (in_r s) (in_w s)"

definition typed :: "'a conss_scheme \<Rightarrow> uchar list" where
  "typed s = ring_list INPUT_BUF (in_buf s) (in_w s) (in_e s)"

definition edit :: "int \<Rightarrow> uchar list \<times> uchar list \<Rightarrow> uchar list \<times> uchar list" where
  "edit ch dl =
     (let (d, l) = dl; b = (if ch = 13 then 10 else of_int ch); n = length d + length l
      in if ch \<in> {16, 6, 19, 18, 26} then (d, l)
         else if ch = 21 then (d, [])
         else if ch = 8 \<or> ch = 127 then (d, butlast l)
         else if ch = 0 \<or> n \<ge> INPUT_BUF then (d, l)
         else if b = 10 \<or> b = 4 \<or> n + 1 = INPUT_BUF then (d @ l @ [b], [])
         else (d, l @ [b]))"

definition con_inv :: "'a conss_scheme \<Rightarrow> bool" where
  "con_inv s \<longleftrightarrow> ready_out s \<and> unat (in_w s - in_r s) \<le> unat (in_e s - in_r s) \<and>
     unat (in_e s - in_r s) \<le> INPUT_BUF \<and> 10 \<notin> set (typed s)"

lemma input_split:
  assumes "con_inv s"
  shows "ring_list INPUT_BUF (in_buf s) (in_r s) (in_e s) = finished s @ typed s"
    and "unat (in_e s - in_r s) = length (finished s) + length (typed s)"
proof -
  show r: "ring_list INPUT_BUF (in_buf s) (in_r s) (in_e s) = finished s @ typed s"
    using assms by (simp add: con_inv_def finished_def typed_def inp.split)
  show "unat (in_e s - in_r s) = length (finished s) + length (typed s)"
    using arg_cong [OF r, of length] by simp
qed

lemma con_same:
  assumes "in_buf t = in_buf s" "in_r t = in_r s" "in_w t = in_w s" "in_e t = in_e s"
  shows "finished t = finished s" "typed t = typed s"
  using assms by (simp_all add: finished_def typed_def)

lemma con_inv_same:
  assumes "in_buf t = in_buf s" "in_r t = in_r s" "in_w t = in_w s" "in_e t = in_e s" "ready_out t"
  shows "con_inv s \<Longrightarrow> con_inv t"
  using assms con_same [OF assms(1-4)] by (simp add: con_inv_def)

lemma more_cons:
  assumes "ptab.more t = ptab.more s"
  shows "in_buf t = in_buf s" "in_r t = in_r s" "in_w t = in_w s" "in_e t = in_e s" "ready_out t = ready_out s"
  using assms by (cases s; cases t; simp add: ready_out_def on_screen_def)+

text \<open>Erasing the last byte of the line.\<close>

lemma erase_one:
  assumes "con_inv s" and "in_e s \<noteq> in_w s"
  defines "t \<equiv> s\<lparr>in_e := in_e s - 1\<rparr>"
  shows "con_inv t" "finished t = finished s" "typed t = butlast (typed s)"
proof -
  show f: "finished t = finished s" by (simp add: t_def finished_def)
  show b: "typed t = butlast (typed s)" using assms(2) by (simp add: t_def typed_def inp.unput)
  have ne: "typed s \<noteq> []" using assms(2) by (simp add: typed_def)
  have n: "unat (in_e s - in_r s) = unat (in_w s - in_r s) + length (typed s)"
    using input_split(2) [OF assms(1)] by (simp add: finished_def)
  then have "in_e s \<noteq> in_r s" using ne by (metis add_is_0 diff_self length_0_conv unat_0)
  then have "unat (in_e s - 1 - in_r s) = unat (in_e s - in_r s) - 1" by (rule unat_pred_diff)
  moreover have "10 \<notin> set (typed t)" using assms(1) b by (auto simp: con_inv_def dest: in_set_butlastD)
  ultimately show "con_inv t" using assms(1) n ne by (simp add: con_inv_def t_def ready_out_def on_screen_def) (cases "typed s"; simp)
qed

lemma last_typed:
  assumes "con_inv s" and "in_e s \<noteq> in_w s"
  shows "buf_at (in_e s - 1) s \<noteq> 10"
proof -
  have "typed s \<noteq> []" using assms(2) by (simp add: typed_def)
  then have "last (typed s) \<in> set (typed s)" by (rule last_in_set)
  moreover have "last (typed s) = buf_at (in_e s - 1) s" using assms(2) by (simp add: typed_def buf_at_def inp.last_elem)
  ultimately show ?thesis using assms(1) by (auto simp: con_inv_def)
qed

lemma quiet_in_e: "quiet t s \<Longrightarrow> quiet (t\<lparr>in_e := x\<rparr>) (s\<lparr>in_e := x\<rparr>)"
  by (cases s; cases t) (simp add: quiet_def)

text \<open>Control-U ends: it erases the whole line, byte by byte.\<close>

lemma kill_line_ok:
  "con_inv s \<Longrightarrow> length (typed s) < n \<Longrightarrow> \<exists>t. kill_line n s = Ok t \<and> con_inv t \<and> quiet t (s\<lparr>in_e := in_w s\<rparr>)"
proof (induction n arbitrary: s)
  case (Suc n)
  show ?case
  proof (cases "in_e s = in_w s")
    case True
    then have "s\<lparr>in_e := in_w s\<rparr> = s" by simp
    then have "quiet s (s\<lparr>in_e := in_w s\<rparr>)" by (simp only: quiet_refl)
    then show ?thesis using True Suc.prems(1) by simp
  next
    case False
    note e = erase_one [OF Suc.prems(1) False]
    let ?s = "s\<lparr>in_e := in_e s - 1\<rparr>"
    have "ready_out ?s" using e(1) by (simp add: con_inv_def)
    then obtain u where u: "consputc BACKSPACE ?s = Ok u" "ready_out u" "quiet u ?s" using consputc_ok by blast
    note q = quietD [OF u(3)]
    have "con_inv u" by (rule con_inv_same [OF q(9-12) u(2) e(1)])
    moreover have "typed s \<noteq> []" using False by (simp add: typed_def)
    then have "length (typed u) < n" using con_same(2) [OF q(9-12)] e(3) Suc.prems(2) by (cases "typed s") simp_all
    ultimately obtain t where t: "kill_line n u = Ok t" "con_inv t" "quiet t (u\<lparr>in_e := in_w u\<rparr>)"
      using Suc.IH by blast
    have "quiet (u\<lparr>in_e := in_w u\<rparr>) (?s\<lparr>in_e := in_w s\<rparr>)" using quiet_in_e [OF u(3), of "in_w s"] q(11) by simp
    then have "quiet t (s\<lparr>in_e := in_w s\<rparr>)" using quiet_trans [OF t(3)] by simp
    then show ?thesis using t(1,2) u(1) False last_typed [OF Suc.prems(1) False] by auto
  qed
qed simp

lemma push_char:
  assumes "con_inv s" and "length (finished s) + length (typed s) < INPUT_BUF" and "b \<noteq> 10"
  defines "t \<equiv> s\<lparr>in_buf := (in_buf s)(unat (in_e s) mod INPUT_BUF := b), in_e := in_e s + 1\<rparr>"
  shows "con_inv t" "finished t = finished s" "typed t = typed s @ [b]"
proof -
  have n: "unat (in_e s - in_r s) < INPUT_BUF" using input_split(2) [OF assms(1)] assms(2) by simp
  have s: "unat (in_e s + 1 - in_r s) = Suc (unat (in_e s - in_r s))"
    using n by (intro unat_Suc_diff) (simp add: INPUT_BUF_def)
  have l: "unat (in_e s - in_w s) < INPUT_BUF" using assms(2) by (simp add: typed_def)
  show ty: "typed t = typed s @ [b]" using inp.put [OF l] by (simp add: t_def typed_def)
  have "finished t @ typed t = finished s @ typed s @ [b]"
  proof -
    have "ring_list INPUT_BUF (in_buf t) (in_r t) (in_e t) = finished s @ typed s @ [b]"
      using inp.put [OF n, of "in_buf s" b] input_split(1) [OF assms(1)] by (simp add: t_def)
    moreover have "unat (in_w t - in_r t) \<le> unat (in_e t - in_r t)" using assms(1) s by (simp add: t_def con_inv_def)
    ultimately show ?thesis using inp.split [of "in_w t" "in_r t" "in_e t" "in_buf t"] by (simp add: finished_def typed_def)
  qed
  then show "finished t = finished s" using ty by simp
  show "con_inv t" using assms(1,3) n s ty by (simp add: con_inv_def t_def ready_out_def on_screen_def)
qed

lemma commit:
  assumes "con_inv s" and "unat (in_e t - in_r t) \<le> INPUT_BUF" and "ready_out t"
    and "ring_list INPUT_BUF (in_buf t) (in_r t) (in_e t) = xs" and "in_w t = in_e t"
  shows "con_inv t" "finished t = xs" "typed t = []"
  using assms by (simp_all add: con_inv_def finished_def typed_def)

lemma byte_of_int: "0 \<le> k \<Longrightarrow> k < 256 \<Longrightarrow> uint (of_int k :: uchar) = k"
  by (simp add: uint_word_of_int_eq take_bit_int_eq_self)

lemma byte_of_int_eq: "0 \<le> k \<Longrightarrow> k < 256 \<Longrightarrow> (of_int k :: uchar) = b \<longleftrightarrow> k = uint b"
  using byte_of_int [of k] by (auto simp: word_uint_eq_iff)

text \<open>Storing a character.\<close>

lemma store_char_ok:
  assumes e: "env c L s" "Lk_ptable \<notin> L" and i: "con_inv s" and ch: "0 < ch" "ch < 256"
    and room: "length (finished s) + length (typed s) < INPUT_BUF"
  defines "b \<equiv> (if ch = 13 then 10 else of_int ch) :: uchar"
  shows "\<exists>t. store_char c ch s = Ok t \<and> env c L t \<and> con_inv t \<and> (finished t, typed t) =
     (if b = 10 \<or> b = 4 \<or> length (finished s) + length (typed s) + 1 = INPUT_BUF then (finished s @ typed s @ [b], [])
      else (finished s, typed s @ [b]))"
proof -
  define k where "k = (if ch = 13 then 10 else ch)"
  have kb: "0 < k" "k < 256" "of_int k = b" using ch by (auto simp: k_def b_def)
  then have bk: "b = 10 \<longleftrightarrow> k = 10" "b = 4 \<longleftrightarrow> k = 4" using byte_of_int_eq [of k 10] byte_of_int_eq [of k 4] by auto
  define n where "n = length (finished s) + length (typed s)"
  have n: "unat (in_e s - in_r s) = n" "n < INPUT_BUF" using input_split(2) [OF i] room by (simp_all add: n_def)
  have sn: "unat (in_e s + 1 - in_r s) = n + 1" using unat_Suc_diff [of "in_e s" "in_r s"] n by (simp add: INPUT_BUF_def)
  have full: "in_e s + 1 = in_r s + of_nat INPUT_BUF \<longleftrightarrow> n + 1 = INPUT_BUF"
  proof -
    have "in_e s + 1 = in_r s + of_nat INPUT_BUF \<longleftrightarrow> in_e s + 1 - in_r s = of_nat INPUT_BUF" by (auto simp: algebra_simps)
    also have "\<dots> \<longleftrightarrow> unat (in_e s + 1 - in_r s) = unat (of_nat INPUT_BUF :: uint32)" by (simp only: word_unat_eq_iff)
    finally show ?thesis using sn by (simp add: INPUT_BUF_def)
  qed
  define s1 where "s1 = s\<lparr>in_buf := (in_buf s)(unat (in_e s) mod INPUT_BUF := b), in_e := in_e s + 1\<rparr>"
  have s1: "ring_list INPUT_BUF (in_buf s1) (in_r s1) (in_e s1) = finished s @ typed s @ [b]"
    using inp.put [of "in_e s" "in_r s" "in_buf s" b] n input_split(1) [OF i] by (simp add: s1_def)
  have "ready_out s1" using i by (simp add: s1_def con_inv_def ready_out_def on_screen_def)
  then obtain u where u: "consputc k s1 = Ok u" "ready_out u" "quiet u s1" using consputc_ok by blast
  note q = quietD [OF u(3)]
  have eu: "env c L u" using e(1) quiet_env [OF u(3), of c L] env_more [of s1 s c L] by (simp add: s1_def)
  have st: "store_char c ch s =
      (if k = 10 \<or> k = 4 \<or> n + 1 = INPUT_BUF then wakeup c Chan_input (u\<lparr>in_w := in_e u\<rparr>) else Ok u)"
    using ch n(1,2) u(1) full q(10,12) kb(3)
    by (simp add: store_char_def k_def [symmetric] s1_def [symmetric] Let_def ctrl_def) (simp add: s1_def)
  show ?thesis
  proof (cases "k = 10 \<or> k = 4 \<or> n + 1 = INPUT_BUF")
    case True
    have "env c L (u\<lparr>in_w := in_e u\<rparr>)" using eu env_more [of "u\<lparr>in_w := in_e u\<rparr>" u c L] by simp
    from env_wakeup [OF this e(2)] obtain t where t: "wakeup c Chan_input (u\<lparr>in_w := in_e u\<rparr>) = Ok t" "env c L t"
      "ptab.more t = ptab.more (u\<lparr>in_w := in_e u\<rparr>)" by blast
    note m = more_cons [OF t(3)]
    have "con_inv t" "finished t = finished s @ typed s @ [b]" "typed t = []"
      using commit [OF i, of t "finished s @ typed s @ [b]"] m q s1 u(2) sn n(2)
      by (simp_all add: s1_def ready_out_def on_screen_def)
    then show ?thesis using True st t bk by (simp add: n_def)
  next
    case False
    then have "b \<noteq> 10" using bk by simp
    note p = push_char [OF i room this, folded s1_def]
    have "con_inv u" by (rule con_inv_same [OF q(9-12) u(2) p(1)])
    then show ?thesis using False st eu bk con_same [OF q(9-12)] p(2,3) by (simp add: n_def)
  qed
qed

lemma ctrl_codes:
  "ctrl (CHR ''P'') = 16" "ctrl (CHR ''F'') = 6" "ctrl (CHR ''S'') = 19" "ctrl (CHR ''R'') = 18" "ctrl (CHR ''Z'') = 26"
  "ctrl (CHR ''U'') = 21" "ctrl (CHR ''H'') = 8" "ctrl (CHR ''D'') = 4"
  by (simp_all add: ctrl_def)

definition refines_edit :: "nat \<Rightarrow> lockid set \<Rightarrow> 'a conss_scheme \<Rightarrow> uchar list \<times> uchar list \<Rightarrow> bool" where
  "refines_edit c L s dl \<longleftrightarrow> env c L s \<and> con_inv s \<and> (finished s, typed s) = dl"

lemma con_char_ok:
  assumes s: "refines_edit c L s dl" and l: "Lk_ptable \<notin> L" and ch: "0 \<le> ch" "ch < 256"
  shows "\<exists>q' t. con_char c ch q s = Ok (q', t) \<and> refines_edit c L t (edit ch dl)"
proof -
  have e: "env c L s" and i: "con_inv s" and d: "dl = (finished s, typed s)" using s by (auto simp: refines_edit_def)
  consider (list) "ch \<in> {16, 6, 19, 18, 26}" | (kill) "ch = 21" | (erase) "ch = 8 \<or> ch = 127"
    | (store) "ch \<notin> {16, 6, 19, 18, 26, 21, 8, 127}" by blast
  then show ?thesis
  proof cases
    case list
    then show ?thesis using s by (auto simp: con_char_def ctrl_codes edit_def d)
  next
    case kill
    have "length (typed s) < INPUT_BUF + 1" using i input_split(2) [OF i] by (simp add: con_inv_def)
    then obtain t where t: "kill_line (INPUT_BUF + 1) s = Ok t" "con_inv t" "quiet t (s\<lparr>in_e := in_w s\<rparr>)"
      using kill_line_ok [OF i] by blast
    note q = quietD [OF t(3)]
    have "env c L t" using e quiet_env [OF t(3), of c L] env_more [of "s\<lparr>in_e := in_w s\<rparr>" s c L] by simp
    moreover have "finished t = finished s" "typed t = []" using q by (simp_all add: finished_def typed_def)
    ultimately show ?thesis using kill t(1,2) by (simp add: con_char_def ctrl_codes edit_def d refines_edit_def)
  next
    case erase
    show ?thesis
    proof (cases "in_e s = in_w s")
      case True
      then show ?thesis using erase s by (auto simp: con_char_def ctrl_codes edit_def d refines_edit_def typed_def)
    next
      case False
      note x = erase_one [OF i False]
      let ?s = "s\<lparr>in_e := in_e s - 1\<rparr>"
      obtain u where u: "consputc BACKSPACE ?s = Ok u" "ready_out u" "quiet u ?s"
        using consputc_ok [of ?s BACKSPACE] x(1) by (auto simp: con_inv_def)
      note q = quietD [OF u(3)]
      have "env c L u" using e quiet_env [OF u(3), of c L] env_more [of ?s s c L] by simp
      moreover have "con_inv u" by (rule con_inv_same [OF q(9-12) u(2) x(1)])
      ultimately show ?thesis using erase u(1) False con_same [OF q(9-12)] x(2,3)
        by (auto simp: con_char_def ctrl_codes edit_def d refines_edit_def)
    qed
  next
    case store
    then have c1: "con_char c ch q s = bnd (store_char c ch s) (\<lambda>s. Ok (q, s))" by (simp add: con_char_def ctrl_codes)
    show ?thesis
    proof (cases "ch = 0 \<or> length (finished s) + length (typed s) \<ge> INPUT_BUF")
      case True
      then have "store_char c ch s = Ok s" using input_split(2) [OF i] by (auto simp: store_char_def)
      then show ?thesis using True c1 s store by (auto simp: edit_def d)
    next
      case False
      then obtain t where t: "store_char c ch s = Ok t" "env c L t" "con_inv t" "(finished t, typed t) = edit ch dl"
        using store_char_ok [OF e l i, of ch] ch store by (auto simp: edit_def d Let_def)
      then show ?thesis using c1 by (simp add: refines_edit_def)
    qed
  qed
qed

lemma con_chars_refine_edit_aux:
  assumes "refines_edit c L s dl" and "Lk_ptable \<notin> L" and "list_all (\<lambda>ch. 0 \<le> ch \<and> ch < 256) chs"
  shows "\<exists>q' t. con_chars c chs q s = Ok (q', t) \<and> refines_edit c L t (fold edit chs dl)"
  using assms(1,3)
proof (induction chs arbitrary: s dl q)
  case (Cons ch chs)
  obtain q1 u where u: "con_char c ch q s = Ok (q1, u)" "refines_edit c L u (edit ch dl)"
    using con_char_ok [OF Cons.prems(1) assms(2)] Cons.prems(2) by fastforce
  then show ?case using Cons.IH [OF u(2), of q1] Cons.prems(2) by auto
qed simp

text \<open>C17: The line editor of the keyboard interrupt refines an editor on two lists: for any sequence of
  characters it terminates without a panic, whatever the counters have wrapped to, and the finished and the
  typed bytes in the ring are those that the abstract editor produces.\<close>

theorem con_chars_refine_edit:
  assumes "refines_edit c L s dl" and "Lk_ptable \<notin> L" and "list_all (\<lambda>ch. 0 \<le> ch \<and> ch < 256) chs"
  shows "\<exists>q' t. con_chars c chs q s = Ok (q', t) \<and> refines_edit c L t (fold edit chs dl)"
  using assms by (rule con_chars_refine_edit_aux)

section \<open>Reading lines\<close>

text \<open>What \<^verbatim>\<open>consoleread\<close> takes from the finished bytes: up to \<open>n\<close> of them, not beyond a newline, and nothing of a
  control-D, which is left for the next call when something has been delivered. \<open>None\<close> is waiting for input.\<close>

fun line_read :: "nat \<Rightarrow> nat \<Rightarrow> uchar list \<Rightarrow> (uchar list \<times> uchar list) option" where
  "line_read target 0 d = Some ([], d)"
| "line_read target (Suc n) [] = None"
| "line_read target (Suc n) (b # d) =
     (if b = 4 then Some ([], if Suc n < target then b # d else d)
      else if b = 10 then Some ([b], d)
      else map_option (\<lambda>(xs, d). (b # xs, d)) (line_read target n d))"

lemma pop_char:
  assumes "con_inv s" and "finished s = b # d"
  defines "t \<equiv> s\<lparr>in_r := in_r s + 1\<rparr>"
  shows "con_inv t" "finished t = d" "typed t = typed s" "buf_at (in_r s) s = b" "in_r s \<noteq> in_w s"
proof -
  show ne: "in_r s \<noteq> in_w s" using assms(2) by (auto simp: finished_def)
  have "finished s = in_buf s (unat (in_r s) mod INPUT_BUF) # finished t"
    using ne by (simp add: finished_def t_def inp.get)
  then show "finished t = d" "buf_at (in_r s) s = b" using assms(2) by (simp_all add: buf_at_def)
  show ty: "typed t = typed s" by (simp add: typed_def t_def)
  have "in_e s \<noteq> in_r s" using assms(1) ne unat_pred_diff(3) [of "in_w s" "in_r s"] by (auto simp: con_inv_def)
  note p = unat_pred_diff(2) [OF this] unat_pred_diff(2) [OF ne [symmetric]]
  moreover have "unat (in_e s - in_r s) - 1 \<le> INPUT_BUF" using assms(1) unfolding con_inv_def by linarith
  ultimately show "con_inv t" using assms(1) ty by (simp add: con_inv_def t_def ready_out_def on_screen_def diff_le_mono)
qed

lemma read_line_ok:
  "con_inv s \<Longrightarrow> line_read target n (finished s) = Some (xs, d) \<Longrightarrow>
    \<exists>t. read_line c target n out s = Ok (Some (n - length xs), out @ xs, t) \<and> con_inv t \<and> finished t = d \<and> typed t = typed s"
proof (induction target n "finished s" arbitrary: s out xs d rule: line_read.induct)
  case (3 target n b d0)
  note p = pop_char [OF "3.prems"(1) "3.hyps"(2) [symmetric]]
  let ?s = "s\<lparr>in_r := in_r s + 1\<rparr>"
  consider (eof) "b = 4" | (nl) "b = 10" | (plain) "b \<noteq> 4" "b \<noteq> 10" by blast
  then show ?case
  proof cases
    case eof
    have "s\<lparr>in_r := in_r s\<rparr> = s" by simp
    then show ?thesis using eof p "3.prems" "3.hyps"(2) [symmetric] by (auto simp: Let_def split: if_splits)
  next
    case nl
    then show ?thesis using p "3.prems" "3.hyps"(2) [symmetric] by (auto simp: Let_def)
  next
    case plain
    obtain ys where y: "line_read target n d0 = Some (ys, d)" "xs = b # ys"
      using plain "3.prems"(2) "3.hyps"(2) [symmetric] by auto
    obtain t where "read_line c target n (out @ [b]) ?s = Ok (Some (n - length ys), (out @ [b]) @ ys, t)" "con_inv t"
      "finished t = d" "typed t = typed ?s"
      using "3.hyps"(1) [OF plain p(2) [symmetric] p(1), of ys d "out @ [b]"] y(1) p(2) by auto
    then show ?thesis using plain p y(2) by (simp add: Let_def)
  qed
qed auto

definition plain_bytes :: "uchar list \<Rightarrow> bool" where
  "plain_bytes = list_all (\<lambda>b. 32 \<le> b \<and> b \<noteq> 127)"

lemma plain_code: "32 \<le> (b :: uchar) \<Longrightarrow> b \<noteq> 127 \<Longrightarrow> 32 \<le> uint b \<and> uint b \<noteq> 127"
  by (auto simp: word_le_def word_uint_eq_iff)

lemma edit_plain:
  "plain_bytes cs \<Longrightarrow> length d + length l + length cs < INPUT_BUF \<Longrightarrow> fold edit (map uint cs) (d, l) = (d, l @ cs)"
proof (induction cs arbitrary: l)
  case (Cons b cs)
  have "edit (uint b) (d, l) = (d, l @ [b])"
    using Cons.prems plain_code [of b] by (auto simp: edit_def plain_bytes_def)
  then show ?case using Cons.IH [of "l @ [b]"] Cons.prems by (simp add: plain_bytes_def)
qed simp

lemma line_read_plain:
  "plain_bytes cs \<Longrightarrow> length cs < n \<Longrightarrow> line_read target n (cs @ [10]) = Some (cs @ [10], [])"
proof (induction cs arbitrary: n)
  case Nil
  then show ?case by (cases n) simp_all
next
  case (Cons b cs)
  then obtain m where "n = Suc m" by (cases n) auto
  moreover have "b \<noteq> 4" "b \<noteq> 10" using Cons.prems(1) by (auto simp: plain_bytes_def)
  ultimately show ?case using Cons.IH [of m] Cons.prems by (simp add: plain_bytes_def)
qed


section \<open>A console\<close>

text \<open>An empty console whose counters are about to wrap around.\<close>

definition blank_inode :: inode where
  "blank_inode = \<lparr>i_dev = 0, i_inum = 0, i_ref = 0, i_busy = False, i_valid = False, i_d = zero_dinode\<rparr>"

definition demo_sb :: superblock where
  "demo_sb = \<lparr>sb_size = 1000, sb_nblocks = 900, sb_ninodes = 200, sb_nlog = 30, sb_logstart = 2, sb_inodestart = 32,
     sb_bmapstart = 58\<rparr>"

definition demo_icache :: icache where
  "demo_icache = logst.extend demo_start (icache.fields (\<lambda>_. blank_inode) demo_sb)"

definition demo_cons :: conss where
  "demo_cons = icache.extend demo_icache (conss.fields True False (\<lambda>_. 0) 1919 True [] (\<lambda>_. 0)
     0xFFFFFFFE 0xFFFFFFFE 0xFFFFFFFE (\<lambda>_. Dev_null) (\<lambda>_. Dev_null))"

lemma demo_cons_sel [simp]:
  "crt_pos demo_cons = 1919" "\<not> panicked demo_cons" "uart demo_cons" "cons_locking demo_cons" "uart_out demo_cons = []"
  "in_r demo_cons = 0xFFFFFFFE" "in_w demo_cons = 0xFFFFFFFE" "in_e demo_cons = 0xFFFFFFFE"
  "inodes demo_cons = (\<lambda>_. blank_inode)" "fs_sb demo_cons = demo_sb"
  "locks demo_cons = locks demo_start" "cpus demo_cons = cpus demo_start" "procs demo_cons = procs demo_start"
  "heads demo_cons = heads demo_start" "tails demo_cons = tails demo_start"
  by (simp_all add: demo_cons_def demo_icache_def logst.defs icache.defs conss.defs)

lemma demo_cons_env: "env 0 {} demo_cons"
proof -
  have "env 0 {} demo_start" using demo_start_ok(1) by (simp add: bready_def)
  moreover have "env 0 {} demo_cons = env 0 {} demo_start" by (rule env_more) simp_all
  ultimately show ?thesis by simp
qed

lemma demo_cons_edit: "refines_edit 0 {Lk_cons} (locked_by 0 Lk_cons demo_cons) ([], [])"
proof -
  have "in_r (locked_by 0 Lk_cons demo_cons) = 0xFFFFFFFE" "in_w (locked_by 0 Lk_cons demo_cons) = 0xFFFFFFFE"
    "in_e (locked_by 0 Lk_cons demo_cons) = 0xFFFFFFFE" by (simp_all add: locked_by_def)
  then show ?thesis using env_acquire(2) [OF demo_cons_env, of Lk_cons]
    by (simp add: refines_edit_def con_inv_def finished_def typed_def ready_out_def on_screen_def)
qed


theorem con_chars_refine_edit_witness:
  "\<exists>q' t. con_chars 0 [97, 98, 8, 13, 99] \<lparr>doprocdump = False, printlist = 0\<rparr> (locked_by 0 Lk_cons demo_cons) = Ok (q', t) \<and>
    refines_edit 0 {Lk_cons} t ([97, 10], [99])"
proof -
  have "fold edit [97, 98, 8, 13, 99] ([], []) = ([97, 10], [99])" by (simp add: edit_def INPUT_BUF_def)
  then show ?thesis
    using con_chars_refine_edit [OF demo_cons_edit, of "[97, 98, 8, 13, 99]" "\<lparr>doprocdump = False, printlist = 0\<rparr>"] by simp
qed


end
