(* ===== verification/FsProps.thy ===== *)
theory FsProps
  imports Fs ConsoleProps
begin

text \<open>
  The file system: what \<^verbatim>\<open>src/fs.c\<close> stores is what it reads back. The theory has the codec of an inode in its
  block, the contract of one logged block update inside a transaction, the block allocator, the map from file
  offsets to blocks and the content of a file; from these it shows that \<^verbatim>\<open>writei\<close> followed by \<^verbatim>\<open>readi\<close> returns the
  bytes, allocation of direct and indirect blocks included, and that \<^verbatim>\<open>iupdate\<close> followed by \<^verbatim>\<open>ilock\<close> restores an
  inode. A part of its own is the inode cache: no two live entries stand for the same inode.
\<close>

section \<open>An inode in its block\<close>

lemma short_of_bytes:
  fixes w :: ushort
  shows "ucast (ucast w :: uchar) OR push_bit 8 (ucast (ucast (drop_bit 8 w) :: uchar)) = w"
  by (rule bit_word_eqI) (auto simp: bit_simps)

lemma blk_rd16_wr16: "blk_rd16 (blk_wr16 i w d) i = w"
  using short_of_bytes [of w] by (simp add: blk_rd16_def blk_wr16_def)

lemma blk_rd_far:
  "i + 2 \<le> j \<or> j + 2 \<le> i \<Longrightarrow> blk_rd16 (blk_wr16 i w d) j = blk_rd16 d j"
  "i + 4 \<le> j \<or> j + 2 \<le> i \<Longrightarrow> blk_rd16 (blk_wr32 i v d) j = blk_rd16 d j"
  "i + 2 \<le> j \<or> j + 4 \<le> i \<Longrightarrow> blk_rd32 (blk_wr16 i w d) j = blk_rd32 d j"
  by (auto simp: blk_rd16_def blk_wr16_def blk_rd32_def blk_wr32_def)

lemmas blk_codec = blk_rd_wr blk_rd_wr_other blk_rd16_wr16 blk_rd_far

lemma put_words_far:
  "j + 2 \<le> p \<or> p + 4 * n \<le> j \<Longrightarrow> blk_rd16 (put_words p f n d) j = blk_rd16 d j"
  "j + 4 \<le> p \<or> p + 4 * n \<le> j \<Longrightarrow> blk_rd32 (put_words p f n d) j = blk_rd32 d j"
  by (induction n) (auto simp: blk_codec)

lemma put_words_rd: "i < n \<Longrightarrow> blk_rd32 (put_words p f n d) (p + 4 * i) = f i"
  by (induction n) (auto simp: blk_codec less_Suc_eq)

definition dinode_ok :: "dinode \<Rightarrow> bool" where
  "dinode_ok r \<longleftrightarrow> (\<forall>i>NDIRECT. d_addrs r i = 0)"

lemma dip_get_put:
  assumes "dinode_ok r"
  shows "dip_get (dip_put p r d) p = r"
proof -
  have "(\<lambda>i. if i \<le> NDIRECT then blk_rd32 (dip_put p r d) (p + 20 + 4 * i) else 0) = d_addrs r"
  proof
    show "(if i \<le> NDIRECT then blk_rd32 (dip_put p r d) (p + 20 + 4 * i) else 0) = d_addrs r i" for i
      unfolding dip_put_def using assms put_words_rd [of i "NDIRECT + 1" "p + 20" "d_addrs r"]
      by (simp add: dinode_ok_def less_Suc_eq_le del: put_words.simps)
  qed
  then have "dip_get (dip_put p r d) p = (dip_get (dip_put p r d) p)\<lparr>d_addrs := d_addrs r\<rparr>" by (simp add: dip_get_def)
  also have "\<dots> = r" by (simp add: dip_get_def dip_put_def put_words_far blk_codec)
  finally show ?thesis .
qed

lemma dip_get_put_other:
  assumes "p + 64 \<le> q \<or> q + 64 \<le> p"
  shows "dip_get (dip_put p r d) q = dip_get d q"
proof -
  have "j + 4 \<le> p \<or> p + 64 \<le> j \<Longrightarrow> blk_rd32 (dip_put p r d) j = blk_rd32 d j"
    "j + 2 \<le> p \<or> p + 64 \<le> j \<Longrightarrow> blk_rd16 (dip_put p r d) j = blk_rd16 d j" for j
    by (auto simp: dip_put_def put_words_far blk_codec NDIRECT_def)
  then show ?thesis using assms by (auto simp: dip_get_def NDIRECT_def fun_eq_iff)
qed

section \<open>One block in a transaction\<close>

text \<open>The buffers in use are those of \<open>H\<close>, and at least one can be recycled.\<close>

definition calm_with :: "nat \<Rightarrow> (bid \<rightharpoonup> nat) \<Rightarrow> 'a bcache_scheme \<Rightarrow> bool" where
  "calm_with c H s \<longleftrightarrow> bready c s \<and> held s = H \<and> card (dirtyset s \<union> dom H) < NBUF"

text \<open>A system call is inside a transaction, with room in the log and in the cache for \<open>k\<close> more blocks.\<close>

definition opn_with :: "nat \<Rightarrow> (bid \<rightharpoonup> nat) \<Rightarrow> nat \<Rightarrow> 'a logst_scheme \<Rightarrow> bool" where
  "opn_with c H k s \<longleftrightarrow> bready c s \<and> held s = H \<and> card (dirtyset s \<union> dom H) + k < NBUF \<and> 1 \<le> lg_outstanding s \<and>
     (\<exists>n. lg_n s = int n \<and> n + k \<le> LOGSIZE \<and> int (n + k) < lg_size s \<and> inj_on (lg_block s) {..<n})"

abbreviation calm :: "nat \<Rightarrow> 'a bcache_scheme \<Rightarrow> bool" where
  "calm c s \<equiv> calm_with c Map.empty s"

abbreviation opn :: "nat \<Rightarrow> nat \<Rightarrow> 'a logst_scheme \<Rightarrow> bool" where
  "opn c k s \<equiv> opn_with c Map.empty k s"

text \<open>What a logged update keeps: all but the buffers, the disk and the list of logged blocks.\<close>

definition fs_frame :: "'a logst_scheme \<Rightarrow> _" where
  "fs_frame s = (mem s, havedisk1 s, lg_start s, lg_size s, lg_outstanding s, lg_committing s, lg_dev s, logst.more s)"

lemma opn_calm: "opn_with c H k s \<Longrightarrow> calm_with c H s"
  by (simp add: opn_with_def calm_with_def)

lemma opn_mono: "opn_with c H k s \<Longrightarrow> j \<le> k \<Longrightarrow> opn_with c H j s"
  by (fastforce simp: opn_with_def)

lemma bframe_fs_frame:
  fixes s t :: "'a logst_scheme"
  assumes "bframe t = bframe s"
  shows "fs_frame t = fs_frame s"
proof -
  have "bcache.more t = bcache.more s" using assms by (rule bframe_sel)
  then have "logst.more t = logst.more s" by (cases t; cases s) simp
  then show ?thesis using bframe_lg [OF assms] bframe_sel [OF assms] by (simp add: fs_frame_def)
qed

lemma fs_frame_ok: "fs_frame t = fs_frame s \<Longrightarrow> blk_ok t = blk_ok s"
  by (simp add: fs_frame_def blk_ok_def fun_eq_iff)

lemma fs_frame_icache:
  fixes s t :: "'a icache_scheme"
  assumes "fs_frame t = fs_frame s"
  shows "inodes t = inodes s" "fs_sb t = fs_sb s" "icache.more t = icache.more s"
  using assms by (cases t; cases s; simp add: fs_frame_def)+

lemma opn_read:
  assumes "opn_with c H k s" "bready c t" "bframe t = bframe s" "held t = held s" "dirtyset t = dirtyset s"
  shows "opn_with c H k t"
  using assms bframe_lg [OF assms(3)] by (simp add: opn_with_def)

lemma card_insert_Suc: "card (insert x A) \<le> Suc (card A)"
  by (cases "finite A") (auto simp: card_insert_if)

lemma opn_hold:
  assumes "opn_with c H (Suc k) s" "bready c t" "bframe t = bframe s" "held t = H(x \<mapsto> b)" "dirtyset t = dirtyset s"
  shows "opn_with c (H(x \<mapsto> b)) k t"
  using assms bframe_lg [OF assms(3)] card_insert_Suc [of x "dirtyset s \<union> dom H"] by (auto simp: opn_with_def)

lemma read_block:
  fixes s :: "'a logst_scheme"
  assumes m: "calm_with c H s" and k: "blk_ok s (dv, n)" and h: "H (dv, n) = None"
  shows "\<exists>b t. bread c dv n s = Ok (b, t) \<and> bready c t \<and> bframe t = bframe s \<and> view t = view s \<and> held t = H((dv, n) \<mapsto> b) \<and>
    dirtyset t = dirtyset s \<and> b_data (bufs t b) = view s (dv, n) \<and> ((dv, n) \<in> dirtyset t \<or> view t (dv, n) = disk t (dsec (dv, n)))"
proof -
  have b: "bready c s" "held s = H" "card (dirtyset s \<union> dom H) < NBUF" using m by (simp_all add: calm_with_def)
  obtain b t where t: "bread c dv n s = Ok (b, t)" "bready c t" "bframe t = bframe s" "disk t = disk s" "view t = view s"
    "held t = (held s)((dv, n) \<mapsto> b)" "dirtyset t = dirtyset s"
    using bc.rd_ok [OF b(1) k] b h by auto
  have "b_data (bufs t b) = view t (dv, n)" by (rule bc.dat_held) (simp add: t(6))
  moreover have "(dv, n) \<in> dirtyset t \<or> view t (dv, n) = disk t (dsec (dv, n))"
    using bc.clean_content [OF b(1), of "(dv, n)"] t b(2) h by auto
  ultimately show ?thesis using t b by simp
qed

lemma release_block:
  fixes s :: "'a logst_scheme"
  assumes "bready c s" and "held s = H((dv, n) \<mapsto> b)" and "(dv, n) \<in> dirtyset s \<or> view s (dv, n) = disk s (dsec (dv, n))"
    and "H (dv, n) = None"
  shows "\<exists>t. brelse c b s = Ok t \<and> bready c t \<and> bframe t = bframe s \<and> view t = view s \<and> held t = H \<and>
    dirtyset t = dirtyset s"
proof -
  have h: "held s (dv, n) = Some b" using assms(2) by simp
  obtain t where "brelse c b s = Ok t" "bready c t" "bframe t = bframe s" "view t = view s"
    "held t = (held s)((dv, n) := None)" "dirtyset t = dirtyset s"
    using bc.relse_ok [OF assms(1) h assms(3)] by auto
  then show ?thesis using assms(2,4) by (simp add: fun_upd_idem)
qed

text \<open>Reading a block and letting it go leaves every content, the log and the room as they were.\<close>

lemma read_release:
  fixes s :: "'a logst_scheme"
  assumes m: "calm_with c H s" and k: "blk_ok s (dv, n)" and h: "H (dv, n) = None"
  shows "\<exists>b t u. bread c dv n s = Ok (b, t) \<and> fs_frame t = fs_frame s \<and> b_data (bufs t b) = view s (dv, n) \<and> brelse c b t = Ok u \<and>
    calm_with c H u \<and> fs_frame u = fs_frame s \<and> view u = view s \<and> (\<forall>k. opn_with c H k s \<longrightarrow> opn_with c H k u)"
proof -
  obtain b t where t: "bread c dv n s = Ok (b, t)" "bready c t" "bframe t = bframe s" "view t = view s" "held t = H((dv, n) \<mapsto> b)"
    "dirtyset t = dirtyset s" "b_data (bufs t b) = view s (dv, n)" "(dv, n) \<in> dirtyset t \<or> view t (dv, n) = disk t (dsec (dv, n))"
    using read_block [OF assms] by blast
  obtain u where u: "brelse c b t = Ok u" "bready c u" "bframe u = bframe t" "view u = view t" "held u = H"
    "dirtyset u = dirtyset t"
    using release_block [OF t(2,5,8) h] by blast
  have "opn_with c H k s \<Longrightarrow> opn_with c H k u" for k
    using opn_read [of c H k s u] t u m by (simp add: calm_with_def)
  moreover have "calm_with c H u" using u t m by (simp add: calm_with_def)
  ultimately show ?thesis using t u bframe_fs_frame [OF t(3)] bframe_fs_frame [OF u(3)] by auto
qed

text \<open>Logging a held block with new content, and letting it go.\<close>

lemma log_release:
  fixes t :: "'a logst_scheme"
  assumes o: "opn_with c (H((dv, n) \<mapsto> b)) k t" and h: "H (dv, n) = None"
    and room: "\<exists>m. lg_n t = int m \<and> m + Suc k \<le> LOGSIZE \<and> int (m + Suc k) < lg_size t"
  shows "\<exists>u w. log_write c b (set_data b d t) = Ok u \<and> fs_frame u = fs_frame t \<and>
    brelse c b u = Ok w \<and> opn_with c H k w \<and> fs_frame w = fs_frame t \<and> view w = (view t)((dv, n) := d)"
proof -
  obtain m where m: "lg_n t = int m" "m + Suc k \<le> LOGSIZE" "int (m + Suc k) < lg_size t" "inj_on (lg_block t) {..<m}"
    and t: "bready c t" "held t = H((dv, n) \<mapsto> b)" and o1: "1 \<le> lg_outstanding t"
      "card (insert (dv, n) (dirtyset t \<union> dom H)) + k < NBUF"
    using o room by (auto simp: opn_with_def)
  have ht: "held t (dv, n) = Some b" using t(2) by simp
  let ?p = "set_data b d t"
  have p: "bready c ?p" "bframe ?p = bframe t" "view ?p = (view t)((dv, n) := d)" "held ?p = held t" "dirtyset ?p = dirtyset t"
    using bc.put_ok [OF t(1) ht, of d] by auto
  note lp = bframe_lg [OF p(2)]
  have hp: "held ?p (dv, n) = Some b" using ht p(4) by simp
  have "\<exists>t m'. log_write c b ?p = Ok t \<and> bready c t \<and> lg_n t = int m' \<and> m' \<le> m + 1 \<and> inj_on (lg_block t) {..<m'} \<and>
    lg_block t ` {..<m'} = insert (snd (dv, n)) (lg_block ?p ` {..<m}) \<and> dirtyset t = insert (dv, n) (dirtyset ?p) \<and>
    view t = view ?p \<and> held t = held ?p \<and> disk t = disk ?p \<and> dwrites t = dwrites ?p \<and>
    bframe t = bframe (?p\<lparr>lg_n := lg_n t, lg_block := lg_block t\<rparr>)"
    by (rule log_write_ok [OF p(1) hp]) (use lp m o1 in simp_all)
  then obtain u m' where u: "log_write c b ?p = Ok u" "bready c u" "lg_n u = int m'" "m' \<le> m + 1" "inj_on (lg_block u) {..<m'}"
    "dirtyset u = insert (dv, n) (dirtyset t)" "view u = (view t)((dv, n) := d)" "held u = H((dv, n) \<mapsto> b)"
    "bframe u = bframe (?p\<lparr>lg_n := lg_n u, lg_block := lg_block u\<rparr>)"
    using p t by auto
  have fu: "fs_frame u = fs_frame t"
    using bframe_fs_frame [OF u(9)] bframe_fs_frame [OF p(2)] by (simp add: fs_frame_def)
  obtain w where w: "brelse c b u = Ok w" "bready c w" "bframe w = bframe u" "view w = view u" "held w = H"
    "dirtyset w = dirtyset u"
    using release_block [OF u(2,8) _ h] u(6) by blast
  have "opn_with c H k w"
    using w u(2-6) bframe_lg [OF w(3)] m o1 fu by (auto simp: opn_with_def fs_frame_def)
  then show ?thesis using u w bframe_fs_frame [OF w(3)] fu by auto
qed

text \<open>The common sequence: read, change, log, release.\<close>

lemma update_block:
  fixes s :: "'a logst_scheme"
  assumes o: "opn_with c H (Suc k) s" and k: "blk_ok s (dv, n)" and h: "H (dv, n) = None"
  shows "\<exists>b t u w. bread c dv n s = Ok (b, t) \<and> b_data (bufs t b) = view s (dv, n) \<and> fs_frame t = fs_frame s \<and>
    log_write c b (set_data b d t) = Ok u \<and> fs_frame u = fs_frame s \<and>
    brelse c b u = Ok w \<and> opn_with c H k w \<and> fs_frame w = fs_frame s \<and> view w = (view s)((dv, n) := d)"
proof -
  obtain b t where t: "bread c dv n s = Ok (b, t)" "bready c t" "bframe t = bframe s" "view t = view s" "held t = H((dv, n) \<mapsto> b)"
    "dirtyset t = dirtyset s" "b_data (bufs t b) = view s (dv, n)"
    using read_block [OF opn_calm [OF o] k h] by blast
  have ot: "opn_with c (H((dv, n) \<mapsto> b)) k t" by (rule opn_hold [OF o t(2,3,5,6)])
  have "\<exists>m. lg_n t = int m \<and> m + Suc k \<le> LOGSIZE \<and> int (m + Suc k) < lg_size t"
    using o bframe_lg [OF t(3)] by (auto simp: opn_with_def)
  from log_release [OF ot h this, of d] show ?thesis using t(1,4,7) bframe_fs_frame [OF t(3)] by auto
qed

section \<open>Inode operations\<close>

lemma inodes_locked [simp]:
  fixes s :: "'a icache_scheme"
  shows "inodes (locked_by c l s) = inodes s" "inodes (unlocked_by c l s) = inodes s"
    "fs_sb (locked_by c l s) = fs_sb s" "fs_sb (unlocked_by c l s) = fs_sb s"
  by (simp_all add: locked_by_def unlocked_by_def)

lemma inodes_upd [simp]:
  "inodes (upd_inode ip f s) = (inodes s)(ip := f (inodes s ip))" "fs_sb (upd_inode ip f s) = fs_sb s"
  "bufs (upd_inode ip f s) = bufs s" "disk (upd_inode ip f s) = disk s" "idequeue (upd_inode ip f s) = idequeue s"
  "dwrites (upd_inode ip f s) = dwrites s" "icache.more (upd_inode ip f s) = icache.more s"
  "havedisk1 (upd_inode ip f s) = havedisk1 s" "lg_n (upd_inode ip f s) = lg_n s" "lg_block (upd_inode ip f s) = lg_block s"
  "lg_size (upd_inode ip f s) = lg_size s" "lg_outstanding (upd_inode ip f s) = lg_outstanding s"
  "lg_committing (upd_inode ip f s) = lg_committing s" "lg_start (upd_inode ip f s) = lg_start s" "lg_dev (upd_inode ip f s) = lg_dev s"
  "mem (upd_inode ip f s) = mem s"
  by (simp_all add: upd_inode_def)

lemma env_upd_inode [simp]: "env c L (upd_inode ip f s) = env c L s"
  by (rule env_more) (simp_all add: upd_inode_def)

lemma bready_upd_inode [simp]: "bready c (upd_inode ip f s) = bready c s"
  by (rule bready_cong) (simp_all add: upd_inode_def)

lemma view_upd_inode [simp]:
  "view (upd_inode ip f s) = view s" "held (upd_inode ip f s) = held s" "dirtyset (upd_inode ip f s) = dirtyset s"
  by (rule view_cong; simp)+

lemma calm_upd_inode [simp]: "calm_with c H (upd_inode ip f s) = calm_with c H s" "opn_with c H k (upd_inode ip f s) = opn_with c H k s"
  "blk_ok (upd_inode ip f s) = blk_ok s"
  by (simp_all add: calm_with_def opn_with_def blk_ok_def fun_eq_iff)

lemma more_upd_inode: "ptab.more t = ptab.more s \<Longrightarrow> ptab.more (upd_inode ip f t) = ptab.more (upd_inode ip f s)"
  by (cases t; cases s) (simp add: upd_inode_def)

lemma upd_dinode_upd: "upd_dinode ip f s = upd_inode ip (\<lambda>r. r\<lparr>i_d := f (i_d r)\<rparr>) s"
  by (simp add: upd_dinode_def)

text \<open>Two states that differ only in the locks and the process table, and the invariants they share.\<close>

lemma same_keep:
  fixes s t :: "'a icache_scheme"
  assumes m: "ptab.more t = ptab.more s" and e: "env c {} t"
  shows "calm c s \<Longrightarrow> calm c t" "opn c k s \<Longrightarrow> opn c k t" "view t = view s" "inodes t = inodes s" "fs_sb t = fs_sb s"
    "icache.more t = icache.more s" "fs_frame t = fs_frame s"
proof -
  have b: "bufs t = bufs s" "idequeue t = idequeue s" "disk t = disk s" "bframe t = bframe s"
    using bsame_more [OF m] by (simp_all add: bsame_def)
  have r: "bready c s \<Longrightarrow> bready c t"
  proof -
    assume s: "bready c s"
    have "ring t bs = ring s bs" for bs by (rule ring_links) (simp add: b)
    then show "bready c t" using s e b bframe_sel [OF b(4)] by (simp add: bready_def binv_def)
  qed
  note v = view_cong [OF b(1,3)]
  show "calm c s \<Longrightarrow> calm c t" using r by (simp add: calm_with_def v)
  show "opn c k s \<Longrightarrow> opn c k t" using r opn_read [of c Map.empty k s t] b v by (simp add: opn_with_def)
  show "view t = view s" by (rule v)
  show "inodes t = inodes s" "fs_sb t = fs_sb s" "icache.more t = icache.more s" "fs_frame t = fs_frame s"
    using fs_frame_icache [OF bframe_fs_frame [OF b(4)]] bframe_fs_frame [OF b(4)] by simp_all
qed

text \<open>A change of one cache entry under the lock of the inode cache.\<close>

lemma icache_section:
  fixes s :: "'a icache_scheme"
  assumes e: "env c {} s"
  shows "acquire c Lk_icache s = Ok (locked_by c Lk_icache s)"
    and "\<exists>t. release c Lk_icache (upd_inode ip f (locked_by c Lk_icache s)) = Ok t \<and> env c {} t \<and>
      ptab.more t = ptab.more (upd_inode ip f s)"
proof -
  note a = env_acquire [OF e, of Lk_icache, simplified]
  show "acquire c Lk_icache s = Ok (locked_by c Lk_icache s)" by (rule a)
  have "env c {Lk_icache} (upd_inode ip f (locked_by c Lk_icache s))" using a(2) by simp
  note r = env_release [OF this, of Lk_icache, simplified]
  show "\<exists>t. release c Lk_icache (upd_inode ip f (locked_by c Lk_icache s)) = Ok t \<and> env c {} t \<and>
      ptab.more t = ptab.more (upd_inode ip f s)"
    using r more_upd_inode [of "locked_by c Lk_icache s" s ip f] by simp
qed

lemma calm_env: "calm c s \<Longrightarrow> env c {} s"
  by (simp add: calm_with_def bready_def)

text \<open>The inode that the disk, seen through the cache, has under a number.\<close>

definition iblk :: "'a icache_scheme \<Rightarrow> uint32 \<Rightarrow> uint32 \<Rightarrow> bid" where
  "iblk s dv inum = (dv, IBLOCK inum (fs_sb s))"

definition on_disk :: "'a icache_scheme \<Rightarrow> uint32 \<Rightarrow> uint32 \<Rightarrow> dinode" where
  "on_disk s dv inum = dip_get (view s (iblk s dv inum)) (ioff inum)"

lemma IBLOCK_inj:
  assumes "IBLOCK i sb = IBLOCK j sb" and "unat i mod IPB = unat j mod IPB"
  shows "i = j"
proof -
  have "i div 8 = j div 8" using assms(1) by (simp add: IBLOCK_def IPB_def BSIZE_def)
  then have "unat i div 8 = unat j div 8" using unat_div [of i 8] unat_div [of j 8] by simp
  moreover have "unat i mod 8 = unat j mod 8" using assms(2) by (simp add: IPB_def BSIZE_def)
  ultimately have "unat i = unat j" by (metis div_mult_mod_eq)
  then show ?thesis by (rule word_unat_eq_iff [THEN iffD2])
qed

lemma iupdate_ok:
  fixes s :: "'a icache_scheme"
  assumes o: "opn c (Suc k) s" and r: "inodes s ip = r" and b: "blk_ok s (iblk s (i_dev r) (i_inum r))"
  shows "\<exists>t. iupdate c ip s = Ok t \<and> opn c k t \<and> fs_frame t = fs_frame s \<and>
    view t = (view s)(iblk s (i_dev r) (i_inum r) := dip_put (ioff (i_inum r)) (i_d r) (view s (iblk s (i_dev r) (i_inum r))))"
proof -
  let ?k = "iblk s (i_dev r) (i_inum r)"
  obtain bp t u w where t: "bread c (i_dev r) (snd ?k) s = Ok (bp, t)" "b_data (bufs t bp) = view s ?k" "fs_frame t = fs_frame s"
    "log_write c bp (set_data bp (dip_put (ioff (i_inum r)) (i_d r) (view s ?k)) t) = Ok u" "brelse c bp u = Ok w" "opn c k w"
    "fs_frame w = fs_frame s" "view w = (view s)(?k := dip_put (ioff (i_inum r)) (i_d r) (view s ?k))"
    using update_block [OF o b [unfolded iblk_def], of "dip_put (ioff (i_inum r)) (i_d r) (view s ?k)"] unfolding iblk_def by auto
  then show ?thesis using fs_frame_icache(1) [OF t(3)] r by (simp add: iupdate_def iblk_def)
qed

lemma on_disk_update:
  assumes "dinode_ok d" and "view t = (view s)(iblk s dv i := dip_put (ioff i) d (view s (iblk s dv i)))" and "fs_sb t = fs_sb s"
  shows "on_disk t dw j = (if dw = dv \<and> j = i then d else on_disk s dw j)"
proof (cases "iblk s dw j = iblk s dv i")
  case True
  show ?thesis
  proof (cases "j = i")
    case False
    then have "unat j mod IPB \<noteq> unat i mod IPB" using True IBLOCK_inj [of j "fs_sb s" i] by (auto simp: iblk_def)
    then have "ioff i + 64 \<le> ioff j \<or> ioff j + 64 \<le> ioff i" by (auto simp: ioff_def)
    then show ?thesis using False True assms(2,3) dip_get_put_other by (simp add: on_disk_def iblk_def)
  qed (use True assms dip_get_put in \<open>simp add: on_disk_def iblk_def\<close>)
qed (use assms(2,3) in \<open>auto simp: on_disk_def iblk_def\<close>)

lemma ilock_ok:
  fixes s :: "'a icache_scheme"
  assumes m: "calm c s" and r: "inodes s ip = r" "1 \<le> i_ref r" "\<not> i_busy r" "\<not> i_valid r"
    and b: "blk_ok s (iblk s (i_dev r) (i_inum r))" and ty: "d_type (on_disk s (i_dev r) (i_inum r)) \<noteq> 0"
  shows "\<exists>t. ilock c (Some ip) s = Ok t \<and> calm c t \<and> view t = view s \<and> fs_sb t = fs_sb s \<and> icache.more t = icache.more s \<and>
    inodes t = (inodes s)(ip := r\<lparr>i_busy := True, i_d := on_disk s (i_dev r) (i_inum r), i_valid := True\<rparr>)"
proof -
  note a = icache_section [OF calm_env [OF m]]
  obtain t where t: "release c Lk_icache (upd_inode ip (\<lambda>r. r\<lparr>i_busy := True\<rparr>) (locked_by c Lk_icache s)) = Ok t" "env c {} t"
    "ptab.more t = ptab.more (upd_inode ip (\<lambda>r. r\<lparr>i_busy := True\<rparr>) s)"
    using a(2) by blast
  note k = same_keep [OF t(3,2)]
  have ct: "calm c t" and bt: "blk_ok t (iblk s (i_dev r) (i_inum r))"
    using k(1) m b fs_frame_ok [OF k(7)] by simp_all
  let ?d = "on_disk s (i_dev r) (i_inum r)"
  obtain bp u where u: "bread c (i_dev r) (IBLOCK (i_inum r) (fs_sb s)) t = Ok (bp, u)" "bready c u" "bframe u = bframe t" "view u = view t"
    "held u = [iblk s (i_dev r) (i_inum r) \<mapsto> bp]" "dirtyset u = dirtyset t" "b_data (bufs u bp) = view t (iblk s (i_dev r) (i_inum r))"
    "iblk s (i_dev r) (i_inum r) \<in> dirtyset u \<or> view u (iblk s (i_dev r) (i_inum r)) = disk u (dsec (iblk s (i_dev r) (i_inum r)))"
    using read_block [OF ct bt [unfolded iblk_def]] unfolding iblk_def by auto
  note fu = fs_frame_icache [OF bframe_fs_frame [OF u(3)]]
  let ?u = "upd_inode ip (\<lambda>r. r\<lparr>i_d := ?d\<rparr>) u"
  obtain w where w: "brelse c bp ?u = Ok w" "bready c w" "bframe w = bframe ?u" "view w = view u" "held w = Map.empty" "dirtyset w = dirtyset u"
    using release_block [of c ?u Map.empty "i_dev r" "IBLOCK (i_inum r) (fs_sb s)" bp] u by (auto simp: iblk_def)
  note fw = fs_frame_icache [OF bframe_fs_frame [OF w(3)]]
  have d: "dip_get (b_data (bufs u bp)) (ioff (i_inum r)) = ?d" using u(7) k by (simp add: on_disk_def)
  have "ilock c (Some ip) s = Ok (upd_inode ip (\<lambda>r. r\<lparr>i_valid := True\<rparr>) w)"
    using r a(1) t(1) u(1) w(1) k(4,5) fu fw ty by (simp add: ilock_def upd_dinode_upd Let_def d)
  moreover have "calm c w" using w u ct by (simp add: calm_with_def)
  ultimately show ?thesis using k fu fw r u(4) w(4) by simp
qed

section \<open>The inode cache\<close>

text \<open>Well-formed: no entry has a negative count, and no two entries in use stand for the same inode.\<close>

definition icinv :: "'a icache_scheme \<Rightarrow> bool" where
  "icinv s \<longleftrightarrow> (\<forall>i<NINODE. 0 \<le> i_ref (inodes s i)) \<and>
     (\<forall>i<NINODE. \<forall>j<NINODE. 0 < i_ref (inodes s i) \<and> 0 < i_ref (inodes s j) \<and>
        i_dev (inodes s i) = i_dev (inodes s j) \<and> i_inum (inodes s i) = i_inum (inodes s j) \<longrightarrow> i = j)"

text \<open>The references that the cache counts for an inode.\<close>

definition irefs :: "'a icache_scheme \<Rightarrow> uint32 \<times> uint32 \<Rightarrow> int" where
  "irefs s k = (\<Sum>i<NINODE. if (i_dev (inodes s i), i_inum (inodes s i)) = k then i_ref (inodes s i) else 0)"

definition live :: "'a icache_scheme \<Rightarrow> uint32 \<Rightarrow> uint32 \<Rightarrow> nat \<Rightarrow> bool" where
  "live s dv inum i \<longleftrightarrow> i_ref (inodes s i) > 0 \<and> i_dev (inodes s i) = dv \<and> i_inum (inodes s i) = inum"

lemma irefs_upd:
  fixes s t :: "'a icache_scheme"
  assumes "ip < NINODE" and "inodes t = (inodes s)(ip := r)"
  shows "irefs t k = irefs s k - (if (i_dev (inodes s ip), i_inum (inodes s ip)) = k then i_ref (inodes s ip) else 0)
    + (if (i_dev r, i_inum r) = k then i_ref r else 0)"
proof -
  define f where "f q i = (if (i_dev (inodes q i), i_inum (inodes q i)) = k then i_ref (inodes q i) else 0)" for q :: "'a icache_scheme" and i
  have "sum (f t) ({..<NINODE} - {ip}) = sum (f s) ({..<NINODE} - {ip})"
    by (rule sum.cong) (use assms(2) in \<open>auto simp: f_def\<close>)
  then have "sum (f t) {..<NINODE} - f t ip = sum (f s) {..<NINODE} - f s ip"
    using assms(1) by (simp add: sum.remove [of "{..<NINODE}" ip])
  moreover have "irefs t k = sum (f t) {..<NINODE}" "irefs s k = sum (f s) {..<NINODE}" unfolding irefs_def f_def by (rule refl)+
  moreover have "f t ip = (if (i_dev r, i_inum r) = k then i_ref r else 0)" unfolding f_def assms(2) by simp
  ultimately show ?thesis unfolding f_def [of s] by linarith
qed

definition igot :: "uint32 \<Rightarrow> uint32 \<Rightarrow> inode \<Rightarrow> inode" where
  "igot dv inum r = (if i_ref r > 0 then r\<lparr>i_ref := i_ref r + 1\<rparr>
     else r\<lparr>i_dev := dv, i_inum := inum, i_ref := 1, i_busy := False, i_valid := False\<rparr>)"

lemma find_upt_None: "find P [0..<n] = None \<longleftrightarrow> (\<forall>i<n. \<not> P i)"
  by (auto simp: find_None_iff)

lemma find_upt_Some: "find P [0..<n] = Some i \<Longrightarrow> i < n \<and> P i \<and> (\<forall>j<i. \<not> P j)"
  by (auto simp: find_Some_iff)

lemma iget_ok:
  fixes s :: "'a icache_scheme"
  assumes m: "calm c s" and i: "icinv s" and room: "\<exists>i<NINODE. i_ref (inodes s i) = 0 \<or> live s dv inum i"
  shows "\<exists>ip t. iget c dv inum s = Ok (ip, t) \<and> ip < NINODE \<and> env c {} t \<and>
    (live s dv inum ip \<or> i_ref (inodes s ip) = 0 \<and> (\<forall>j<NINODE. \<not> live s dv inum j)) \<and>
    ptab.more t = ptab.more (upd_inode ip (igot dv inum) s)"
proof -
  note a = icache_section [OF calm_env [OF m]]
  show ?thesis
  proof (cases "find (live s dv inum) [0..<NINODE]")
    case (Some ip)
    note f = find_upt_Some [OF Some]
    obtain t where t: "release c Lk_icache (upd_inode ip (\<lambda>r. r\<lparr>i_ref := i_ref r + 1\<rparr>) (locked_by c Lk_icache s)) = Ok t" "env c {} t"
      "ptab.more t = ptab.more (upd_inode ip (\<lambda>r. r\<lparr>i_ref := i_ref r + 1\<rparr>) s)"
      using a(2) by blast
    moreover have "upd_inode ip (\<lambda>r. r\<lparr>i_ref := i_ref r + 1\<rparr>) s = upd_inode ip (igot dv inum) s"
      using f by (simp add: upd_inode_def igot_def live_def)
    ultimately show ?thesis using a(1) f Some by (simp add: iget_def live_def [abs_def])
  next
    case None
    then have no: "\<forall>j<NINODE. \<not> live s dv inum j" by (simp add: find_upt_None)
    then obtain ip where ip: "find (\<lambda>i. i_ref (inodes s i) = 0) [0..<NINODE] = Some ip"
      using room by (cases "find (\<lambda>i. i_ref (inodes s i) = 0) [0..<NINODE]") (auto simp: find_upt_None)
    note f = find_upt_Some [OF ip]
    let ?f = "\<lambda>r. r\<lparr>i_dev := dv, i_inum := inum, i_ref := 1, i_busy := False, i_valid := False\<rparr>"
    obtain t where t: "release c Lk_icache (upd_inode ip ?f (locked_by c Lk_icache s)) = Ok t" "env c {} t"
      "ptab.more t = ptab.more (upd_inode ip ?f s)"
      using a(2) by blast
    moreover have "upd_inode ip ?f s = upd_inode ip (igot dv inum) s"
      using f by (simp add: upd_inode_def igot_def)
    ultimately show ?thesis using a(1) f ip None no by (auto simp: iget_def live_def [abs_def])
  qed
qed

lemma icinv_upd:
  assumes "icinv s" and "inodes t = (inodes s)(ip := r)" and "0 \<le> i_ref r"
    and "0 < i_ref r \<longrightarrow> (\<forall>j<NINODE. j \<noteq> ip \<longrightarrow> \<not> live s (i_dev r) (i_inum r) j)"
  shows "icinv t"
  using assms by (auto simp: icinv_def live_def)

lemma igot_keeps:
  fixes s t :: "'a icache_scheme"
  assumes i: "icinv s" and ip: "ip < NINODE" and t: "inodes t = (inodes s)(ip := igot dv inum (inodes s ip))"
    and l: "live s dv inum ip \<or> i_ref (inodes s ip) = 0 \<and> (\<forall>j<NINODE. \<not> live s dv inum j)"
  shows "icinv t" "irefs t = (irefs s)((dv, inum) := irefs s (dv, inum) + 1)" "live t dv inum ip"
proof -
  show "icinv t"
    by (rule icinv_upd [OF i t]) (use i ip l in \<open>auto simp: igot_def live_def icinv_def\<close>)
  show "irefs t = (irefs s)((dv, inum) := irefs s (dv, inum) + 1)"
    using irefs_upd [OF ip t] l by (auto simp: fun_eq_iff igot_def live_def)
  show "live t dv inum ip" using l t by (auto simp: live_def igot_def)
qed

text \<open>\<^verbatim>\<open>idup\<close> of an entry in use, and \<^verbatim>\<open>iput\<close> where the inode need not be freed.\<close>

lemma idup_ok:
  fixes s :: "'a icache_scheme"
  assumes "calm c s"
  shows "\<exists>t. idup c ip s = Ok (ip, t) \<and> env c {} t \<and> ptab.more t = ptab.more (upd_inode ip (\<lambda>r. r\<lparr>i_ref := i_ref r + 1\<rparr>) s)"
proof -
  note a = icache_section [OF calm_env [OF assms]]
  obtain t where "release c Lk_icache (upd_inode ip (\<lambda>r. r\<lparr>i_ref := i_ref r + 1\<rparr>) (locked_by c Lk_icache s)) = Ok t" "env c {} t"
      "ptab.more t = ptab.more (upd_inode ip (\<lambda>r. r\<lparr>i_ref := i_ref r + 1\<rparr>) s)"
    using a(2) by blast
  then show ?thesis using a(1) by (simp add: idup_def)
qed

lemma iput_ok:
  fixes s :: "'a icache_scheme"
  assumes "calm c s" and "i_ref (inodes s ip) \<noteq> 1 \<or> \<not> i_valid (inodes s ip) \<or> d_nlink (i_d (inodes s ip)) \<noteq> 0"
  shows "\<exists>t. iput c ip s = Ok t \<and> env c {} t \<and> ptab.more t = ptab.more (upd_inode ip (\<lambda>r. r\<lparr>i_ref := i_ref r - 1\<rparr>) s)"
proof -
  note a = icache_section [OF calm_env [OF assms(1)]]
  obtain t where "release c Lk_icache (upd_inode ip (\<lambda>r. r\<lparr>i_ref := i_ref r - 1\<rparr>) (locked_by c Lk_icache s)) = Ok t" "env c {} t"
      "ptab.more t = ptab.more (upd_inode ip (\<lambda>r. r\<lparr>i_ref := i_ref r - 1\<rparr>) s)"
    using a(2) by blast
  then show ?thesis using a(1) assms(2) by (auto simp: iput_def)
qed

lemma iunlock_ok:
  fixes s :: "'a icache_scheme"
  assumes m: "calm c s" and b: "i_busy (inodes s ip)" "1 \<le> i_ref (inodes s ip)"
  shows "\<exists>t. iunlock c (Some ip) s = Ok t \<and> env c {} t \<and> ptab.more t = ptab.more (upd_inode ip (\<lambda>r. r\<lparr>i_busy := False\<rparr>) s)"
proof -
  let ?f = "\<lambda>r :: inode. r\<lparr>i_busy := False\<rparr>"
  note a = env_acquire [OF calm_env [OF m], of Lk_icache, simplified]
  have "env c {Lk_icache} (upd_inode ip ?f (locked_by c Lk_icache s))" using a(2) by simp
  then obtain t where t: "wakeup c (Chan_inode ip) (upd_inode ip ?f (locked_by c Lk_icache s)) = Ok t" "env c {Lk_icache} t"
    "ptab.more t = ptab.more (upd_inode ip ?f (locked_by c Lk_icache s))"
    using env_wakeup by fastforce
  note r = env_release [OF t(2), of Lk_icache, simplified]
  show ?thesis using a(1) t r b more_upd_inode [of "locked_by c Lk_icache s" s ip ?f] by (simp add: iunlock_def)
qed


text \<open>C10: an inode that was updated is read back. \<^verbatim>\<open>iupdate\<close> in a transaction, then \<^verbatim>\<open>iunlockput\<close> of the last
  reference, then \<^verbatim>\<open>iget\<close> and \<^verbatim>\<open>ilock\<close> of the same number succeed; the entry is filled again from its block, and its
  type, mode, owner, size and block addresses are those of the update, while every other inode on the disk is
  unchanged.\<close>

theorem updated_inode_is_read_back:
  fixes s :: "'a icache_scheme"
  assumes "opn c (Suc k) s" and "icinv s" and "ip < NINODE" and "inodes s ip = r" and "i_ref r = 1" and "i_busy r" and "i_valid r"
    and "dinode_ok (i_d r)" and "d_nlink (i_d r) \<noteq> 0" and "d_type (i_d r) \<noteq> 0" and "blk_ok s (iblk s (i_dev r) (i_inum r))"
  shows "\<exists>t u jp v w. iupdate c ip s = Ok t \<and> iunlockput c ip t = Ok u \<and> iget c (i_dev r) (i_inum r) u = Ok (jp, v) \<and>
    \<not> i_valid (inodes v jp) \<and> ilock c (Some jp) v = Ok w \<and> i_valid (inodes w jp) \<and> i_d (inodes w jp) = i_d r \<and>
    (\<forall>dv j. (dv, j) \<noteq> (i_dev r, i_inum r) \<longrightarrow> on_disk w dv j = on_disk s dv j)"
proof -
  obtain t where t: "iupdate c ip s = Ok t" "opn c k t" "fs_frame t = fs_frame s" "view t = (view s)(iblk s (i_dev r) (i_inum r) :=
      dip_put (ioff (i_inum r)) (i_d r) (view s (iblk s (i_dev r) (i_inum r))))"
    using iupdate_ok [OF assms(1,4,11)] by blast
  note ft = fs_frame_icache [OF t(3)] and d = on_disk_update [OF assms(8) t(4)]
  have od: "on_disk t dv j = (if dv = i_dev r \<and> j = i_inum r then i_d r else on_disk s dv j)" for dv j using d ft by simp
  note ct = opn_calm [OF t(2)]
  have "i_busy (inodes t ip)" "1 \<le> i_ref (inodes t ip)" using ft assms by simp_all
  from iunlock_ok [OF ct this] obtain x where x: "iunlock c (Some ip) t = Ok x" "env c {} x"
    "ptab.more x = ptab.more (upd_inode ip (\<lambda>r. r\<lparr>i_busy := False\<rparr>) t)" by blast
  note kx = same_keep [OF x(3,2)]
  have cx: "calm c x" and ix: "inodes x = (inodes s)(ip := r\<lparr>i_busy := False\<rparr>)" using kx ct ft assms(4) by simp_all
  have "d_nlink (i_d (inodes x ip)) \<noteq> 0" using ix assms by simp
  then obtain u where u: "iput c ip x = Ok u" "env c {} u" "ptab.more u = ptab.more (upd_inode ip (\<lambda>r. r\<lparr>i_ref := i_ref r - 1\<rparr>) x)"
    using iput_ok [OF cx] by blast
  note ku = same_keep [OF u(3,2)]
  have cu: "calm c u" and iu: "inodes u = (inodes s)(ip := r\<lparr>i_busy := False, i_ref := 0\<rparr>)" using ku cx ix assms(5) by simp_all
  have no: "\<not> live u (i_dev r) (i_inum r) j" if "j < NINODE" for j
    using that assms(2-5) iu by (auto simp: live_def icinv_def)
  have "icinv u" by (rule icinv_upd [OF assms(2) iu]) simp_all
  moreover have "\<exists>i<NINODE. i_ref (inodes u i) = 0 \<or> live u (i_dev r) (i_inum r) i" using iu assms(3) by force
  ultimately obtain jp v where v: "iget c (i_dev r) (i_inum r) u = Ok (jp, v)" "jp < NINODE" "env c {} v" "i_ref (inodes u jp) = 0"
    "ptab.more v = ptab.more (upd_inode jp (igot (i_dev r) (i_inum r)) u)"
    using iget_ok [OF cu, of "i_dev r" "i_inum r"] no by blast
  note kv = same_keep [OF v(5,3)]
  have cv: "calm c v" using kv(1) cu by simp
  define q where "q = inodes v jp"
  have q: "i_dev q = i_dev r" "i_inum q = i_inum r" "i_ref q = 1" "\<not> i_busy q" "\<not> i_valid q"
    using kv(4) v(4) by (simp_all add: q_def igot_def)
  have sb: "fs_sb v = fs_sb s" "view v = view t" using kv ku kx ft by simp_all
  have od': "on_disk v dv j = on_disk t dv j" for dv j using sb ft by (simp add: on_disk_def iblk_def)
  have b: "blk_ok v (iblk v (i_dev q) (i_inum q))"
    using assms(11) sb q kv(7) ku(7) kx(7) t(3) by (simp add: iblk_def blk_ok_def fs_frame_def)
  have ty: "d_type (on_disk v (i_dev q) (i_inum q)) \<noteq> 0" using od' od q assms(10) by simp
  obtain w where w: "ilock c (Some jp) v = Ok w" "view w = view v" "fs_sb w = fs_sb v"
    "inodes w = (inodes v)(jp := q\<lparr>i_busy := True, i_d := on_disk v (i_dev q) (i_inum q), i_valid := True\<rparr>)"
    using ilock_ok [OF cv q_def [symmetric] _ q(4,5) b ty] q(3) by auto
  have "on_disk w dv j = on_disk v dv j" for dv j using w by (simp add: on_disk_def iblk_def)
  then show ?thesis
    using t(1) x(1) u(1) v(1) w(1,4) q od od' by (auto simp: iunlockput_def q_def)
qed

section \<open>The block allocator\<close>

definition bused :: "'a icache_scheme \<Rightarrow> uint32 \<Rightarrow> uint32 \<Rightarrow> bool" where
  "bused s dv b = bit_used (view s (dv, BBLOCK b (fs_sb s))) (unat b mod BPB)"

definition free_blocks :: "'a icache_scheme \<Rightarrow> uint32 \<Rightarrow> uint32 set" where
  "free_blocks s dv = {b. b < sb_size (fs_sb s) \<and> \<not> bused s dv b}"

text \<open>A device whose file system fits the disk and whose bitmap marks itself and block zero as used. With at most
  \<^verbatim>\<open>FSSIZE\<close> blocks the bitmap is a single block.\<close>

definition disk_ok :: "'a icache_scheme \<Rightarrow> uint32 \<Rightarrow> bool" where
  "disk_ok s dv \<longleftrightarrow> dv < 2 \<and> (dv = 0 \<or> havedisk1 s) \<and> sb_size (fs_sb s) \<le> FSSIZE \<and>
     (\<forall>b \<in> {0, sb_bmapstart (fs_sb s)}. b < sb_size (fs_sb s) \<and> bused s dv b)"

lemma disk_ok_blk: "disk_ok s dv \<Longrightarrow> b < sb_size (fs_sb s) \<Longrightarrow> blk_ok s (dv, b)"
  by (auto simp: disk_ok_def blk_ok_def)

lemma small_block:
  assumes "disk_ok s dv" and "b < sb_size (fs_sb s)"
  shows "unat b < BPB" "BBLOCK b (fs_sb s) = sb_bmapstart (fs_sb s)"
proof -
  have "b < 2000" using assms by (auto simp: disk_ok_def FSSIZE_def)
  then have u: "unat b < 2000" by (simp add: word_less_nat_alt)
  then show "unat b < BPB" by (simp add: BPB_def BSIZE_def)
  have "b div 4096 = 0" using u unat_div [of b 4096] by (simp add: word_unat_eq_iff)
  then show "BBLOCK b (fs_sb s) = sb_bmapstart (fs_sb s)" by (simp add: BBLOCK_def BPB_def BSIZE_def)
qed

lemma bit_used_set: "bit_used (set_used i d) j \<longleftrightarrow> j = i \<or> bit_used d j"
proof (cases "j div 8 = i div 8")
  case True
  then have "j = i \<longleftrightarrow> j mod 8 = i mod 8" by (metis div_mult_mod_eq)
  then show ?thesis using True by (auto simp: bit_used_def set_used_def bit_or_iff bit_exp_iff)
qed (auto simp: bit_used_def set_used_def)

lemma bzero_ok:
  fixes s :: "'a logst_scheme"
  assumes "opn_with c H (Suc k) s" and "blk_ok s (dv, n)" and "H (dv, n) = None"
  shows "\<exists>t. bzero c dv n s = Ok t \<and> opn_with c H k t \<and> fs_frame t = fs_frame s \<and> view t = (view s)((dv, n) := (\<lambda>_. 0))"
  using update_block [OF assms, of "\<lambda>_. 0"] by (auto simp: bzero_def)

lemma bused_small:
  assumes "disk_ok s dv" and "b < sb_size (fs_sb s)"
  shows "bused s dv b = bit_used (view s (dv, sb_bmapstart (fs_sb s))) (unat b)"
  using small_block [OF assms] by (simp add: bused_def)

text \<open>\<^verbatim>\<open>balloc\<close> returns the first free block, marks it and fills it with zeros.\<close>

lemma balloc_ok:
  fixes s :: "'a icache_scheme"
  assumes o: "opn_with c H (Suc (Suc k)) s" and d: "disk_ok s dv" and f: "free_blocks s dv \<noteq> {}"
    and h: "H (dv, sb_bmapstart (fs_sb s)) = None" "\<And>b. b \<in> free_blocks s dv \<Longrightarrow> H (dv, b) = None"
  defines "bm \<equiv> sb_bmapstart (fs_sb s)"
  shows "\<exists>b t. balloc c dv s = Ok (b, t) \<and> b \<in> free_blocks s dv \<and> (\<forall>a \<in> free_blocks s dv. b \<le> a) \<and> opn_with c H k t \<and>
    fs_frame t = fs_frame s \<and> view t = (view s)((dv, bm) := set_used (unat b) (view s (dv, bm)), (dv, b) := (\<lambda>_. 0))"
proof -
  let ?N = "unat (sb_size (fs_sb s))"
  let ?v = "view s (dv, bm)"
  have bm: "bm < sb_size (fs_sb s)" "bused s dv bm" and sz: "0 < sb_size (fs_sb s)" using d by (auto simp: disk_ok_def bm_def)
  have N: "0 < ?N" "?N \<le> BPB"
  proof -
    show "0 < ?N" using sz by (simp add: word_less_nat_alt)
    have "sb_size (fs_sb s) \<le> 2000" using d by (simp add: disk_ok_def FSSIZE_def)
    then show "?N \<le> BPB" by (simp add: word_le_nat_alt BPB_def BSIZE_def)
  qed
  have used: "bused s dv b = bit_used ?v (unat b)" if "b < sb_size (fs_sb s)" for b
    using bused_small [OF d that] by (simp add: bm_def)
  obtain b0 where "b0 \<in> free_blocks s dv" using f by blast
  then have b0: "unat b0 < ?N" "\<not> bit_used ?v (unat b0)"
    using used by (auto simp: free_blocks_def word_less_nat_alt)
  then obtain bi where fi: "find (\<lambda>i. \<not> bit_used ?v i) [0..<?N] = Some bi"
    by (cases "find (\<lambda>i. \<not> bit_used ?v i) [0..<?N]") (auto simp: find_upt_None)
  note bi = find_upt_Some [OF fi]
  define b :: uint32 where "b = of_nat bi"
  have ub: "unat b = bi" using bi N(2) by (simp add: b_def unat_of_nat BPB_def BSIZE_def)
  have bf: "b \<in> free_blocks s dv" using bi ub used by (simp add: free_blocks_def word_less_nat_alt)
  have least: "b \<le> a" if "a \<in> free_blocks s dv" for a
  proof (rule ccontr)
    assume "\<not> b \<le> a"
    then have "unat a < bi" using ub by (simp add: word_le_nat_alt)
    then show False using bi that used by (auto simp: free_blocks_def)
  qed
  have kb: "blk_ok s (dv, bm)" "blk_ok s (dv, b)" using disk_ok_blk [OF d] bm bf by (auto simp: free_blocks_def)
  obtain bp t u w where t: "bread c dv bm s = Ok (bp, t)" "b_data (bufs t bp) = ?v" "fs_frame t = fs_frame s"
    "log_write c bp (set_data bp (set_used bi ?v) t) = Ok u" "brelse c bp u = Ok w" "opn_with c H (Suc k) w" "fs_frame w = fs_frame s"
    "view w = (view s)((dv, bm) := set_used bi ?v)"
    using update_block [OF o kb(1), of "set_used bi ?v"] h(1) unfolding bm_def by auto
  obtain x where x: "bzero c dv b w = Ok x" "opn_with c H k x" "fs_frame x = fs_frame w" "view x = (view w)((dv, b) := (\<lambda>_. 0))"
    using bzero_ok [OF t(6), of dv b] kb(2) h(2) [OF bf] fs_frame_ok [OF t(7)] by auto
  have "BBLOCK 0 (fs_sb s) = bm" using small_block [OF d sz] by (simp add: bm_def)
  then have "balloc c dv s = Ok (b, x)"
    using t x(1) N fi fs_frame_icache(2) [OF t(3)] by (simp add: balloc_def b_def min_absorb2)
  then show ?thesis using bf least x t ub by auto
qed

lemma balloc_used:
  fixes s t :: "'a icache_scheme"
  assumes d: "disk_ok s dv" and b: "b \<in> free_blocks s dv" and f: "fs_frame t = fs_frame s"
    and v: "view t = (view s)((dv, sb_bmapstart (fs_sb s)) := set_used (unat b) (view s (dv, sb_bmapstart (fs_sb s))), (dv, b) := z)"
  shows "\<And>a. a < sb_size (fs_sb s) \<Longrightarrow> bused t dv a \<longleftrightarrow> a = b \<or> bused s dv a" "disk_ok t dv"
    "free_blocks t dv = free_blocks s dv - {b}"
proof -
  have sb: "fs_sb t = fs_sb s" "havedisk1 t = havedisk1 s" using fs_frame_icache [OF f] f by (simp_all add: fs_frame_def)
  have nb: "b \<noteq> sb_bmapstart (fs_sb s)" using b d by (auto simp: free_blocks_def disk_ok_def)
  show u: "bused t dv a \<longleftrightarrow> a = b \<or> bused s dv a" if "a < sb_size (fs_sb s)" for a
    using small_block [OF d that] nb v by (auto simp: bused_def bit_used_set sb dest: word_unat_eq_iff [THEN iffD2])
  then show "disk_ok t dv" using d by (auto simp: disk_ok_def sb)
  show "free_blocks t dv = free_blocks s dv - {b}" using u by (auto simp: free_blocks_def sb)
qed

section \<open>The blocks and the bytes of a file\<close>

text \<open>The block that an inode has for slot \<open>i\<close> of its file, zero when there is none; slot \<^verbatim>\<open>MAXFILE\<close> is the
  indirect block.\<close>

definition fblk :: "(bid \<Rightarrow> block) \<Rightarrow> inode \<Rightarrow> nat \<Rightarrow> uint32" where
  "fblk v r i = (let a = d_addrs (i_d r) in
     if i < NDIRECT then a i else if i = MAXFILE then a NDIRECT else if a NDIRECT = 0 then 0
     else blk_rd32 (v (i_dev r, a NDIRECT)) (4 * (i - NDIRECT)))"

text \<open>The byte at an offset of the file; a hole reads as zero.\<close>

definition fbyte :: "(bid \<Rightarrow> block) \<Rightarrow> inode \<Rightarrow> nat \<Rightarrow> uchar" where
  "fbyte v r p = (let b = fblk v r (p div BSIZE) in if b = 0 then 0 else v (i_dev r, b) (p mod BSIZE))"

text \<open>A consistent file: its blocks are on the disk, marked as used, different from one another and from the
  bitmap and the block of its inode.\<close>

definition file_ok :: "'a icache_scheme \<Rightarrow> inode \<Rightarrow> bool" where
  "file_ok s r \<longleftrightarrow> disk_ok s (i_dev r) \<and> IBLOCK (i_inum r) (fs_sb s) \<noteq> sb_bmapstart (fs_sb s) \<and>
     IBLOCK (i_inum r) (fs_sb s) < sb_size (fs_sb s) \<and> bused s (i_dev r) (IBLOCK (i_inum r) (fs_sb s)) \<and>
     (\<forall>i\<le>MAXFILE. fblk (view s) r i \<noteq> 0 \<longrightarrow> fblk (view s) r i < sb_size (fs_sb s) \<and> bused s (i_dev r) (fblk (view s) r i) \<and>
        fblk (view s) r i \<notin> {sb_bmapstart (fs_sb s), IBLOCK (i_inum r) (fs_sb s)}) \<and>
     (\<forall>i\<le>MAXFILE. \<forall>j\<le>MAXFILE. fblk (view s) r i \<noteq> 0 \<and> fblk (view s) r i = fblk (view s) r j \<longrightarrow> i = j)"

lemma file_okD:
  assumes "file_ok s r"
  shows "disk_ok s (i_dev r)" "IBLOCK (i_inum r) (fs_sb s) \<noteq> sb_bmapstart (fs_sb s)" "IBLOCK (i_inum r) (fs_sb s) < sb_size (fs_sb s)"
    "bused s (i_dev r) (IBLOCK (i_inum r) (fs_sb s))"
    "\<And>i. i \<le> MAXFILE \<Longrightarrow> fblk (view s) r i \<noteq> 0 \<Longrightarrow> fblk (view s) r i < sb_size (fs_sb s) \<and> bused s (i_dev r) (fblk (view s) r i) \<and>
       fblk (view s) r i \<noteq> sb_bmapstart (fs_sb s) \<and> fblk (view s) r i \<noteq> IBLOCK (i_inum r) (fs_sb s)"
    "\<And>i j. i \<le> MAXFILE \<Longrightarrow> j \<le> MAXFILE \<Longrightarrow> fblk (view s) r i \<noteq> 0 \<Longrightarrow> fblk (view s) r i = fblk (view s) r j \<Longrightarrow> i = j"
  using assms by (auto simp: file_ok_def)

lemma free_not_used:
  assumes "file_ok s r" and "b \<in> free_blocks s (i_dev r)"
  shows "b \<noteq> 0" "b < sb_size (fs_sb s)" "b \<noteq> sb_bmapstart (fs_sb s)" "b \<noteq> IBLOCK (i_inum r) (fs_sb s)"
    "\<And>i. i \<le> MAXFILE \<Longrightarrow> fblk (view s) r i \<noteq> b"
proof -
  note f = file_okD [OF assms(1)]
  show b: "b \<noteq> 0" "b < sb_size (fs_sb s)" "b \<noteq> sb_bmapstart (fs_sb s)" "b \<noteq> IBLOCK (i_inum r) (fs_sb s)"
    using assms(2) f(1,4) by (auto simp: free_blocks_def disk_ok_def)
  show "fblk (view s) r i \<noteq> b" if "i \<le> MAXFILE" for i
    using f(5) [OF that] b(1) assms(2) by (auto simp: free_blocks_def)
qed

text \<open>Linking a newly allocated block into a free slot keeps the file consistent and its bytes the same.\<close>

lemma link_slot:
  fixes s t :: "'a icache_scheme"
  assumes r: "file_ok s r" and b: "b \<in> free_blocks s (i_dev r)" and i: "i \<le> MAXFILE" "fblk (view s) r i = 0"
    and q: "i_dev q = i_dev r" "i_inum q = i_inum r" "fs_sb t = fs_sb s"
    and l: "\<And>j. j \<le> MAXFILE \<Longrightarrow> fblk (view t) q j = (if j = i then b else fblk (view s) r j)"
    and u: "\<And>a. a < sb_size (fs_sb s) \<Longrightarrow> bused t (i_dev r) a \<longleftrightarrow> a = b \<or> bused s (i_dev r) a" and d: "disk_ok t (i_dev r)"
    and z: "i < MAXFILE \<Longrightarrow> view t (i_dev r, b) = (\<lambda>_. 0)"
    and v: "\<And>j. j < MAXFILE \<Longrightarrow> fblk (view s) r j \<noteq> 0 \<Longrightarrow> view t (i_dev r, fblk (view s) r j) = view s (i_dev r, fblk (view s) r j)"
  shows "file_ok t q" "p < MAXFILE * BSIZE \<Longrightarrow> fbyte (view t) q p = fbyte (view s) r p"
proof -
  note f = file_okD [OF r] and n = free_not_used [OF r b]
  show "file_ok t q"
    unfolding file_ok_def q
  proof (intro conjI allI impI)
    show "fblk (view t) q j < sb_size (fs_sb s)" "bused t (i_dev r) (fblk (view t) q j)"
      "fblk (view t) q j \<notin> {sb_bmapstart (fs_sb s), IBLOCK (i_inum r) (fs_sb s)}" if "j \<le> MAXFILE" "fblk (view t) q j \<noteq> 0" for j
      using f(5) [OF that(1)] that l [OF that(1)] n u by auto
    show "j = k" if "j \<le> MAXFILE" "k \<le> MAXFILE" "fblk (view t) q j \<noteq> 0 \<and> fblk (view t) q j = fblk (view t) q k" for j k
      using f(6) [OF that(1,2)] that(3) l [OF that(1)] l [OF that(2)] n(5) [OF that(1)] n(5) [OF that(2)] by (auto split: if_splits)
  qed (use f(2-4) u d in auto)
  show "fbyte (view t) q p = fbyte (view s) r p" if "p < MAXFILE * BSIZE"
  proof -
    have "p div BSIZE < MAXFILE" using that by (simp add: less_mult_imp_div_less)
    then show ?thesis using l [of "p div BSIZE"] z v [of "p div BSIZE"] i(2) n(1) by (auto simp: fbyte_def Let_def q)
  qed
qed

text \<open>What a write to a file may change: the addresses of its inode and the blocks of the disk, where no block of
  the file is replaced. Allocation alone leaves the bytes as they are.\<close>

definition file_upd :: "nat \<Rightarrow> 'a icache_scheme \<Rightarrow> 'a icache_scheme \<Rightarrow> bool" where
  "file_upd ip s t \<longleftrightarrow> (\<exists>as. inodes t = (inodes s)(ip := (inodes s ip)\<lparr>i_d := (i_d (inodes s ip))\<lparr>d_addrs := as\<rparr>\<rparr>)) \<and>
     fs_sb t = fs_sb s \<and> icache.more t = icache.more s \<and> havedisk1 t = havedisk1 s \<and> file_ok t (inodes t ip) \<and>
     (\<forall>i\<le>MAXFILE. fblk (view s) (inodes s ip) i \<noteq> 0 \<longrightarrow> fblk (view t) (inodes t ip) i = fblk (view s) (inodes s ip) i)"

definition file_step :: "nat \<Rightarrow> 'a icache_scheme \<Rightarrow> 'a icache_scheme \<Rightarrow> bool" where
  "file_step ip s t \<longleftrightarrow> file_upd ip s t \<and>
     (\<forall>p<MAXFILE * BSIZE. fbyte (view t) (inodes t ip) p = fbyte (view s) (inodes s ip) p)"

lemma file_updD:
  assumes "file_upd ip s t"
  shows "i_dev (inodes t ip) = i_dev (inodes s ip)" "i_inum (inodes t ip) = i_inum (inodes s ip)"
    "d_size (i_d (inodes t ip)) = d_size (i_d (inodes s ip))" "d_type (i_d (inodes t ip)) = d_type (i_d (inodes s ip))"
    "fs_sb t = fs_sb s" "icache.more t = icache.more s" "file_ok t (inodes t ip)"
    "blk_ok t = blk_ok s" "havedisk1 t = havedisk1 s"
    "\<And>i. i \<le> MAXFILE \<Longrightarrow> fblk (view s) (inodes s ip) i \<noteq> 0 \<Longrightarrow> fblk (view t) (inodes t ip) i = fblk (view s) (inodes s ip) i"
  using assms by (auto simp: file_upd_def blk_ok_def fun_eq_iff)

lemma file_upd_refl: "file_ok s (inodes s ip) \<Longrightarrow> file_upd ip s s"
  unfolding file_upd_def by (intro conjI exI [of _ "d_addrs (i_d (inodes s ip))"]) auto

lemma file_upd_trans:
  assumes "file_upd ip s t" and "file_upd ip t u"
  shows "file_upd ip s u"
proof -
  obtain as where "inodes t = (inodes s)(ip := (inodes s ip)\<lparr>i_d := (i_d (inodes s ip))\<lparr>d_addrs := as\<rparr>\<rparr>)"
    using assms(1) by (auto simp: file_upd_def)
  moreover obtain bs where "inodes u = (inodes t)(ip := (inodes t ip)\<lparr>i_d := (i_d (inodes t ip))\<lparr>d_addrs := bs\<rparr>\<rparr>)"
    using assms(2) by (auto simp: file_upd_def)
  ultimately have "inodes u = (inodes s)(ip := (inodes s ip)\<lparr>i_d := (i_d (inodes s ip))\<lparr>d_addrs := bs\<rparr>\<rparr>)" by simp
  then show ?thesis using file_updD [OF assms(1)] file_updD [OF assms(2)] unfolding file_upd_def by auto
qed

lemma file_step_refl: "file_ok s (inodes s ip) \<Longrightarrow> file_step ip s s"
  by (simp add: file_step_def file_upd_refl)

lemma file_step_trans: "file_step ip s t \<Longrightarrow> file_step ip t u \<Longrightarrow> file_step ip s u"
  using file_upd_trans unfolding file_step_def by auto

lemma file_stepD:
  assumes "file_step ip s t"
  shows "i_dev (inodes t ip) = i_dev (inodes s ip)" "file_ok t (inodes t ip)" "file_upd ip s t"
    "p < MAXFILE * BSIZE \<Longrightarrow> fbyte (view t) (inodes t ip) p = fbyte (view s) (inodes s ip) p"
  using assms file_updD by (auto simp: file_step_def)

lemma file_ok_cong:
  assumes "view t = view s" "fs_sb t = fs_sb s" "havedisk1 t = havedisk1 s"
  shows "file_ok t r = file_ok s r" "free_blocks t dv = free_blocks s dv"
  unfolding file_ok_def disk_ok_def bused_def free_blocks_def assms by (rule refl)+

lemma file_step_same:
  fixes s t :: "'a icache_scheme"
  assumes "fs_frame t = fs_frame s" and "view t = view s" and "file_ok s (inodes s ip)"
  shows "file_step ip s t" "free_blocks t dv = free_blocks s dv"
proof -
  note f = fs_frame_icache [OF assms(1)]
  have h: "havedisk1 t = havedisk1 s" using assms(1) by (simp add: fs_frame_def)
  show "free_blocks t dv = free_blocks s dv" by (rule file_ok_cong [OF assms(2) f(2) h])
  show "file_step ip s t"
    using file_step_refl [OF assms(3)] f h file_ok_cong(1) [OF assms(2) f(2) h] by (simp add: file_step_def file_upd_def assms(2))
qed

text \<open>Allocation of a direct block, or of the indirect block itself.\<close>

lemma link_addr:
  fixes s :: "'a icache_scheme"
  assumes r: "file_ok s (inodes s ip)" and o: "opn c (Suc (Suc k)) s" and q: "q \<le> NDIRECT" "d_addrs (i_d (inodes s ip)) q = 0"
    and f: "free_blocks s (i_dev (inodes s ip)) \<noteq> {}"
  shows "\<exists>b t. balloc c (i_dev (inodes s ip)) s = Ok (b, t) \<and> b \<noteq> 0 \<and>
    (let t = upd_dinode ip (\<lambda>r. r\<lparr>d_addrs := (d_addrs r)(q := b)\<rparr>) t in opn c k t \<and> file_step ip s t \<and>
      d_addrs (i_d (inodes t ip)) = (d_addrs (i_d (inodes s ip)))(q := b) \<and>
      free_blocks t (i_dev (inodes s ip)) = free_blocks s (i_dev (inodes s ip)) - {b})"
proof -
  define r where "r = inodes s ip"
  define dv where "dv = i_dev r"
  have fo: "file_ok s r" using assms(1) by (simp add: r_def)
  note d = file_okD(1) [OF fo, folded dv_def]
  obtain b t where t: "balloc c dv s = Ok (b, t)" "b \<in> free_blocks s dv" "opn c k t" "fs_frame t = fs_frame s"
    "view t = (view s)((dv, sb_bmapstart (fs_sb s)) := set_used (unat b) (view s (dv, sb_bmapstart (fs_sb s))), (dv, b) := (\<lambda>_. 0))"
    using balloc_ok [OF o d] f by (auto simp: dv_def r_def)
  note u = balloc_used [OF d t(2,4,5)] and fr = fs_frame_icache [OF t(4)] and n = free_not_used [OF fo t(2) [unfolded dv_def]]
  let ?w = "upd_inode ip (\<lambda>r. r\<lparr>i_d := (i_d r)\<lparr>d_addrs := (d_addrs (i_d r))(q := b)\<rparr>\<rparr>) t"
  have w: "inodes ?w ip = r\<lparr>i_d := (i_d r)\<lparr>d_addrs := (d_addrs (i_d r))(q := b)\<rparr>\<rparr>" using fr by (simp add: r_def)
  have keep: "view t (dv, fblk (view s) r j) = view s (dv, fblk (view s) r j)" if "j \<le> MAXFILE" "fblk (view s) r j \<noteq> 0" for j
    using file_okD(5) [OF fo that] n(5) [OF that(1)] t(5) by simp
  let ?i = "if q = NDIRECT then MAXFILE else q"
  have i: "?i \<le> MAXFILE" "fblk (view s) r ?i = 0" using q by (auto simp: fblk_def MAXFILE_def r_def)
  have l: "fblk (view ?w) (inodes ?w ip) j = (if j = ?i then b else fblk (view s) r j)" if "j \<le> MAXFILE" for j
  proof (cases "j < NDIRECT \<or> j = MAXFILE")
    case True
    then show ?thesis unfolding w using q by (auto simp: fblk_def MAXFILE_def NINDIRECT_def BSIZE_def)
  next
    case False
    show ?thesis
    proof (cases "q = NDIRECT")
      case True
      then show ?thesis unfolding w using q False n(1) t(5) by (simp add: fblk_def r_def dv_def blk_rd32_def)
    next
      case ne: False
      have "d_addrs (i_d r) NDIRECT \<noteq> 0 \<Longrightarrow> view t (dv, d_addrs (i_d r) NDIRECT) = view s (dv, d_addrs (i_d r) NDIRECT)"
        using keep [of MAXFILE] by (simp add: fblk_def MAXFILE_def)
      then show ?thesis unfolding w using q False ne by (auto simp: fblk_def Let_def dv_def)
    qed
  qed
  have bw: "bused ?w dv a = bused t dv a" "disk_ok ?w dv" for a
    using u(2) by (simp_all add: bused_def disk_ok_def)
  have "file_ok ?w (inodes ?w ip)" "p < MAXFILE * BSIZE \<Longrightarrow> fbyte (view ?w) (inodes ?w ip) p = fbyte (view s) r p" for p
    by (rule link_slot [OF fo t(2) [unfolded dv_def] i _ _ _ l];
        use w fr u(1) bw t(5) keep in \<open>simp add: dv_def\<close>)+
  then have "file_step ip s ?w"
    using fr t(4) l i(2) by (auto simp: file_step_def file_upd_def r_def fs_frame_def)
  moreover have "free_blocks ?w dv = free_blocks t dv" by (simp add: free_blocks_def bw)
  ultimately show ?thesis
    using t(1,3) n(1) u(3) fr by (auto simp: upd_dinode_upd dv_def r_def)
qed

text \<open>Allocation of a block whose address goes into the indirect block, which is held meanwhile.\<close>

lemma link_entry:
  fixes s :: "'a icache_scheme"
  assumes r: "file_ok s (inodes s ip)" and a: "d_addrs (i_d (inodes s ip)) NDIRECT = a" "a \<noteq> 0"
    and o: "opn_with c [(i_dev (inodes s ip), a) \<mapsto> bp] (Suc (Suc (Suc k))) s"
    and j: "j < NINDIRECT" "blk_rd32 (view s (i_dev (inodes s ip), a)) (4 * j) = 0"
    and f: "free_blocks s (i_dev (inodes s ip)) \<noteq> {}"
  shows "\<exists>b t u w. balloc c (i_dev (inodes s ip)) s = Ok (b, t) \<and> b \<noteq> 0 \<and>
    log_write c bp (set_data bp (blk_wr32 (4 * j) b (b_data (bufs t bp))) t) = Ok u \<and> brelse c bp u = Ok w \<and> opn c k w \<and>
    file_step ip s w \<and> inodes w = inodes s \<and> fblk (view w) (inodes s ip) (NDIRECT + j) = b \<and>
    free_blocks w (i_dev (inodes s ip)) = free_blocks s (i_dev (inodes s ip)) - {b}"
proof -
  define r where "r = inodes s ip"
  define dv where "dv = i_dev r"
  have fo: "file_ok s r" and a': "d_addrs (i_d r) NDIRECT = a" using assms(1) a by (simp_all add: r_def)
  note d = file_okD(1) [OF fo, folded dv_def]
  have ia: "fblk (view s) r MAXFILE = a" using a' by (simp add: fblk_def MAXFILE_def)
  then have na: "a \<noteq> sb_bmapstart (fs_sb s)" "\<And>b. b \<in> free_blocks s dv \<Longrightarrow> b \<noteq> a"
    using file_okD(5) [OF fo, of MAXFILE] a(2) by (auto simp: free_blocks_def dv_def)
  obtain b t where t: "balloc c dv s = Ok (b, t)" "b \<in> free_blocks s dv" "opn_with c [(dv, a) \<mapsto> bp] (Suc k) t" "fs_frame t = fs_frame s"
    "view t = (view s)((dv, sb_bmapstart (fs_sb s)) := set_used (unat b) (view s (dv, sb_bmapstart (fs_sb s))), (dv, b) := (\<lambda>_. 0))"
    using balloc_ok [OF o [folded r_def, folded dv_def] d] f na by (auto simp: dv_def r_def)
  note n = free_not_used [OF fo t(2) [unfolded dv_def]]
  have va: "view t (dv, a) = view s (dv, a)" using t(5) na t(2) by auto
  have "held t (dv, a) = Some bp" using t(3) by (simp add: opn_with_def)
  then have da: "b_data (bufs t bp) = view s (dv, a)" using bc.dat_held va by metis
  let ?d = "blk_wr32 (4 * j) b (view s (dv, a))"
  have "\<exists>m. lg_n t = int m \<and> m + Suc k \<le> LOGSIZE \<and> int (m + Suc k) < lg_size t" using t(3) by (auto simp: opn_with_def)
  from log_release [where H = Map.empty and d = ?d, OF opn_mono [OF t(3)] _ this] obtain u w
    where w: "log_write c bp (set_data bp ?d t) = Ok u" "brelse c bp u = Ok w" "opn c k w" "fs_frame w = fs_frame t"
      "view w = (view t)((dv, a) := ?d)" by auto
  have fw: "fs_frame w = fs_frame s" using w(4) t(4) by simp
  note fr = fs_frame_icache [OF fw]
  note u = balloc_used [OF d t(2,4,5)]
  have bw: "bused w dv x = bused t dv x" if "x < sb_size (fs_sb s)" for x
    using small_block [OF d that] na(1) w(5) fs_frame_icache [OF t(4)] fr by (simp add: bused_def)
  have hw: "havedisk1 w = havedisk1 s" using fw by (simp add: fs_frame_def)
  have dw: "disk_ok w dv" using u(2) bw fr fs_frame_icache [OF t(4)] w(4) by (auto simp: disk_ok_def fs_frame_def)
  have l: "fblk (view w) r i = (if i = NDIRECT + j then b else fblk (view s) r i)" if "i \<le> MAXFILE" for i
  proof -
    have "blk_rd32 ?d (4 * m) = (if m = j then b else blk_rd32 (view s (dv, a)) (4 * m))" for m
      by (cases m j rule: linorder_cases) (simp_all add: blk_rd_wr blk_rd_wr_other)
    then show ?thesis using a' a(2) j(1) w(5) by (auto simp: fblk_def Let_def dv_def MAXFILE_def)
  qed
  have keep: "view w (dv, fblk (view s) r i) = view s (dv, fblk (view s) r i)" if "i < MAXFILE" "fblk (view s) r i \<noteq> 0" for i
  proof -
    have "fblk (view s) r i \<noteq> a" using file_okD(6) [OF fo, of i MAXFILE] that ia by auto
    then show ?thesis using file_okD(5) [OF fo, of i] n(5) [of i] that t(5) w(5) by simp
  qed
  have sl: "NDIRECT + j \<le> MAXFILE" "fblk (view s) r (NDIRECT + j) = 0" using j a' a(2) by (simp_all add: fblk_def Let_def MAXFILE_def r_def)
  have "file_ok w r" "p < MAXFILE * BSIZE \<Longrightarrow> fbyte (view w) r p = fbyte (view s) r p" for p
    by (rule link_slot [OF fo t(2) [unfolded dv_def] sl _ _ _ l];
        use fr u(1) bw dw t(5) w(5) keep na(2) [OF t(2)] in \<open>simp add: dv_def\<close>)+
  then have "file_step ip s w" using file_step_refl [OF assms(1)] fr hw l sl(2) by (auto simp: file_step_def file_upd_def r_def)
  moreover have "free_blocks w dv = free_blocks s dv - {b}"
    using u(3) bw fr fs_frame_icache [OF t(4)] by (auto simp: free_blocks_def)
  ultimately show ?thesis using t(1) w(1-3) da n(1) fr l [OF sl(1)] by (auto simp: r_def dv_def)
qed

text \<open>\<^verbatim>\<open>bmap\<close> for a slot that has a block: nothing but the cache changes, and no transaction is needed.\<close>

lemma mapped_blk:
  assumes "file_ok s r" and "i \<le> MAXFILE" and "fblk (view s) r i \<noteq> 0"
  shows "blk_ok s (i_dev r, fblk (view s) r i)"
  using disk_ok_blk [OF file_okD(1) [OF assms(1)]] file_okD(5) [OF assms] by blast

lemma bmap_mapped:
  fixes s :: "'a icache_scheme"
  assumes r: "file_ok s (inodes s ip)" and m: "calm c s" and n: "unat bn < MAXFILE"
    and a: "fblk (view s) (inodes s ip) (unat bn) \<noteq> 0"
  shows "\<exists>t. bmap c ip bn s = Ok (fblk (view s) (inodes s ip) (unat bn), t) \<and> calm c t \<and> fs_frame t = fs_frame s \<and> view t = view s \<and>
    (\<forall>k. opn c k s \<longrightarrow> opn c k t)"
proof (cases "unat bn < NDIRECT")
  case True
  then show ?thesis using m a by (simp add: bmap_def fblk_def Let_def)
next
  case False
  let ?r = "inodes s ip"
  let ?a = "d_addrs (i_d ?r) NDIRECT"
  have f: "?a \<noteq> 0" "fblk (view s) ?r (unat bn) = blk_rd32 (view s (i_dev ?r, ?a)) (4 * (unat bn - NDIRECT))"
    using False a n by (auto simp: fblk_def Let_def split: if_splits)
  have "blk_ok s (i_dev ?r, ?a)" using mapped_blk [OF r, of MAXFILE] f(1) by (simp add: fblk_def MAXFILE_def)
  then obtain b t u where "bread c (i_dev ?r) ?a s = Ok (b, t)" "fs_frame t = fs_frame s" "b_data (bufs t b) = view s (i_dev ?r, ?a)"
    "brelse c b t = Ok u" "calm c u" "fs_frame u = fs_frame s" "view u = view s" "\<forall>k. opn c k s \<longrightarrow> opn c k u"
    using read_release [OF m, of "i_dev ?r" ?a] by auto
  then show ?thesis using False n a f by (auto simp: bmap_def Let_def MAXFILE_def)
qed

lemma less_free: "card (free_blocks s dv) \<le> card (free_blocks s dv - {b}) + 1"
  using card_Suc_Diff1 [of "free_blocks s dv" b] by (cases "b \<in> free_blocks s dv") (auto simp: free_blocks_def)

text \<open>\<^verbatim>\<open>bmap\<close> in a transaction: it returns the block of the slot and allocates what is missing, at most two blocks.\<close>

lemma bmap_indirect:
  fixes s :: "'a icache_scheme"
  assumes r: "file_ok s (inodes s ip)" and o: "opn c (k + 6) s" and f: "2 \<le> card (free_blocks s (i_dev (inodes s ip)))"
  defines "addr \<equiv> d_addrs (i_d (inodes s ip)) NDIRECT"
  shows "\<exists>a t. (if addr = 0 then bnd (balloc c (i_dev (inodes s ip)) s) (\<lambda>(addr, s).
        Ok (addr, upd_dinode ip (\<lambda>r. r\<lparr>d_addrs := (d_addrs r)(NDIRECT := addr)\<rparr>) s)) else Ok (addr, s)) = Ok (a, t) \<and>
    a \<noteq> 0 \<and> opn c (k + 4) t \<and> file_step ip s t \<and> d_addrs (i_d (inodes t ip)) NDIRECT = a \<and>
    card (free_blocks s (i_dev (inodes s ip))) \<le> card (free_blocks t (i_dev (inodes s ip))) + 1"
proof (cases "addr = 0")
  case True
  let ?d = "i_dev (inodes s ip)"
  have "free_blocks s ?d \<noteq> {}" using f by auto
  moreover have "opn c (Suc (Suc (k + 4))) s" using o by (rule opn_mono) simp
  ultimately obtain b t where t: "balloc c ?d s = Ok (b, t)" "b \<noteq> 0" and w: "let t = upd_dinode ip (\<lambda>r. r\<lparr>d_addrs := (d_addrs r)(NDIRECT := b)\<rparr>) t in
      opn c (k + 4) t \<and> file_step ip s t \<and> d_addrs (i_d (inodes t ip)) = (d_addrs (i_d (inodes s ip)))(NDIRECT := b) \<and>
      free_blocks t ?d = free_blocks s ?d - {b}"
    using link_addr [OF r, of c "k + 4" NDIRECT] True by (auto simp: addr_def)
  then show ?thesis using w True less_free [of s ?d b] by (auto simp: Let_def)
qed (use assms(1) o in \<open>auto simp: addr_def intro: opn_mono file_step_refl\<close>)

lemma bmap_entry:
  fixes s :: "'a icache_scheme"
  assumes r: "file_ok s (inodes s ip)" and o: "opn c (k + 4) s" and a: "d_addrs (i_d (inodes s ip)) NDIRECT = a" "a \<noteq> 0"
    and j: "j < NINDIRECT" and f: "free_blocks s (i_dev (inodes s ip)) \<noteq> {}"
  shows "\<exists>b t. bnd (bread c (i_dev (inodes s ip)) a s) (\<lambda>(bp, s).
      let addr = blk_rd32 (b_data (bufs s bp)) (4 * j)
      in bnd (if addr = 0
           then bnd (balloc c (i_dev (inodes s ip)) s) (\<lambda>(addr, s).
             let s = set_data bp (blk_wr32 (4 * j) addr (b_data (bufs s bp))) s
             in bnd (log_write c bp s) (\<lambda>s. Ok (addr, s)))
           else Ok (addr, s)) (\<lambda>(addr, s).
         bnd (brelse c bp s) (\<lambda>s. Ok (addr, s)))) = Ok (b, t) \<and>
    b \<noteq> 0 \<and> b = fblk (view t) (inodes t ip) (NDIRECT + j) \<and> opn c k t \<and> file_step ip s t \<and>
    card (free_blocks s (i_dev (inodes s ip))) \<le> card (free_blocks t (i_dev (inodes s ip))) + 1"
proof -
  let ?d = "i_dev (inodes s ip)"
  have "blk_ok s (?d, a)" using mapped_blk [OF r, of MAXFILE] a by (simp add: fblk_def MAXFILE_def)
  then obtain bp s2 where s2: "bread c ?d a s = Ok (bp, s2)" "bready c s2" "bframe s2 = bframe s" "view s2 = view s" "held s2 = [(?d, a) \<mapsto> bp]"
    "dirtyset s2 = dirtyset s" "b_data (bufs s2 bp) = view s (?d, a)" "(?d, a) \<in> dirtyset s2 \<or> view s2 (?d, a) = disk s2 (dsec (?d, a))"
    using read_block [OF opn_calm [OF o], of ?d a] by auto
  note f2 = bframe_fs_frame [OF s2(3)]
  note i2 = fs_frame_icache [OF f2] and st2 = file_step_same [OF f2 s2(4) r]
  have "opn_with c [(?d, a) \<mapsto> bp] (k + 3) s2" by (rule opn_hold [OF opn_mono [OF o] s2(2,3)]) (use s2 in simp_all)
  then have o2: "opn_with c [(?d, a) \<mapsto> bp] (Suc (Suc (Suc k))) s2" by (simp add: eval_nat_numeral)
  have fb: "fblk v (inodes s ip) (NDIRECT + j) = blk_rd32 (v (?d, a)) (4 * j)" for v
    using a j by (simp add: fblk_def Let_def MAXFILE_def)
  show ?thesis
  proof (cases "blk_rd32 (view s (?d, a)) (4 * j) = 0")
    case True
    have fr: "free_blocks s2 ?d \<noteq> {}" using f st2(2) [of ?d] by auto
    obtain b t u w where w: "balloc c ?d s2 = Ok (b, t)" "b \<noteq> 0" "log_write c bp (set_data bp (blk_wr32 (4 * j) b (b_data (bufs t bp))) t) = Ok u"
      "brelse c bp u = Ok w" "opn c k w" "file_step ip s2 w" "inodes w = inodes s2" "fblk (view w) (inodes s2 ip) (NDIRECT + j) = b"
      "free_blocks w ?d = free_blocks s2 ?d - {b}"
      using link_entry [of s2 ip a c bp k j] file_stepD(2) [OF st2(1)] a i2 s2(4) o2 True fr j by auto
    then show ?thesis using s2(1,7) True file_step_trans [OF st2(1) w(6)] less_free [of s2 ?d b] st2(2) [of ?d]
      by (intro exI [of _ b] exI [of _ w]) (simp add: Let_def i2)
  next
    case nz: False
    obtain w where w: "brelse c bp s2 = Ok w" "bready c w" "bframe w = bframe s2" "view w = view s2" "held w = Map.empty" "dirtyset w = dirtyset s2"
      using release_block [of c s2 Map.empty ?d a bp] s2 by auto
    have fw: "fs_frame w = fs_frame s" using bframe_fs_frame [OF w(3)] f2 by simp
    have vw: "view w = view s" using w(4) s2(4) by simp
    have "opn c k w" using opn_read [OF opn_mono [OF o, of k], of w] w s2 o by (simp add: opn_with_def)
    then show ?thesis
      using s2(1,7) w(1) nz fb vw fs_frame_icache [OF fw] file_step_same [OF fw vw r] by (simp add: Let_def)
  qed
qed

lemma bmap_ok:
  fixes s :: "'a icache_scheme"
  assumes r: "file_ok s (inodes s ip)" and o: "opn c (k + 6) s" and n: "unat bn < MAXFILE"
    and f: "2 \<le> card (free_blocks s (i_dev (inodes s ip)))"
  shows "\<exists>a t. bmap c ip bn s = Ok (a, t) \<and> a \<noteq> 0 \<and> a = fblk (view t) (inodes t ip) (unat bn) \<and> opn c k t \<and> file_step ip s t \<and>
    card (free_blocks s (i_dev (inodes s ip))) \<le> card (free_blocks t (i_dev (inodes s ip))) + 2"
proof -
  let ?d = "i_dev (inodes s ip)"
  show ?thesis
  proof (cases "unat bn < NDIRECT")
    case True
    show ?thesis
    proof (cases "d_addrs (i_d (inodes s ip)) (unat bn) = 0")
      case z: True
      have "free_blocks s ?d \<noteq> {}" using f by auto
      moreover have "opn c (Suc (Suc k)) s" using o by (rule opn_mono) simp
      ultimately obtain b t where t: "balloc c ?d s = Ok (b, t)" "b \<noteq> 0"
        and w: "let t = upd_dinode ip (\<lambda>r. r\<lparr>d_addrs := (d_addrs r)(unat bn := b)\<rparr>) t in
          opn c k t \<and> file_step ip s t \<and> d_addrs (i_d (inodes t ip)) = (d_addrs (i_d (inodes s ip)))(unat bn := b) \<and>
          free_blocks t ?d = free_blocks s ?d - {b}"
        using link_addr [OF r, of c k "unat bn"] True z by auto
      then show ?thesis using True z less_free [of s ?d b] by (auto simp: bmap_def fblk_def Let_def)
    qed (use True r o in \<open>auto simp: bmap_def fblk_def Let_def intro: opn_mono file_step_refl\<close>)
  next
    case False
    then have j: "unat bn - NDIRECT < NINDIRECT" "NDIRECT + (unat bn - NDIRECT) = unat bn" using n by (auto simp: MAXFILE_def)
    obtain a s1 where a: "(if d_addrs (i_d (inodes s ip)) NDIRECT = 0 then bnd (balloc c ?d s) (\<lambda>(addr, s).
        Ok (addr, upd_dinode ip (\<lambda>r. r\<lparr>d_addrs := (d_addrs r)(NDIRECT := addr)\<rparr>) s)) else Ok (d_addrs (i_d (inodes s ip)) NDIRECT, s)) = Ok (a, s1)"
      and s1: "a \<noteq> 0" "opn c (k + 4) s1" "file_step ip s s1" "d_addrs (i_d (inodes s1 ip)) NDIRECT = a"
        "card (free_blocks s ?d) \<le> card (free_blocks s1 ?d) + 1"
      using bmap_indirect [OF r o f] by blast
    note g = file_stepD [OF s1(3)]
    have "free_blocks s1 ?d \<noteq> {}" using f s1(5) by auto
    then show ?thesis
      using bmap_entry [OF g(2) s1(2,4,1) j(1)] False j a g(1) s1(5) file_step_trans [OF s1(3)]
      by (fastforce simp: bmap_def Let_def)
  qed
qed

section \<open>Reading\<close>

lemma chunk_nat:
  assumes "tot < n"
  shows "unat (chunk n tot off) = min (unat n - unat tot) (BSIZE - unat off mod BSIZE)"
proof -
  have m: "unat (off mod 512) = unat off mod 512" using unat_mod [of off 512] by simp
  have "off mod 512 \<le> 512" unfolding word_le_nat_alt m using mod_less_divisor [of 512 "unat off"] by (simp add: less_imp_le)
  from unat_sub [OF this] have "unat (512 - off mod 512) = 512 - unat off mod 512" by (simp add: m)
  moreover have "unat (n - tot) = unat n - unat tot" using assms by (intro unat_sub) simp
  ultimately show ?thesis by (simp add: chunk_def BSIZE_def min_def word_le_nat_alt)
qed

text \<open>One round of the two loops stays in one block and advances both counters without wrap-around.\<close>

lemma round_facts:
  fixes off n tot :: uint32
  assumes lt: "tot < n" and le: "unat off + (unat n - unat tot) \<le> MAXFILE * BSIZE"
  defines "M \<equiv> unat (chunk n tot off)"
  shows "0 < M" "M \<le> unat n - unat tot" "unat (off + chunk n tot off) = unat off + M" "unat (tot + chunk n tot off) = unat tot + M"
    "unat (off div of_nat BSIZE) = unat off div BSIZE" "unat (off mod of_nat BSIZE) = unat off mod BSIZE" "unat off div BSIZE < MAXFILE"
    "i < M \<Longrightarrow> (unat off + i) div BSIZE = unat off div BSIZE \<and> (unat off + i) mod BSIZE = unat off mod BSIZE + i"
    "M = unat n - unat tot \<or> unat off + M = (unat off div BSIZE + 1) * BSIZE"
proof -
  have t: "unat tot < unat n" using lt by (simp add: word_less_nat_alt)
  have M: "M = min (unat n - unat tot) (BSIZE - unat off mod BSIZE)" unfolding M_def by (rule chunk_nat [OF lt])
  have mo: "unat off mod BSIZE < BSIZE" by (simp add: BSIZE_def)
  show "0 < M" "M \<le> unat n - unat tot" using M t mo by auto
  have b: "unat off + M < 2 ^ 32" "unat tot + M < 2 ^ 32"
    using le M t unsigned_less [of n, where 'a = nat] by (auto simp: MAXFILE_def NDIRECT_def NINDIRECT_def BSIZE_def)
  show "unat (off + chunk n tot off) = unat off + M" "unat (tot + chunk n tot off) = unat tot + M"
    using b by (simp_all add: unat_word_ariths M_def)
  show "unat (off div of_nat BSIZE) = unat off div BSIZE" "unat (off mod of_nat BSIZE) = unat off mod BSIZE"
    using unat_div [of off 512] unat_mod [of off 512] by (simp_all add: BSIZE_def)
  show "unat off div BSIZE < MAXFILE" using le t by (intro less_mult_imp_div_less) simp
  show "(unat off + i) div BSIZE = unat off div BSIZE \<and> (unat off + i) mod BSIZE = unat off mod BSIZE + i" if "i < M"
  proof -
    have "unat off mod BSIZE + i < BSIZE" using that M mo by linarith
    moreover have "unat off + i = BSIZE * (unat off div BSIZE) + (unat off mod BSIZE + i)" by simp
    ultimately show ?thesis by (metis div_mult_self4 mod_mult_self4 div_less mod_less add.right_neutral add.commute mult.commute less_nat_zero_code)
  qed
  have "unat off div BSIZE * BSIZE + unat off mod BSIZE = unat off" "(unat off div BSIZE + 1) * BSIZE = unat off div BSIZE * BSIZE + BSIZE"
    by simp_all
  then show "M = unat n - unat tot \<or> unat off + M = (unat off div BSIZE + 1) * BSIZE"
    using M mo unfolding min_def by (metis (no_types, lifting) add.assoc le_add_diff_inverse less_imp_le)
qed

lemma upt_chunk: "m \<le> r \<Longrightarrow> [a..<a + r] = [a..<a + m] @ [a + m..<a + m + (r - m)]"
  using upt_add_eq_append [of a "a + m" "r - m"] by simp

lemma readi_loop_ok:
  fixes s :: "'a icache_scheme"
  assumes "file_ok s (inodes s ip)" and "calm c s" and "tot \<le> n" and "unat off + (unat n - unat tot) \<le> MAXFILE * BSIZE"
    and "unat n - unat tot < k"
    and "\<And>p. unat off \<le> p \<Longrightarrow> p < unat off + (unat n - unat tot) \<Longrightarrow> fblk (view s) (inodes s ip) (p div BSIZE) \<noteq> 0"
  shows "\<exists>t. readi_loop k c ip off n tot out s =
      Ok (out @ map (fbyte (view s) (inodes s ip)) [unat off..<unat off + (unat n - unat tot)], t) \<and>
    calm c t \<and> fs_frame t = fs_frame s \<and> view t = view s"
  using assms
proof (induction k arbitrary: off tot out s)
  case (Suc k)
  show ?case
  proof (cases "tot < n")
    case True
    note R = round_facts [OF True Suc.prems(4)]
    let ?r = "inodes s ip"
    let ?m = "chunk n tot off"
    let ?M = "unat ?m"
    have "fblk (view s) ?r (unat off div BSIZE) \<noteq> 0" using Suc.prems(6) [of "unat off"] R(1,2) by simp
    then obtain a s1 where a: "a = fblk (view s) ?r (unat off div BSIZE)" "a \<noteq> 0" "bmap c ip (off div of_nat BSIZE) s = Ok (a, s1)"
      "calm c s1" "fs_frame s1 = fs_frame s" "view s1 = view s"
      using bmap_mapped [OF Suc.prems(1,2), of "off div of_nat BSIZE"] R(5,7) by auto
    have "blk_ok s1 (i_dev ?r, a)" using mapped_blk [OF Suc.prems(1), of "unat off div BSIZE"] a R(7) fs_frame_ok [OF a(5)] by simp
    then obtain bp s2 s3 where s2: "bread c (i_dev ?r) a s1 = Ok (bp, s2)" "b_data (bufs s2 bp) = view s (i_dev ?r, a)"
      "brelse c bp s2 = Ok s3" "calm c s3" "fs_frame s3 = fs_frame s" "view s3 = view s"
      using read_release [OF a(4), of "i_dev ?r" a] a(5,6) by auto
    note i3 = fs_frame_icache [OF s2(5)]
    have sl: "slice (view s (i_dev ?r, a)) (unat off mod BSIZE) ?M = map (fbyte (view s) ?r) [unat off..<unat off + ?M]"
      using R(8) a(1,2) by (auto simp: slice_def fbyte_def Let_def intro!: nth_equalityI)
    have le: "tot + ?m \<le> n" using R(2,4) True by (simp add: word_le_nat_alt word_less_nat_alt)
    have rest: "unat n - unat (tot + ?m) = unat n - unat tot - ?M" unfolding R(4) by simp
    have ok: "file_ok s3 (inodes s3 ip)" using file_stepD(2) [OF file_step_same(1) [OF s2(5,6) Suc.prems(1)]] .
    have split: "[unat off..<unat off + (unat n - unat tot)] =
      [unat off..<unat off + ?M] @ [unat off + ?M..<unat off + ?M + (unat n - unat tot - ?M)]"
      using R(2) by (rule upt_chunk)
    have "\<exists>t. readi_loop k c ip (off + ?m) n (tot + ?m) (out @ map (fbyte (view s) ?r) [unat off..<unat off + ?M]) s3 =
      Ok ((out @ map (fbyte (view s) ?r) [unat off..<unat off + ?M]) @
        map (fbyte (view s3) (inodes s3 ip)) [unat (off + ?m)..<unat (off + ?m) + (unat n - unat (tot + ?m))], t) \<and>
      calm c t \<and> fs_frame t = fs_frame s3 \<and> view t = view s3"
      by (rule Suc.IH [OF ok s2(4) le]) (use Suc.prems(4-6) R(1-3) s2(6) i3 rest in auto)
    then show ?thesis using True a(3) s2 R(3,6) sl rest split i3 fs_frame_icache(1) [OF a(5)] by (auto simp: Let_def)
  qed (use Suc.prems in \<open>auto simp: word_le_nat_alt word_less_nat_alt\<close>)
qed simp

section \<open>Writing\<close>

text \<open>A write to a block that is neither the bitmap nor the indirect block of the file.\<close>

lemma other_block:
  fixes s t :: "'a icache_scheme"
  assumes r: "file_ok s r" and v: "view t = (view s)((i_dev r, x) := d)" and f: "fs_sb t = fs_sb s" "havedisk1 t = havedisk1 s"
    and x: "x \<noteq> sb_bmapstart (fs_sb s)" "x = fblk (view s) r MAXFILE \<longrightarrow> x = 0"
    and q: "i_dev q = i_dev r" "i_inum q = i_inum r" "d_addrs (i_d q) = d_addrs (i_d r)"
  shows "\<And>i. i \<le> MAXFILE \<Longrightarrow> fblk (view t) q i = fblk (view s) r i" "file_ok t q" "free_blocks t (i_dev r) = free_blocks s (i_dev r)"
    "p < MAXFILE * BSIZE \<Longrightarrow> fbyte (view t) q p = (if x \<noteq> 0 \<and> fblk (view s) r (p div BSIZE) = x then d (p mod BSIZE) else fbyte (view s) r p)"
proof -
  note o = file_okD [OF r]
  have x3: "x = d_addrs (i_d r) NDIRECT \<Longrightarrow> x = 0" using x(2) by (simp add: fblk_def MAXFILE_def)
  show b: "fblk (view t) q i = fblk (view s) r i" if "i \<le> MAXFILE" for i
    using x3 by (auto simp: fblk_def Let_def q v)
  have u: "bused t (i_dev r) a = bused s (i_dev r) a" if "a < sb_size (fs_sb s)" for a
    using small_block(2) [OF o(1) that] x(1) by (auto simp: bused_def f v)
  have "disk_ok t (i_dev r)" using o(1) u by (auto simp: disk_ok_def f)
  then show "file_ok t q" using r b u o(3) by (auto simp: file_ok_def q f)
  show "free_blocks t (i_dev r) = free_blocks s (i_dev r)" using u by (auto simp: free_blocks_def f)
  show "fbyte (view t) q p = (if x \<noteq> 0 \<and> fblk (view s) r (p div BSIZE) = x then d (p mod BSIZE) else fbyte (view s) r p)" if "p < MAXFILE * BSIZE"
  proof -
    have "p div BSIZE \<le> MAXFILE" using that less_mult_imp_div_less [of p MAXFILE BSIZE] by simp
    then show ?thesis using b by (auto simp: fbyte_def Let_def q v)
  qed
qed

text \<open>The number of blocks that \<open>m\<close> bytes from an offset touch. Each costs at most seven log entries: up to two
  allocations of two entries each, the indirect block, and the block itself.\<close>

definition nblk :: "nat \<Rightarrow> nat \<Rightarrow> nat" where
  "nblk off m = (if m = 0 then 0 else (off + m - 1) div BSIZE - off div BSIZE + 1)"

lemma nblk_round:
  assumes "0 < M" and "M \<le> m" and "M = m \<or> off + M = (off div BSIZE + 1) * BSIZE"
  shows "nblk off m \<ge> nblk (off + M) (m - M) + 1"
proof (cases "M = m")
  case False
  then have o: "off + M = (off div BSIZE + 1) * BSIZE" and m: "0 < m - M" using assms by auto
  have "(off + M) div BSIZE = off div BSIZE + 1" unfolding o by (simp add: BSIZE_def del: mult_Suc)
  moreover have "off + M + (m - M) - 1 = off + m - 1" using assms(2) by simp
  moreover have "(off + M) div BSIZE \<le> (off + m - 1) div BSIZE" using m by (intro div_le_mono) simp
  ultimately show ?thesis unfolding nblk_def using m assms(1,2) by simp
qed (use assms in \<open>simp add: nblk_def\<close>)

text \<open>One round of the write loop.\<close>

lemma in_round:
  fixes p off M :: nat
  assumes "\<And>i. i < M \<Longrightarrow> (off + i) div BSIZE = off div BSIZE \<and> (off + i) mod BSIZE = off mod BSIZE + i"
  shows "off \<le> p \<and> p < off + M \<longleftrightarrow> p div BSIZE = off div BSIZE \<and> off mod BSIZE \<le> p mod BSIZE \<and> p mod BSIZE < off mod BSIZE + M"
    and "off \<le> p \<Longrightarrow> p div BSIZE = off div BSIZE \<Longrightarrow> p mod BSIZE - off mod BSIZE = p - off"
proof -
  have e: "p = p div BSIZE * BSIZE + p mod BSIZE" "off = off div BSIZE * BSIZE + off mod BSIZE" by simp_all
  show "off \<le> p \<and> p < off + M \<longleftrightarrow> p div BSIZE = off div BSIZE \<and> off mod BSIZE \<le> p mod BSIZE \<and> p mod BSIZE < off mod BSIZE + M"
  proof
    assume "off \<le> p \<and> p < off + M"
    then show "p div BSIZE = off div BSIZE \<and> off mod BSIZE \<le> p mod BSIZE \<and> p mod BSIZE < off mod BSIZE + M"
      using assms [of "p - off"] by auto
  next
    assume "p div BSIZE = off div BSIZE \<and> off mod BSIZE \<le> p mod BSIZE \<and> p mod BSIZE < off mod BSIZE + M"
    then show "off \<le> p \<and> p < off + M" by (metis e add.assoc add_le_cancel_left add_less_cancel_left)
  qed
  assume "off \<le> p" "p div BSIZE = off div BSIZE"
  then show "p mod BSIZE - off mod BSIZE = p - off" by (metis e diff_cancel)
qed

lemma write_round:
  fixes s :: "'a icache_scheme"
  assumes r: "file_ok s (inodes s ip)" and o: "opn c (k + 7) s" and n: "tot < n" "unat off + (unat n - unat tot) \<le> MAXFILE * BSIZE"
    and f: "2 \<le> card (free_blocks s (i_dev (inodes s ip)))" and src: "unat n - unat tot \<le> length src"
  defines "M \<equiv> unat (chunk n tot off)"
  shows "\<exists>a s1 bp s2 u t. bmap c ip (off div of_nat BSIZE) s = Ok (a, s1) \<and> bread c (i_dev (inodes s1 ip)) a s1 = Ok (bp, s2) \<and>
    log_write c bp (set_data bp (splice (unat (off mod of_nat BSIZE)) (take M src) (b_data (bufs s2 bp))) s2) = Ok u \<and> brelse c bp u = Ok t \<and>
    opn c k t \<and> file_upd ip s t \<and> fblk (view t) (inodes t ip) (unat off div BSIZE) \<noteq> 0 \<and>
    card (free_blocks s (i_dev (inodes s ip))) \<le> card (free_blocks t (i_dev (inodes s ip))) + 2 \<and>
    (\<forall>p<MAXFILE * BSIZE. fbyte (view t) (inodes t ip) p =
      (if unat off \<le> p \<and> p < unat off + M then src ! (p - unat off) else fbyte (view s) (inodes s ip) p))"
proof -
  note R = round_facts [OF n, folded M_def]
  let ?d = "i_dev (inodes s ip)" and ?j = "unat off div BSIZE"
  have "opn c (Suc k + 6) s" using o by (rule opn_mono) simp
  from bmap_ok [OF r this _ f, of "off div of_nat BSIZE"] obtain a s1 where a: "bmap c ip (off div of_nat BSIZE) s = Ok (a, s1)" "a \<noteq> 0"
    "a = fblk (view s1) (inodes s1 ip) ?j" "opn c (Suc k) s1" "file_step ip s s1" "card (free_blocks s ?d) \<le> card (free_blocks s1 ?d) + 2"
    using R(5,7) by auto
  note g = file_stepD [OF a(5)]
  note ok = file_okD [OF g(2)]
  have j: "?j \<le> MAXFILE" "?j \<noteq> MAXFILE" using R(7) by auto
  have "blk_ok s1 (?d, a)" using mapped_blk [OF g(2) j(1)] a(2,3) g(1) by simp
  let ?new = "splice (unat off mod BSIZE) (take M src) (view s1 (?d, a))"
  obtain bp s2 u t where t: "bread c ?d a s1 = Ok (bp, s2)" "b_data (bufs s2 bp) = view s1 (?d, a)" "log_write c bp (set_data bp ?new s2) = Ok u"
    "brelse c bp u = Ok t" "opn c k t" "fs_frame t = fs_frame s1" "view t = (view s1)((?d, a) := ?new)"
    using update_block [OF a(4) \<open>blk_ok s1 (?d, a)\<close>, of ?new] by auto
  note it = fs_frame_icache [OF t(6)]
  have ht: "havedisk1 t = havedisk1 s1" using t(6) by (simp add: fs_frame_def)
  have x: "a \<noteq> sb_bmapstart (fs_sb s1)" "a \<noteq> fblk (view s1) (inodes s1 ip) MAXFILE"
    using ok(5) [OF j(1)] ok(6) [OF j(1), of MAXFILE] a(2,3) j(2) by auto
  have x2: "a = fblk (view s1) (inodes s1 ip) MAXFILE \<longrightarrow> a = 0" using x(2) by simp
  note W = other_block [OF g(2) t(7) [folded g(1)] it(2) ht x(1) x2 refl refl refl]
  have "file_upd ip s1 t" using file_upd_refl [OF g(2)] it ht W(1,2) by (simp add: file_upd_def)
  then have up: "file_upd ip s t" by (rule file_upd_trans [OF g(3)])
  have val: "fbyte (view t) (inodes t ip) p = (if unat off \<le> p \<and> p < unat off + M then src ! (p - unat off) else fbyte (view s) (inodes s ip) p)"
    if p: "p < MAXFILE * BSIZE" for p
  proof -
    have pj: "p div BSIZE \<le> MAXFILE" using less_mult_imp_div_less [OF p] by simp
    have e: "fblk (view s1) (inodes s1 ip) (p div BSIZE) = a \<longleftrightarrow> p div BSIZE = ?j" using ok(6) [OF pj j(1)] a(2,3) by auto
    have old: "p div BSIZE = ?j \<Longrightarrow> view s1 (?d, a) (p mod BSIZE) = fbyte (view s1) (inodes s1 ip) p"
      using a(2,3) g(1) by (simp add: fbyte_def)
    have len: "length (take M src) = M" using R(2) src by simp
    show ?thesis
    proof (cases "p div BSIZE = ?j")
      case True
      note I = in_round [where p = p and off = "unat off" and M = M, OF R(8)]
      have "fbyte (view t) (inodes t ip) p = ?new (p mod BSIZE)" using W(4) [OF p] e True it(1) g(1) a(2) by simp
      also have "\<dots> = (if unat off \<le> p \<and> p < unat off + M then src ! (p - unat off) else view s1 (?d, a) (p mod BSIZE))"
        using I True len by (auto simp: splice_def)
      finally show ?thesis using old [OF True] g(4) [OF p] by simp
    next
      case False
      then have "\<not> (unat off \<le> p \<and> p < unat off + M)" using in_round(1) [where p = p and off = "unat off", OF R(8)] by simp
      then show ?thesis using W(4) [OF p] e False it(1) g(4) [OF p] by auto
    qed
  qed
  have "card (free_blocks s ?d) \<le> card (free_blocks t ?d) + 2" using a(6) W(3) g(1) by simp
  moreover have "fblk (view t) (inodes t ip) ?j \<noteq> 0" using W(1) [OF j(1)] a(2,3) it(1) by simp
  ultimately show ?thesis using a(1) t g(1) R(6) up val by (intro exI [of _ a] exI [of _ s1] exI [of _ bp] exI [of _ s2] exI [of _ u] exI [of _ t]) simp
qed

lemma writei_loop_ok:
  fixes s :: "'a icache_scheme"
  assumes "file_ok s (inodes s ip)" and "opn c (k + 7 * nblk (unat off) (unat n - unat tot)) s" and "tot \<le> n"
    and "unat off + (unat n - unat tot) \<le> MAXFILE * BSIZE" and "unat n - unat tot < fuel"
    and "2 * nblk (unat off) (unat n - unat tot) \<le> card (free_blocks s (i_dev (inodes s ip)))" and "length src = unat n - unat tot"
  shows "\<exists>off' t. writei_loop fuel c ip src off n tot s = Ok (off', t) \<and> unat off' = unat off + length src \<and>
    opn c k t \<and> file_upd ip s t \<and> (\<forall>p. unat off \<le> p \<and> p < unat off + length src \<longrightarrow> fblk (view t) (inodes t ip) (p div BSIZE) \<noteq> 0) \<and>
    (\<forall>p<MAXFILE * BSIZE. fbyte (view t) (inodes t ip) p =
      (if unat off \<le> p \<and> p < unat off + length src then src ! (p - unat off) else fbyte (view s) (inodes s ip) p))"
  using assms
proof (induction fuel arbitrary: off tot src s)
  case (Suc fuel)
  show ?case
  proof (cases "tot < n")
    case True
    note R = round_facts [OF True Suc.prems(4)]
    let ?m = "chunk n tot off" and ?d = "i_dev (inodes s ip)"
    let ?M = "unat ?m"
    have rest: "unat n - unat (tot + ?m) = unat n - unat tot - ?M" unfolding R(4) by simp
    have fu: "unat n - unat (tot + ?m) < fuel" unfolding rest using Suc.prems(5) R(1,2) by linarith
    have nb: "nblk (unat (off + ?m)) (unat n - unat (tot + ?m)) + 1 \<le> nblk (unat off) (unat n - unat tot)"
      unfolding rest R(3) using nblk_round [OF R(1,2,9)] by simp
    let ?k = "k + 7 * nblk (unat (off + ?m)) (unat n - unat (tot + ?m))"
    have o: "opn c (?k + 7) s" using Suc.prems(2) by (rule opn_mono) (use nb in linarith)
    have f: "2 \<le> card (free_blocks s ?d)" using Suc.prems(6) nb by linarith
    have src: "unat n - unat tot \<le> length src" using Suc.prems(7) by simp
    obtain a s1 bp s2 u t where t: "bmap c ip (off div of_nat BSIZE) s = Ok (a, s1)" "bread c (i_dev (inodes s1 ip)) a s1 = Ok (bp, s2)"
      "log_write c bp (set_data bp (splice (unat (off mod of_nat BSIZE)) (take ?M src) (b_data (bufs s2 bp))) s2) = Ok u" "brelse c bp u = Ok t"
      "opn c ?k t" "file_upd ip s t" "fblk (view t) (inodes t ip) (unat off div BSIZE) \<noteq> 0" "card (free_blocks s ?d) \<le> card (free_blocks t ?d) + 2"
      "\<And>p. p < MAXFILE * BSIZE \<Longrightarrow> fbyte (view t) (inodes t ip) p =
        (if unat off \<le> p \<and> p < unat off + ?M then src ! (p - unat off) else fbyte (view s) (inodes s ip) p)"
      using write_round [OF Suc.prems(1) o True Suc.prems(4) f src] by metis
    note g = file_updD [OF t(6)]
    have le: "tot + ?m \<le> n" using R(2,4) True by (simp add: word_le_nat_alt word_less_nat_alt)
    have "\<exists>off' w. writei_loop fuel c ip (drop ?M src) (off + ?m) n (tot + ?m) t = Ok (off', w) \<and>
      unat off' = unat (off + ?m) + length (drop ?M src) \<and> opn c k w \<and> file_upd ip t w \<and>
      (\<forall>p. unat (off + ?m) \<le> p \<and> p < unat (off + ?m) + length (drop ?M src) \<longrightarrow> fblk (view w) (inodes w ip) (p div BSIZE) \<noteq> 0) \<and>
      (\<forall>p<MAXFILE * BSIZE. fbyte (view w) (inodes w ip) p =
        (if unat (off + ?m) \<le> p \<and> p < unat (off + ?m) + length (drop ?M src) then drop ?M src ! (p - unat (off + ?m)) else fbyte (view t) (inodes t ip) p))"
      by (rule Suc.IH [OF g(7) t(5) le _ fu]) (use Suc.prems(4,6,7) R(1-3) rest g(1) t(8) nb in \<open>simp_all\<close>)
    then obtain off' w where w: "writei_loop fuel c ip (drop ?M src) (off + ?m) n (tot + ?m) t = Ok (off', w)"
      "unat off' = unat off + length src" "opn c k w" "file_upd ip t w"
      "\<And>p. unat off + ?M \<le> p \<Longrightarrow> p < unat off + length src \<Longrightarrow> fblk (view w) (inodes w ip) (p div BSIZE) \<noteq> 0"
      "\<And>p. p < MAXFILE * BSIZE \<Longrightarrow> fbyte (view w) (inodes w ip) p =
        (if unat off + ?M \<le> p \<and> p < unat off + length src then src ! (p - unat off) else fbyte (view t) (inodes t ip) p)"
      using R(2,3) Suc.prems(7) by (auto simp: add.assoc)
    have run: "writei_loop (Suc fuel) c ip src off n tot s = Ok (off', w)" using True t(1-4) w(1) by (simp add: Let_def)
    have map: "fblk (view w) (inodes w ip) (p div BSIZE) \<noteq> 0" if p: "unat off \<le> p" "p < unat off + length src" for p
    proof (cases "p < unat off + ?M")
      case True
      then have "p div BSIZE = unat off div BSIZE" using in_round(1) [where p = p and off = "unat off", OF R(8)] p by simp
      then show ?thesis using file_updD(10) [OF w(4), of "p div BSIZE"] t(7) R(7) by simp
    qed (use w(5) p in simp)
    have "fbyte (view w) (inodes w ip) p = (if unat off \<le> p \<and> p < unat off + length src then src ! (p - unat off) else fbyte (view s) (inodes s ip) p)"
      if "p < MAXFILE * BSIZE" for p
      using w(6) [OF that] t(9) [OF that] R(2) Suc.prems(7) by auto
    then show ?thesis using run w(2,3) file_upd_trans [OF t(6) w(4)] map by blast
  next
    case False
    then show ?thesis using Suc.prems opn_mono [OF Suc.prems(2), of k] by (auto simp: word_less_nat_alt intro: file_upd_refl)
  qed
qed simp

section \<open>Files\<close>

text \<open>A file without holes.\<close>

definition file_full :: "'a icache_scheme \<Rightarrow> inode \<Rightarrow> bool" where
  "file_full s r \<longleftrightarrow> unat (d_size (i_d r)) \<le> MAXFILE * BSIZE \<and> (\<forall>p<unat (d_size (i_d r)). fblk (view s) r (p div BSIZE) \<noteq> 0)"

lemma MAXBYTES: "MAXFILE * BSIZE = 70656"
  by (simp add: MAXFILE_def NDIRECT_def NINDIRECT_def BSIZE_def)

lemma sint_small:
  fixes w :: uint32
  assumes "unat w < 2 ^ 31"
  shows "sint w = int (unat w)"
proof -
  have "unat w < 2147483648" using assms by simp
  then have "int (unat w) < 2147483648" by linarith
  then have u: "- 2147483648 \<le> uint w" "uint w < 2147483648" using uint_ge_0 [of w] by (linarith, simp)
  have "sint w = signed_take_bit 31 (uint w)" by (simp add: sint_uint)
  also have "\<dots> = uint w" by (rule signed_take_bit_int_eq_self) (use u in simp_all)
  finally show ?thesis by simp
qed

lemma readi_range:
  fixes s :: "'a conss_scheme"
  assumes r: "file_ok s (inodes s ip)" "unat (d_size (i_d (inodes s ip))) \<le> MAXFILE * BSIZE" and m: "calm c s"
    and ty: "d_type (i_d (inodes s ip)) \<noteq> T_DEV" and o: "off \<le> d_size (i_d (inodes s ip))" and n: "unat off + unat n < 2 ^ 32"
    and full: "\<And>p. unat off \<le> p \<Longrightarrow> p < unat off + min (unat n) (unat (d_size (i_d (inodes s ip))) - unat off) \<Longrightarrow>
      fblk (view s) (inodes s ip) (p div BSIZE) \<noteq> 0"
  defines "M \<equiv> min (unat n) (unat (d_size (i_d (inodes s ip))) - unat off)"
  shows "\<exists>t. readi c ip off n s = Ok (int M, map (fbyte (view s) (inodes s ip)) [unat off..<unat off + M], t) \<and> calm c t \<and> view t = view s"
proof -
  let ?r = "inodes s ip" and ?z = "d_size (i_d (inodes s ip))"
  define n' where "n' = (if off + n > ?z then ?z - off else n)"
  have sum: "unat (off + n) = unat off + unat n" using n by (simp add: unat_word_ariths)
  have z: "unat ?z \<le> 70656" "unat off \<le> unat ?z" using r(2) o by (simp_all add: MAXBYTES word_le_nat_alt)
  have M: "unat n' = M"
    unfolding n'_def M_def using sum z unat_sub [OF o] by (auto simp: word_less_nat_alt)
  have sM: "sint n' = int M" unfolding M [symmetric] using M z by (intro sint_small) (simp add: M_def)
  have lt: "unat off + (unat n' - unat (0 :: uint32)) \<le> MAXFILE * BSIZE" unfolding M MAXBYTES using z by (simp add: M_def)
  have "\<exists>t. readi_loop (unat n' + 1) c ip off n' 0 [] s =
      Ok ([] @ map (fbyte (view s) ?r) [unat off..<unat off + (unat n' - unat (0 :: uint32))], t) \<and> calm c t \<and> fs_frame t = fs_frame s \<and> view t = view s"
    by (rule readi_loop_ok [OF r(1) m _ lt]) (use full M in \<open>auto simp: M_def\<close>)
  moreover have "\<not> off + n < off" using sum by (simp add: word_less_nat_alt)
  ultimately show ?thesis using ty o M sM by (auto simp: readi_def Let_def n'_def)
qed

lemma readi_ok:
  fixes s :: "'a conss_scheme"
  assumes r: "file_ok s (inodes s ip)" "file_full s (inodes s ip)" and m: "calm c s" and ty: "d_type (i_d (inodes s ip)) \<noteq> T_DEV"
    and o: "off \<le> d_size (i_d (inodes s ip))" and n: "unat off + unat n < 2 ^ 32"
  defines "M \<equiv> min (unat n) (unat (d_size (i_d (inodes s ip))) - unat off)"
  shows "\<exists>t. readi c ip off n s = Ok (int M, map (fbyte (view s) (inodes s ip)) [unat off..<unat off + M], t) \<and> calm c t \<and> view t = view s"
  unfolding M_def by (rule readi_range [OF r(1) _ m ty o n]) (use r(2) o in \<open>auto simp: file_full_def word_le_nat_alt\<close>)

text \<open>Recording a larger size: the inode's block is none of the file's, so the content stays.\<close>

lemma grow_ok:
  fixes s :: "'a icache_scheme"
  assumes r: "file_ok s (inodes s ip)" and o: "opn c (Suc k) s"
  shows "\<exists>t. iupdate c ip (upd_dinode ip (\<lambda>r. r\<lparr>d_size := z\<rparr>) s) = Ok t \<and> opn c k t \<and> file_ok t (inodes t ip) \<and>
    i_d (inodes t ip) = (i_d (inodes s ip))\<lparr>d_size := z\<rparr> \<and> (\<forall>i\<le>MAXFILE. fblk (view t) (inodes t ip) i = fblk (view s) (inodes s ip) i) \<and>
    (\<forall>p<MAXFILE * BSIZE. fbyte (view t) (inodes t ip) p = fbyte (view s) (inodes s ip) p)"
proof -
  let ?r = "inodes s ip" and ?w = "upd_inode ip (\<lambda>r. r\<lparr>i_d := (i_d r)\<lparr>d_size := z\<rparr>\<rparr>) s"
  let ?k = "iblk ?w (i_dev ?r) (i_inum ?r)" and ?b = "IBLOCK (i_inum ?r) (fs_sb s)"
  have "blk_ok ?w ?k" using disk_ok_blk [OF file_okD(1) [OF r]] file_okD(3) [OF r] by (simp add: iblk_def)
  then obtain x d where x: "iupdate c ip ?w = Ok x" "opn c k x" "fs_frame x = fs_frame ?w" "view x = (view s)(?k := d)"
    using iupdate_ok [of c k ?w ip] o by (auto simp: iblk_def)
  note fx = fs_frame_icache [OF x(3)]
  have hx: "havedisk1 x = havedisk1 s" using x(3) by (simp add: fs_frame_def)
  have ne: "?b \<noteq> sb_bmapstart (fs_sb s)" "?b = fblk (view s) ?r i \<Longrightarrow> i \<le> MAXFILE \<Longrightarrow> ?b = 0" for i
    using file_okD(2) [OF r] file_okD(5) [OF r, of i] by auto
  have ne3: "?b = fblk (view s) ?r MAXFILE \<longrightarrow> ?b = 0" using ne(2) by blast
  have vx: "view x = (view s)((i_dev ?r, ?b) := d)" and sx: "fs_sb x = fs_sb s" using x(4) fx(2) by (simp_all add: iblk_def)
  have q: "i_dev (inodes x ip) = i_dev ?r" "i_inum (inodes x ip) = i_inum ?r" "d_addrs (i_d (inodes x ip)) = d_addrs (i_d ?r)"
    "i_d (inodes x ip) = (i_d ?r)\<lparr>d_size := z\<rparr>" using fx(1) by simp_all
  note X = other_block [OF r vx sx hx ne(1) ne3 q(1-3)]
  have "fbyte (view x) (inodes x ip) p = fbyte (view s) ?r p" if "p < MAXFILE * BSIZE" for p
    using X(4) [OF that] ne(2) [of "p div BSIZE"] less_mult_imp_div_less [OF that] by auto
  then show ?thesis using x(1,2) X(1,2) q(4) by (simp add: upd_dinode_upd)
qed

lemma writei_ok:
  fixes s :: "'a conss_scheme"
  assumes r: "file_ok s (inodes s ip)" "file_full s (inodes s ip)" and ty: "d_type (i_d (inodes s ip)) \<noteq> T_DEV"
    and o: "off \<le> d_size (i_d (inodes s ip))" and n: "unat off + length src \<le> MAXFILE * BSIZE"
    and t: "opn c (Suc (k + 7 * nblk (unat off) (length src))) s"
    and f: "2 * nblk (unat off) (length src) \<le> card (free_blocks s (i_dev (inodes s ip)))"
  shows "\<exists>t. writei c ip src off s = Ok (int (length src), t) \<and> opn c k t \<and> file_ok t (inodes t ip) \<and> file_full t (inodes t ip) \<and>
    d_type (i_d (inodes t ip)) \<noteq> T_DEV \<and> unat (d_size (i_d (inodes t ip))) = max (unat (d_size (i_d (inodes s ip)))) (unat off + length src) \<and>
    (\<forall>p<MAXFILE * BSIZE. fbyte (view t) (inodes t ip) p =
      (if unat off \<le> p \<and> p < unat off + length src then src ! (p - unat off) else fbyte (view s) (inodes s ip) p))"
proof -
  let ?n = "of_nat (length src) :: uint32" and ?z = "d_size (i_d (inodes s ip))"
  have un: "unat ?n = length src" using n by (simp add: MAXBYTES unat_of_nat)
  have sn: "sint ?n = int (length src)" using sint_small [of ?n] n un by (simp add: MAXBYTES)
  have sum: "unat (off + ?n) = unat off + length src" using n un by (simp add: unat_word_ariths MAXBYTES)
  have k: "opn c (Suc k + 7 * nblk (unat off) (unat ?n - unat (0 :: uint32))) s" using t un by simp
  have "\<exists>off' t. writei_loop (unat ?n + 1) c ip src off ?n 0 s = Ok (off', t) \<and> unat off' = unat off + length src \<and>
    opn c (Suc k) t \<and> file_upd ip s t \<and> (\<forall>p. unat off \<le> p \<and> p < unat off + length src \<longrightarrow> fblk (view t) (inodes t ip) (p div BSIZE) \<noteq> 0) \<and>
    (\<forall>p<MAXFILE * BSIZE. fbyte (view t) (inodes t ip) p =
      (if unat off \<le> p \<and> p < unat off + length src then src ! (p - unat off) else fbyte (view s) (inodes s ip) p))"
    by (rule writei_loop_ok [OF r(1) k]) (use un n f in \<open>simp_all\<close>)
  then obtain off' w where w: "writei_loop (unat ?n + 1) c ip src off ?n 0 s = Ok (off', w)" "unat off' = unat off + length src"
    "opn c (Suc k) w" "file_upd ip s w" "\<And>p. unat off \<le> p \<Longrightarrow> p < unat off + length src \<Longrightarrow> fblk (view w) (inodes w ip) (p div BSIZE) \<noteq> 0"
    "\<And>p. p < MAXFILE * BSIZE \<Longrightarrow> fbyte (view w) (inodes w ip) p =
      (if unat off \<le> p \<and> p < unat off + length src then src ! (p - unat off) else fbyte (view s) (inodes s ip) p)" by blast
  note g = file_updD [OF w(4)]
  have zz: "unat off \<le> unat ?z" "unat ?z \<le> MAXFILE * BSIZE" using o r(2) by (simp_all add: word_le_nat_alt file_full_def)
  have mapped: "fblk (view w) (inodes w ip) (p div BSIZE) \<noteq> 0" if "p < max (unat ?z) (unat off + length src)" for p
  proof (cases "p < unat ?z")
    case True
    then have "fblk (view s) (inodes s ip) (p div BSIZE) \<noteq> 0" "p div BSIZE < MAXFILE"
      using r(2) zz(2) less_mult_imp_div_less [of p MAXFILE BSIZE] by (simp_all add: file_full_def)
    then show ?thesis using g(10) [of "p div BSIZE"] by simp
  qed (use w(5) [of p] that zz(1) in auto)
  have run: "writei c ip src off s = bnd (if ?n > 0 \<and> off' > ?z then iupdate c ip (upd_dinode ip (\<lambda>r. r\<lparr>d_size := off'\<rparr>) w) else Ok w)
      (\<lambda>s. Ok (int (length src), s))"
    using ty o w(1) sum n g(3) sn un unfolding writei_def Let_def by (simp add: word_less_nat_alt word_le_nat_alt MAXBYTES)
  show ?thesis
  proof (cases "?n > 0 \<and> off' > ?z")
    case False
    then have "unat off + length src \<le> unat ?z" using w(2) un zz(1) by (auto simp: word_less_nat_alt)
    then show ?thesis using run False w(3,6) g(3,4,7) ty mapped zz(2) opn_mono [OF w(3), of k]
      by (auto simp: file_full_def max_absorb1)
  next
    case True
    then have gt: "unat ?z < unat off + length src" using w(2) by (simp add: word_less_nat_alt)
    obtain x where x: "iupdate c ip (upd_dinode ip (\<lambda>r. r\<lparr>d_size := off'\<rparr>) w) = Ok x" "opn c k x" "file_ok x (inodes x ip)"
      "i_d (inodes x ip) = (i_d (inodes w ip))\<lparr>d_size := off'\<rparr>"
      "\<And>i. i \<le> MAXFILE \<Longrightarrow> fblk (view x) (inodes x ip) i = fblk (view w) (inodes w ip) i"
      "\<And>p. p < MAXFILE * BSIZE \<Longrightarrow> fbyte (view x) (inodes x ip) p = fbyte (view w) (inodes w ip) p"
      using grow_ok [OF g(7) w(3), of off'] by blast
    have "fblk (view x) (inodes x ip) (p div BSIZE) \<noteq> 0" if "p < unat off + length src" for p
      using x(5) [of "p div BSIZE"] mapped [of p] that n less_mult_imp_div_less [of p MAXFILE BSIZE] by simp
    then have "file_full x (inodes x ip)" using n w(2) x(4) by (simp add: file_full_def)
    then show ?thesis using run True x g(4) ty w(2,6) gt by auto
  qed
qed

section \<open>Properties\<close>

text \<open>C3: a file holds what was written to it. Writing bytes at an offset within a consistent file, inside a
  transaction and with enough free blocks, succeeds, allocates the direct and indirect blocks that are missing, keeps the file
  consistent and grows it when needed; every later read, of any range, returns the new bytes where they were
  written and the old bytes elsewhere, cut at the end of the file.\<close>

theorem write_then_read:
  fixes s :: "'a conss_scheme"
  assumes "file_ok s (inodes s ip)" and "file_full s (inodes s ip)" and "d_type (i_d (inodes s ip)) \<noteq> T_DEV"
    and "off \<le> d_size (i_d (inodes s ip))" and "unat off + length src \<le> MAXFILE * BSIZE"
    and "opn c (Suc (k + 7 * nblk (unat off) (length src))) s"
    and "2 * nblk (unat off) (length src) \<le> card (free_blocks s (i_dev (inodes s ip)))"
  defines "z \<equiv> max (unat (d_size (i_d (inodes s ip)))) (unat off + length src)"
    and "new \<equiv> \<lambda>p. if unat off \<le> p \<and> p < unat off + length src then src ! (p - unat off) else fbyte (view s) (inodes s ip) p"
  shows "\<exists>t. writei c ip src off s = Ok (int (length src), t) \<and> file_ok t (inodes t ip) \<and> file_full t (inodes t ip) \<and> opn c k t \<and>
    (\<forall>q m. unat q \<le> z \<and> unat q + unat m < 2 ^ 32 \<longrightarrow>
      (\<exists>u. readi c ip q m t = Ok (int (min (unat m) (z - unat q)), map new [unat q..<unat q + min (unat m) (z - unat q)], u)))"
proof -
  obtain t where t: "writei c ip src off s = Ok (int (length src), t)" "opn c k t" "file_ok t (inodes t ip)" "file_full t (inodes t ip)"
    "d_type (i_d (inodes t ip)) \<noteq> T_DEV" "unat (d_size (i_d (inodes t ip))) = z"
    "\<And>p. p < MAXFILE * BSIZE \<Longrightarrow> fbyte (view t) (inodes t ip) p = new p"
    using writei_ok [OF assms(1-7)] unfolding z_def new_def by blast
  have z: "z \<le> MAXFILE * BSIZE" using t(4,6) by (simp add: file_full_def)
  have "\<exists>u. readi c ip q m t = Ok (int (min (unat m) (z - unat q)), map new [unat q..<unat q + min (unat m) (z - unat q)], u)"
    if "unat q \<le> z" "unat q + unat m < 2 ^ 32" for q m
  proof -
    have "map (fbyte (view t) (inodes t ip)) [unat q..<unat q + min (unat m) (z - unat q)] = map new [unat q..<unat q + min (unat m) (z - unat q)]"
      by (rule map_cong [OF refl]) (use t(7) z that(1) in auto)
    then show ?thesis
      using readi_ok [OF t(3,4) opn_calm [OF t(2)] t(5), of q m] that t(6) by (auto simp: word_le_nat_alt)
  qed
  then show ?thesis using t(1-4) by blast
qed

section \<open>Witnesses\<close>

text \<open>A disk whose bitmap, in block 58, marks the first 64 blocks, and a cache with one empty file.\<close>

definition demo_inode :: inode where
  "demo_inode = \<lparr>i_dev = 1, i_inum = 1, i_ref = 1, i_busy = True, i_valid = True, i_d = zero_dinode\<lparr>d_type := T_FILE, d_nlink := 1\<rparr>\<rparr>"

definition demo_fs :: conss where
  "demo_fs = binit (demo_cons\<lparr>bufs := (\<lambda>_. zero_buf), idequeue := None,
     disk := (\<lambda>k. if k = (1, 58) then (\<lambda>i. if i < 8 then 255 else 0) else (\<lambda>_. 0)),
     inodes := (\<lambda>_. blank_inode)(0 := demo_inode),
     fs_sb := \<lparr>sb_size = 2000, sb_nblocks = 1941, sb_ninodes = 200, sb_nlog = 30, sb_logstart = 2, sb_inodestart = 32, sb_bmapstart = 58\<rparr>\<rparr>)"

lemma demo_fs_sel:
  "inodes demo_fs = (\<lambda>_. blank_inode)(0 := demo_inode)" "sb_size (fs_sb demo_fs) = 2000" "sb_inodestart (fs_sb demo_fs) = 32"
  "sb_bmapstart (fs_sb demo_fs) = 58" "havedisk1 demo_fs" "k < 30 \<Longrightarrow> opn 0 k demo_fs" "calm 0 demo_fs"
  "view demo_fs = (\<lambda>k. if k = (1, 58) then (\<lambda>i. if i < 8 then 255 else 0) else (\<lambda>_. 0))"
proof -
  define s0 where "s0 = demo_cons\<lparr>bufs := (\<lambda>_. zero_buf), idequeue := None,
     disk := (\<lambda>k. if k = (1, 58) then (\<lambda>i. if i < 8 then 255 else 0) else (\<lambda>_. 0)),
     inodes := (\<lambda>_. blank_inode)(0 := demo_inode),
     fs_sb := \<lparr>sb_size = 2000, sb_nblocks = 1941, sb_ninodes = 200, sb_nlog = 30, sb_logstart = 2, sb_inodestart = 32, sb_bmapstart = 58\<rparr>\<rparr>"
  have f: "demo_fs = binit s0" by (simp add: demo_fs_def s0_def)
  have "env 0 {} s0 = env 0 {} demo_cons" by (rule env_more) (simp_all add: s0_def)
  then have "boot_ok 0 s0" using demo_cons_env by (simp add: boot_ok_def s0_def)
  note i = binit_ok [OF this, folded f]
  note fr = bframe_fs_frame [OF i(6)]
  note ic = fs_frame_icache [OF fr] and lg = bframe_lg [OF i(6)]
  have s0: "havedisk1 s0" "lg_n s0 = 0" "lg_size s0 = 30" "lg_outstanding s0 = 1"
    using demo_start_ok by (simp_all add: s0_def demo_cons_def demo_icache_def logst.defs icache.defs)
  show "inodes demo_fs = (\<lambda>_. blank_inode)(0 := demo_inode)" "sb_size (fs_sb demo_fs) = 2000" "sb_inodestart (fs_sb demo_fs) = 32"
    "sb_bmapstart (fs_sb demo_fs) = 58" using ic by (simp_all add: s0_def)
  show "havedisk1 demo_fs" using fr s0(1) by (simp add: fs_frame_def)
  have e: "held demo_fs = Map.empty" "dirtyset demo_fs = {}" using i(3) by (simp_all add: held_def [abs_def] dirtyset_def)
  show o: "opn 0 k demo_fs" if "k < 30" for k
    using that i(1) e lg s0 by (simp add: opn_with_def NBUF_def LOGSIZE_def MAXOPBLOCKS_def)
  show "calm 0 demo_fs" by (rule opn_calm [OF o [of 0]]) simp
  have "disk demo_fs = (\<lambda>k. if k = (1, 58) then (\<lambda>i. if i < 8 then 255 else 0) else (\<lambda>_. 0))" unfolding i(4) by (simp add: s0_def)
  moreover have "dsec (a, b) = (1, 58) \<longleftrightarrow> a = 1 \<and> b = 58" for a b using dsec_inj [of "(a, b)" "(1, 58)"] by (auto simp: dsec_def)
  ultimately have "view demo_fs (a, b) = (if (a, b) = (1, 58) then (\<lambda>i. if i < 8 then 255 else 0) else (\<lambda>_. 0))" for a b
    by (simp add: view_def dblk_def i(3))
  then show "view demo_fs = (\<lambda>k. if k = (1, 58) then (\<lambda>i. if i < 8 then 255 else 0) else (\<lambda>_. 0))" by (simp add: fun_eq_iff)
qed

lemma demo_fs_file: "file_ok demo_fs demo_inode" "file_full demo_fs demo_inode" "2 \<le> card (free_blocks demo_fs 1)"
proof -
  note d = demo_fs_sel
  have b: "BBLOCK b (fs_sb demo_fs) = 58" if "b < 2000" for b
  proof -
    have "b div 4096 = 0" using that unat_div [of b 4096] by (simp add: word_less_nat_alt word_unat_eq_iff)
    then show ?thesis by (simp add: BBLOCK_def BPB_def BSIZE_def d(4))
  qed
  have u: "bused demo_fs 1 0" "bused demo_fs 1 58" "bused demo_fs 1 32" "\<not> bused demo_fs 1 100" "\<not> bused demo_fs 1 101"
    unfolding bused_def by (simp_all add: b d(8) bit_used_def BPB_def BSIZE_def)
  have f: "fblk v demo_inode i = 0" for v i by (simp add: fblk_def demo_inode_def zero_dinode_def)
  have "disk_ok demo_fs 1" using u by (simp add: disk_ok_def d FSSIZE_def)
  then show "file_ok demo_fs demo_inode" using u by (simp add: file_ok_def f d IBLOCK_def IPB_def BSIZE_def) (simp add: demo_inode_def)
  show "file_full demo_fs demo_inode" by (simp add: file_full_def demo_inode_def zero_dinode_def)
  have "{100, 101} \<subseteq> free_blocks demo_fs 1" using u by (simp add: free_blocks_def d)
  then show "2 \<le> card (free_blocks demo_fs 1)" using card_mono [of "free_blocks demo_fs 1" "{100, 101}"] by (simp add: free_blocks_def)
qed

theorem write_then_read_witness:
  "\<exists>t u. writei 0 0 [104, 105] 0 demo_fs = Ok (2, t) \<and> readi 0 0 0 9 t = Ok (2, [104, 105], u)"
proof -
  have ip: "inodes demo_fs 0 = demo_inode" by (simp add: demo_fs_sel)
  have n: "nblk (unat (0 :: uint32)) (length [104 :: uchar, 105]) = 1" by (simp add: nblk_def BSIZE_def)
  have o: "opn 0 (Suc (0 + 7 * nblk (unat (0 :: uint32)) (length [104 :: uchar, 105]))) demo_fs" unfolding n by (rule demo_fs_sel(6)) simp
  have d: "i_dev demo_inode = 1" "d_type (i_d demo_inode) \<noteq> T_DEV" "d_size (i_d demo_inode) = 0"
    by (simp_all add: demo_inode_def zero_dinode_def T_FILE_def T_DEV_def)
  have f: "2 * nblk (unat (0 :: uint32)) (length [104 :: uchar, 105]) \<le> card (free_blocks demo_fs (i_dev (inodes demo_fs 0)))"
    unfolding n using demo_fs_file(3) d(1) ip by simp
  show ?thesis
    using write_then_read [where s = demo_fs and ip = 0 and off = 0 and src = "[104, 105]", OF _ _ _ _ _ o f] demo_fs_file(1,2) d ip
    by (simp add: MAXBYTES) (elim exE conjE, drule spec [of _ 0], drule spec [of _ 9], force simp: upt_rec)
qed


theorem updated_inode_is_read_back_witness:
  "\<exists>t u jp v w. iupdate 0 0 demo_fs = Ok t \<and> iunlockput 0 0 t = Ok u \<and> iget 0 1 1 u = Ok (jp, v) \<and> ilock 0 (Some jp) v = Ok w \<and>
    d_type (i_d (inodes w jp)) = T_FILE"
proof -
  have "icinv demo_fs" by (simp add: icinv_def demo_fs_sel blank_inode_def demo_inode_def)
  moreover have "inodes demo_fs 0 = demo_inode" by (simp add: demo_fs_sel)
  moreover have "blk_ok demo_fs (iblk demo_fs (i_dev demo_inode) (i_inum demo_inode))"
    by (simp add: blk_ok_def iblk_def IBLOCK_def IPB_def BSIZE_def demo_inode_def demo_fs_sel FSSIZE_def)
  moreover have "d_type (i_d demo_inode) = T_FILE" by (simp add: demo_inode_def)
  ultimately show ?thesis using updated_inode_is_read_back [of 0 0 demo_fs 0 demo_inode] demo_fs_sel(6) [of 1]
    by (fastforce simp: demo_inode_def NINODE_def dinode_ok_def zero_dinode_def T_FILE_def)
qed

end
