(* ===== verification/Mkfs.thy ===== *)
theory Mkfs
  imports Fs
begin

text \<open>
  \<^verbatim>\<open>src/mkfs.c\<close>, the host tool that writes the first file system image: the sectors of the image file and the two
  counters of what is allocated. The host's file functions succeed on the image; of a file to be copied the model
  has its name and the pieces that the successive calls of \<^verbatim>\<open>read\<close> return, or that it cannot be opened. A failed assertion and
  a call of \<^verbatim>\<open>exit(1)\<close> end the tool (\<open>Panic\<close>). The messages it prints are left out.
\<close>

record mkfs =
  img :: "uint32 \<Rightarrow> block"
  freeinode :: uint32
  freeblock :: uint32

abbreviation NINODES :: nat where "NINODES \<equiv> 200"
abbreviation nbitmap :: nat where "nbitmap \<equiv> unat FSSIZE div (BSIZE * 8) + 1"
abbreviation ninodeblocks :: nat where "ninodeblocks \<equiv> NINODES div IPB + 1"
abbreviation nlog :: nat where "nlog \<equiv> LOGSIZE"
abbreviation nmeta :: nat where "nmeta \<equiv> 2 + nlog + ninodeblocks + nbitmap"

text \<open>Intel byte order, on a host that has it.\<close>

definition xshort :: "ushort \<Rightarrow> ushort" where
  "xshort x = blk_rd16 (blk_wr16 0 x (\<lambda>_. 0)) 0"

definition xint :: "uint32 \<Rightarrow> uint32" where
  "xint x = blk_rd32 (blk_wr32 0 x (\<lambda>_. 0)) 0"

definition mk_sb :: superblock where
  "mk_sb = \<lparr>sb_size = xint FSSIZE, sb_nblocks = xint (FSSIZE - of_nat nmeta), sb_ninodes = xint (of_nat NINODES),
     sb_nlog = xint (of_nat nlog), sb_logstart = xint 2, sb_inodestart = xint (of_nat (2 + nlog)),
     sb_bmapstart = xint (of_nat (2 + nlog + ninodeblocks))\<rparr>"

definition sb_block :: "superblock \<Rightarrow> block" where
  "sb_block b = blk_wr32 24 (sb_bmapstart b) (blk_wr32 20 (sb_inodestart b) (blk_wr32 16 (sb_logstart b)
     (blk_wr32 12 (sb_nlog b) (blk_wr32 8 (sb_ninodes b) (blk_wr32 4 (sb_nblocks b) (blk_wr32 0 (sb_size b) (\<lambda>_. 0)))))))"

definition wsect :: "uint32 \<Rightarrow> block \<Rightarrow> mkfs \<Rightarrow> mkfs" where
  "wsect sec buf s = s\<lparr>img := (img s)(sec := buf)\<rparr>"

definition rsect :: "uint32 \<Rightarrow> mkfs \<Rightarrow> block" where
  "rsect sec s = img s sec"

definition winode :: "uint32 \<Rightarrow> dinode \<Rightarrow> mkfs \<Rightarrow> mkfs" where
  "winode inum ip s =
     (let bn = IBLOCK inum mk_sb in wsect bn (dip_put (64 * (unat inum mod IPB)) ip (rsect bn s)) s)"

definition rinode :: "uint32 \<Rightarrow> mkfs \<Rightarrow> dinode" where
  "rinode inum s = dip_get (rsect (IBLOCK inum mk_sb) s) (64 * (unat inum mod IPB))"

text \<open>\<^verbatim>\<open>FILE_UID\<close> and \<^verbatim>\<open>FILE_GID\<close> are 0, and \<^verbatim>\<open>FILE_MODE\<close> is octal 755.\<close>

definition mk_ialloc :: "ushort \<Rightarrow> mkfs \<Rightarrow> uint32 \<times> mkfs" where
  "mk_ialloc ty s =
     (let inum = freeinode s;
          din = zero_dinode\<lparr>d_type := xshort ty, d_nlink := xshort 1, d_uid := 0, d_gid := 0, d_mode := 493, d_size := xint 0\<rparr>
      in (inum, winode inum din (s\<lparr>freeinode := freeinode s + 1\<rparr>)))"

fun mark_used :: "nat \<Rightarrow> block" where
  "mark_used 0 = (\<lambda>_. 0)"
| "mark_used (Suc i) = set_used i (mark_used i)"

definition mk_balloc :: "uint32 \<Rightarrow> mkfs \<Rightarrow> mkfs outcome" where
  "mk_balloc used s =
     (if sint used < int (BSIZE * 8) then Ok (wsect (sb_bmapstart mk_sb) (mark_used (nat (sint used))) s)
      else Panic ''assert'')"

text \<open>The block for slot \<open>fbn\<close> of an inode, allocated when there is none.\<close>

definition mk_addr :: "nat \<Rightarrow> dinode \<Rightarrow> mkfs \<Rightarrow> dinode \<times> mkfs" where
  "mk_addr i din s =
     (if xint (d_addrs din i) = 0
      then (din\<lparr>d_addrs := (d_addrs din)(i := xint (freeblock s))\<rparr>, s\<lparr>freeblock := freeblock s + 1\<rparr>)
      else (din, s))"

definition mk_block :: "nat \<Rightarrow> dinode \<Rightarrow> mkfs \<Rightarrow> uint32 \<times> dinode \<times> mkfs" where
  "mk_block fbn din s =
     (if fbn < NDIRECT
      then let (din, s) = mk_addr fbn din s in (xint (d_addrs din fbn), din, s)
      else
        let (din, s) = mk_addr NDIRECT din s;
            indirect = rsect (xint (d_addrs din NDIRECT)) s;
            i = 4 * (fbn - NDIRECT)
        in if blk_rd32 indirect i = 0
           then
             let indirect = blk_wr32 i (xint (freeblock s)) indirect
             in (xint (blk_rd32 indirect i), din, wsect (xint (d_addrs din NDIRECT)) indirect (s\<lparr>freeblock := freeblock s + 1\<rparr>))
           else (xint (blk_rd32 indirect i), din, s))"

text \<open>The loop of \<^verbatim>\<open>iappend\<close> over the bytes that are left; each round takes at least one.\<close>

fun iappend_loop :: "nat \<Rightarrow> uchar list \<Rightarrow> uint32 \<Rightarrow> dinode \<Rightarrow> mkfs \<Rightarrow> (uint32 \<times> dinode \<times> mkfs) outcome" where
  "iappend_loop 0 p off din s = Spin"
| "iappend_loop (Suc k) p off din s =
     (if p = [] then Ok (off, din, s)
      else
        let fbn = off div of_nat BSIZE
        in if unat fbn \<ge> MAXFILE then Panic ''assert''
           else
             let (x, din, s) = mk_block (unat fbn) din s;
                 n1 = min (of_nat (length p)) ((fbn + 1) * of_nat BSIZE - off);
                 buf = splice (unat (off - fbn * of_nat BSIZE)) (take (unat n1) p) (rsect x s)
             in iappend_loop k (drop (unat n1) p) (off + n1) din (wsect x buf s))"

definition iappend :: "uint32 \<Rightarrow> uchar list \<Rightarrow> mkfs \<Rightarrow> mkfs outcome" where
  "iappend inum p s =
     (let din = rinode inum s
      in bnd (iappend_loop (length p + 1) p (xint (d_size din)) din s) (\<lambda>(off, din, s).
         Ok (winode inum (din\<lparr>d_size := xint off\<rparr>) s)))"

text \<open>A directory entry: the number and the name, cut or filled with zeros to \<^verbatim>\<open>DIRSIZ\<close> bytes.\<close>

definition mk_dirent :: "uint32 \<Rightarrow> uchar list \<Rightarrow> uchar list" where
  "mk_dirent inum name =
     dirent_bytes \<lparr>de_inum = xshort (ucast inum), de_name = take DIRSIZ (name @ replicate DIRSIZ 0)\<rparr>"

type_synonym hostfile = "uchar list \<times> uchar list list option"

definition add_file :: "hostfile \<Rightarrow> mkfs \<Rightarrow> mkfs outcome" where
  "add_file f s =
     (let (name, rd) = f
      in if 47 \<in> set name then Panic ''assert''
         else
           case rd of
             None \<Rightarrow> Panic ''exit''
           | Some pieces \<Rightarrow>
               let name = (case name of ch # cs \<Rightarrow> if ch = 95 then cs else name | [] \<Rightarrow> name);
                   (inum, s) = mk_ialloc T_FILE s
               in bnd (iappend ROOTINO (mk_dirent inum name) s) (for_each (iappend inum) (takeWhile (\<lambda>b. b \<noteq> []) pieces)))"

definition main_mkfs :: "bool option \<Rightarrow> hostfile list \<Rightarrow> mkfs outcome" where
  "main_mkfs opened args =
     (if opened \<noteq> Some True then Panic ''exit''
      else
        let s = \<lparr>img = (\<lambda>_ _. 0), freeinode = 1, freeblock = of_nat nmeta\<rparr>;
            s = fold (\<lambda>i. wsect (of_nat i) (\<lambda>_. 0)) [0..<unat FSSIZE] s;
            s = wsect 1 (sb_block mk_sb) s;
            (rootino, s) = mk_ialloc T_DIR s
        in if rootino \<noteq> ROOTINO then Panic ''assert''
           else
             bnd (iappend rootino (mk_dirent rootino [46]) s) (\<lambda>s.
             bnd (iappend rootino (mk_dirent rootino [46, 46]) s) (\<lambda>s.
             bnd (for_each add_file args s) (\<lambda>s.
             let din = rinode rootino s;
                 off = (xint (d_size din) div of_nat BSIZE + 1) * of_nat BSIZE
             in mk_balloc (freeblock s) (winode rootino (din\<lparr>d_size := xint off\<rparr>) s)))))"

lemma xint_id [simp]: "xint x = x"
  by (simp add: xint_def blk_rd_wr)

end
