(* ===== verification/Vm.thy ===== *)
theory Vm
  imports Kalloc
begin

text \<open>
  Two-level page tables in memory: \<^verbatim>\<open>src/vm.c\<close>. Page directories and page tables are pages of the
  byte-addressed memory, their entries 32-bit words. Returned pointers are addresses, 0 the null pointer.
  A loop over pages is bounded by the \<open>2 ^ 20\<close> pages of the address space, which no run exceeds: the
  address steps by a page, and the loops stop at a limit below \<^verbatim>\<open>KERNBASE\<close> or (in \<^verbatim>\<open>mappages\<close>) when the
  address has come to the last page. \<^verbatim>\<open>cprintf\<close> messages are not part of the state.
\<close>

section \<open>Definitions\<close>

definition EXTMEM :: uint32 where "EXTMEM = 0x100000"
definition DEVSPACE :: uint32 where "DEVSPACE = 0xFE000000"
definition KERNLINK :: uint32 where "KERNLINK = KERNBASE + EXTMEM"

definition PTE_P :: uint32 where "PTE_P = 1"
definition PTE_W :: uint32 where "PTE_W = 2"
definition PTE_U :: uint32 where "PTE_U = 4"

definition PDX :: "uint32 \<Rightarrow> uint32" where "PDX va = drop_bit 22 va AND 0x3FF"
definition PTX :: "uint32 \<Rightarrow> uint32" where "PTX va = drop_bit 12 va AND 0x3FF"
definition PTE_ADDR :: "uint32 \<Rightarrow> uint32" where "PTE_ADDR pte = pte AND NOT 0xFFF"
definition PTE_FLAGS :: "uint32 \<Rightarrow> uint32" where "PTE_FLAGS pte = pte AND 0xFFF"

definition NPAGES :: nat where "NPAGES = 1048576"

definition ld :: "uint32 \<Rightarrow> 'a kmem_scheme \<Rightarrow> uint32" where "ld a s = ld32 a (mem s)"

definition st :: "uint32 \<Rightarrow> uint32 \<Rightarrow> 'a kmem_scheme \<Rightarrow> 'a kmem_scheme" where
  "st a w s = s\<lparr>mem := st32 a w (mem s)\<rparr>"

definition walkpgdir :: "nat \<Rightarrow> uint32 \<Rightarrow> uint32 \<Rightarrow> bool \<Rightarrow> 'a kmem_scheme \<Rightarrow> (uint32 \<times> 'a kmem_scheme) outcome" where
  "walkpgdir c pgdir va alloc s =
     (let pde = pgdir + 4 * PDX va
      in if ld pde s AND PTE_P \<noteq> 0 then Ok (p2v (PTE_ADDR (ld pde s)) + 4 * PTX va, s)
         else if \<not> alloc then Ok (0, s)
         else bnd (kalloc c s) (\<lambda>(pgtab, s).
           if pgtab = 0 then Ok (0, s)
           else
             let s = s\<lparr>mem := memset pgtab 0 PGSIZE (mem s)\<rparr>;
                 s = st pde (v2p pgtab OR PTE_P OR PTE_W OR PTE_U) s
             in Ok (pgtab + 4 * PTX va, s)))"

fun mappages_loop :: "nat \<Rightarrow> nat \<Rightarrow> uint32 \<Rightarrow> uint32 \<Rightarrow> uint32 \<Rightarrow> uint32 \<Rightarrow> uint32 \<Rightarrow> 'a kmem_scheme \<Rightarrow>
    (int \<times> 'a kmem_scheme) outcome" where
  "mappages_loop 0 c pgdir a lst pa perm s = Spin"
| "mappages_loop (Suc n) c pgdir a lst pa perm s =
     bnd (walkpgdir c pgdir a True s) (\<lambda>(pte, s).
     if pte = 0 then Ok (-1, s)
     else if ld pte s AND PTE_P \<noteq> 0 then Panic ''remap''
     else
       let s = st pte (pa OR perm OR PTE_P) s
       in if a = lst then Ok (0, s)
          else mappages_loop n c pgdir (a + PGSIZE) lst (pa + PGSIZE) perm s)"

definition mappages :: "nat \<Rightarrow> uint32 \<Rightarrow> uint32 \<Rightarrow> uint32 \<Rightarrow> uint32 \<Rightarrow> uint32 \<Rightarrow> 'a kmem_scheme \<Rightarrow>
    (int \<times> 'a kmem_scheme) outcome" where
  "mappages c pgdir va sz pa perm s =
     mappages_loop NPAGES c pgdir (PGROUNDDOWN va) (PGROUNDDOWN (va + sz - 1)) pa perm s"

text \<open>The table \<^verbatim>\<open>kmap\<close>: virtual address, physical start and end, permissions.\<close>

definition kmap :: "'a kmem_scheme \<Rightarrow> (uint32 \<times> uint32 \<times> uint32 \<times> uint32) list" where
  "kmap s =
     [(KERNBASE, 0, EXTMEM, PTE_W),
      (KERNLINK, v2p KERNLINK, v2p (kdata s), 0),
      (kdata s, v2p (kdata s), PHYSTOP, PTE_W),
      (DEVSPACE, DEVSPACE, 0, PTE_W)]"

fun setupkvm_loop :: "nat \<Rightarrow> uint32 \<Rightarrow> (uint32 \<times> uint32 \<times> uint32 \<times> uint32) list \<Rightarrow> 'a kmem_scheme \<Rightarrow>
    (uint32 \<times> 'a kmem_scheme) outcome" where
  "setupkvm_loop c pgdir [] s = Ok (pgdir, s)"
| "setupkvm_loop c pgdir ((virt, ps, pe, perm) # ks) s =
     bnd (mappages c pgdir virt (pe - ps) ps perm s) (\<lambda>(r, s).
     if r < 0 then Ok (0, s) else setupkvm_loop c pgdir ks s)"

definition setupkvm :: "nat \<Rightarrow> 'a kmem_scheme \<Rightarrow> (uint32 \<times> 'a kmem_scheme) outcome" where
  "setupkvm c s =
     bnd (kalloc c s) (\<lambda>(pgdir, s).
     if pgdir = 0 then Ok (0, s)
     else
       let s = s\<lparr>mem := memset pgdir 0 PGSIZE (mem s)\<rparr>
       in if p2v PHYSTOP > DEVSPACE then Panic ''PHYSTOP too high''
          else setupkvm_loop c pgdir (kmap s) s)"

definition kvmalloc :: "nat \<Rightarrow> 'a kmem_scheme \<Rightarrow> 'a kmem_scheme outcome" where
  "kvmalloc c s = bnd (setupkvm c s) (\<lambda>(d, s). Ok (switchkvm c (s\<lparr>kpgdir := d\<rparr>)))"

definition inituvm :: "nat \<Rightarrow> uint32 \<Rightarrow> uint32 \<Rightarrow> uint32 \<Rightarrow> 'a kmem_scheme \<Rightarrow> 'a kmem_scheme outcome" where
  "inituvm c pgdir init sz s =
     (if PGSIZE \<le> sz then Panic ''inituvm: more than a page''
      else
        bnd (kalloc c s) (\<lambda>(m, s).
        let s = s\<lparr>mem := memset m 0 PGSIZE (mem s)\<rparr>
        in bnd (mappages c pgdir 0 PGSIZE (v2p m) (PTE_W OR PTE_U) s) (\<lambda>(_, s).
           Ok (s\<lparr>mem := memmove m init sz (mem s)\<rparr>))))"

fun deallocuvm_loop :: "nat \<Rightarrow> nat \<Rightarrow> uint32 \<Rightarrow> uint32 \<Rightarrow> uint32 \<Rightarrow> 'a kmem_scheme \<Rightarrow> 'a kmem_scheme outcome" where
  "deallocuvm_loop 0 c pgdir a oldsz s = Spin"
| "deallocuvm_loop (Suc n) c pgdir a oldsz s =
     (if \<not> a < oldsz then Ok s
      else
        bnd (walkpgdir c pgdir a False s) (\<lambda>(pte, s).
        if pte = 0 then deallocuvm_loop n c pgdir (a + (1024 - 1) * PGSIZE + PGSIZE) oldsz s
        else if ld pte s AND PTE_P \<noteq> 0 then
          let pa = PTE_ADDR (ld pte s)
          in if pa = 0 then Panic ''kfree''
             else bnd (kfree c (p2v pa) s) (\<lambda>s. deallocuvm_loop n c pgdir (a + PGSIZE) oldsz (st pte 0 s))
        else deallocuvm_loop n c pgdir (a + PGSIZE) oldsz s))"

definition deallocuvm :: "nat \<Rightarrow> uint32 \<Rightarrow> uint32 \<Rightarrow> uint32 \<Rightarrow> 'a kmem_scheme \<Rightarrow> (uint32 \<times> 'a kmem_scheme) outcome" where
  "deallocuvm c pgdir oldsz newsz s =
     (if oldsz \<le> newsz then Ok (oldsz, s)
      else bnd (deallocuvm_loop NPAGES c pgdir (PGROUNDUP newsz) oldsz s) (\<lambda>s. Ok (newsz, s)))"

fun allocuvm_loop :: "nat \<Rightarrow> nat \<Rightarrow> uint32 \<Rightarrow> uint32 \<Rightarrow> uint32 \<Rightarrow> uint32 \<Rightarrow> 'a kmem_scheme \<Rightarrow>
    (uint32 \<times> 'a kmem_scheme) outcome" where
  "allocuvm_loop 0 c pgdir a oldsz newsz s = Spin"
| "allocuvm_loop (Suc n) c pgdir a oldsz newsz s =
     (if \<not> a < newsz then Ok (newsz, s)
      else
        bnd (kalloc c s) (\<lambda>(m, s).
        if m = 0 then bnd (deallocuvm c pgdir newsz oldsz s) (\<lambda>(_, s). Ok (0, s))
        else
          let s = s\<lparr>mem := memset m 0 PGSIZE (mem s)\<rparr>
          in bnd (mappages c pgdir a PGSIZE (v2p m) (PTE_W OR PTE_U) s) (\<lambda>(_, s).
             allocuvm_loop n c pgdir (a + PGSIZE) oldsz newsz s)))"

definition allocuvm :: "nat \<Rightarrow> uint32 \<Rightarrow> uint32 \<Rightarrow> uint32 \<Rightarrow> 'a kmem_scheme \<Rightarrow> (uint32 \<times> 'a kmem_scheme) outcome" where
  "allocuvm c pgdir oldsz newsz s =
     (if KERNBASE \<le> newsz then Ok (0, s)
      else if newsz < oldsz then Ok (oldsz, s)
      else allocuvm_loop NPAGES c pgdir (PGROUNDUP oldsz) oldsz newsz s)"

definition free_table :: "nat \<Rightarrow> uint32 \<Rightarrow> nat \<Rightarrow> 'a kmem_scheme \<Rightarrow> 'a kmem_scheme outcome" where
  "free_table c pgdir i s =
     (let pde = ld (pgdir + 4 * of_nat i) s
      in if pde AND PTE_P \<noteq> 0 then kfree c (p2v (PTE_ADDR pde)) s else Ok s)"

definition freevm :: "nat \<Rightarrow> uint32 \<Rightarrow> 'a kmem_scheme \<Rightarrow> 'a kmem_scheme outcome" where
  "freevm c pgdir s =
     (if pgdir = 0 then Panic ''freevm: no pgdir''
      else
        bnd (deallocuvm c pgdir KERNBASE 0 s) (\<lambda>(_, s).
        bnd (for_each (free_table c pgdir) [0..<1024] s) (kfree c pgdir)))"

definition clearpteu :: "nat \<Rightarrow> uint32 \<Rightarrow> uint32 \<Rightarrow> 'a kmem_scheme \<Rightarrow> 'a kmem_scheme outcome" where
  "clearpteu c pgdir uva s =
     bnd (walkpgdir c pgdir uva False s) (\<lambda>(pte, s).
     if pte = 0 then Panic ''clearpteu'' else Ok (st pte (ld pte s AND NOT PTE_U) s))"

fun copyuvm_loop :: "nat \<Rightarrow> nat \<Rightarrow> uint32 \<Rightarrow> uint32 \<Rightarrow> uint32 \<Rightarrow> uint32 \<Rightarrow> 'a kmem_scheme \<Rightarrow>
    (uint32 \<times> 'a kmem_scheme) outcome" where
  "copyuvm_loop 0 c pgdir d i sz s = Spin"
| "copyuvm_loop (Suc n) c pgdir d i sz s =
     (if \<not> i < sz then Ok (d, s)
      else
        bnd (walkpgdir c pgdir i False s) (\<lambda>(pte, s).
        if pte = 0 then Panic ''copyuvm: pte should exist''
        else if ld pte s AND PTE_P = 0 then Panic ''copyuvm: page not present''
        else
          let pa = PTE_ADDR (ld pte s); flags = PTE_FLAGS (ld pte s)
          in bnd (kalloc c s) (\<lambda>(m, s).
             if m = 0 then bnd (freevm c d s) (\<lambda>s. Ok (0, s))
             else
               let s = s\<lparr>mem := memmove m (p2v pa) PGSIZE (mem s)\<rparr>
               in bnd (mappages c d i PGSIZE (v2p m) flags s) (\<lambda>(r, s).
                  if r < 0 then bnd (freevm c d s) (\<lambda>s. Ok (0, s))
                  else copyuvm_loop n c pgdir d (i + PGSIZE) sz s))))"

definition copyuvm :: "nat \<Rightarrow> uint32 \<Rightarrow> uint32 \<Rightarrow> 'a kmem_scheme \<Rightarrow> (uint32 \<times> 'a kmem_scheme) outcome" where
  "copyuvm c pgdir sz s =
     bnd (setupkvm c s) (\<lambda>(d, s).
     if d = 0 then Ok (0, s) else copyuvm_loop NPAGES c pgdir d 0 sz s)"

text \<open>\<^verbatim>\<open>uva2ka\<close> does not test the pointer that \<^verbatim>\<open>walkpgdir\<close> returns.\<close>

definition uva2ka :: "nat \<Rightarrow> uint32 \<Rightarrow> uint32 \<Rightarrow> 'a kmem_scheme \<Rightarrow> uint32 outcome" where
  "uva2ka c pgdir uva s =
     bnd (walkpgdir c pgdir uva False s) (\<lambda>(pte, s).
     if pte = 0 then Fault
     else if ld pte s AND PTE_P = 0 then Ok 0
     else if ld pte s AND PTE_U = 0 then Ok 0
     else Ok (p2v (PTE_ADDR (ld pte s))))"

fun copyout_loop :: "nat \<Rightarrow> nat \<Rightarrow> uint32 \<Rightarrow> uint32 \<Rightarrow> uint32 \<Rightarrow> uint32 \<Rightarrow> 'a kmem_scheme \<Rightarrow>
    (int \<times> 'a kmem_scheme) outcome" where
  "copyout_loop 0 c pgdir va buf len s = Spin"
| "copyout_loop (Suc k) c pgdir va buf len s =
     (if \<not> len > 0 then Ok (0, s)
      else
        let va0 = PGROUNDDOWN va
        in bnd (uva2ka c pgdir va0 s) (\<lambda>pa0.
           if pa0 = 0 then Ok (-1, s)
           else
             let n = PGSIZE - (va - va0);
                 n = (if n > len then len else n);
                 s = s\<lparr>mem := memmove (pa0 + (va - va0)) buf n (mem s)\<rparr>
             in copyout_loop k c pgdir (va0 + PGSIZE) (buf + n) (len - n) s))"

text \<open>Every pass but the first and the last copies a whole page, so \<open>2 ^ 20 + 1\<close> passes and the final
  test are enough.\<close>

definition copyout :: "nat \<Rightarrow> uint32 \<Rightarrow> uint32 \<Rightarrow> uint32 \<Rightarrow> uint32 \<Rightarrow> 'a kmem_scheme \<Rightarrow> (int \<times> 'a kmem_scheme) outcome" where
  "copyout c pgdir va p len s = copyout_loop (NPAGES + 2) c pgdir va p len s"

section \<open>Page tables as maps\<close>

text \<open>Indices of an address, and what a page directory holds: the table of directory slot \<open>i\<close>, and the
  entry in slot \<open>j\<close> of that table (0, not present, where there is no table).\<close>

definition pdx :: "uint32 \<Rightarrow> nat" where "pdx va = unat (PDX va)"
definition ptx :: "uint32 \<Rightarrow> nat" where "ptx va = unat (PTX va)"

definition slot :: "uint32 \<Rightarrow> nat \<Rightarrow> uint32" where "slot b i = b + of_nat (4 * i)"

definition tab :: "'a kmem_scheme \<Rightarrow> uint32 \<Rightarrow> nat \<Rightarrow> uint32 option" where
  "tab s pd i = (if ld (slot pd i) s AND PTE_P \<noteq> 0 then Some (p2v (PTE_ADDR (ld (slot pd i) s))) else None)"

definition entry :: "'a kmem_scheme \<Rightarrow> uint32 \<Rightarrow> nat \<Rightarrow> nat \<Rightarrow> uint32" where
  "entry s pd i j = (case tab s pd i of None \<Rightarrow> 0 | Some pt \<Rightarrow> ld (slot pt j) s)"

definition pt_wf :: "nat \<Rightarrow> 'a kmem_scheme \<Rightarrow> uint32 \<Rightarrow> uint32 list \<Rightarrow> bool" where
  "pt_wf c s pd ps \<longleftrightarrow> kpool c s ps \<and> kframe s pd \<and> pd \<notin> set ps \<and>
     (\<forall>i < 1024. \<forall>pt. tab s pd i = Some pt \<longrightarrow> kframe s pt \<and> pt \<notin> set ps \<and> pt \<noteq> pd) \<and>
     (\<forall>i < 1024. \<forall>j < 1024. \<forall>pt. i \<noteq> j \<longrightarrow> tab s pd i = Some pt \<longrightarrow> tab s pd j \<noteq> Some pt)"

lemma and_3FF: "unat ((w :: uint32) AND 0x3FF) < 1024"
proof -
  have "w AND 0x3FF = take_bit 10 w" by (simp add: take_bit_eq_mask mask_eq_exp_minus_1)
  then have "unat (w AND 0x3FF) = take_bit 10 (unat w)" by (simp add: unsigned_take_bit_eq)
  then show ?thesis using take_bit_nat_less_exp [of 10 "unat w"] by simp
qed

lemma pdx_bound: "pdx va < 1024" and ptx_bound: "ptx va < 1024"
  by (simp_all add: pdx_def ptx_def PDX_def PTX_def and_3FF)

lemma slot_pdx: "pgdir + 4 * PDX va = slot pgdir (pdx va)" and slot_ptx: "pt + 4 * PTX va = slot pt (ptx va)"
  by (simp_all add: slot_def pdx_def ptx_def)

text \<open>The bytes of a slot.\<close>

lemma slot_bytes:
  assumes "within a (slot b i) 4" and "i < 1024"
  shows "\<exists>r < 4. unat (a - b) = 4 * i + r"
proof -
  let ?r = "a - slot b i"
  have r: "unat ?r < 4" using assms(1) by (simp add: within_def)
  have e: "a - b = of_nat (4 * i) + ?r" by (simp add: slot_def)
  have k: "unat (of_nat (4 * i) :: uint32) = 4 * i" using assms(2) by (intro unat_of_nat32) simp
  then have "unat (of_nat (4 * i) :: uint32) + unat ?r < 4294967296" using r assms(2) by linarith
  then have "unat (a - b) = 4 * i + unat ?r" unfolding e using k by (simp only: unat_add_no_wrap)
  then show ?thesis using r by blast
qed

lemma slot_in_page: "within a (slot b i) 4 \<Longrightarrow> i < 1024 \<Longrightarrow> within a b 4096"
  using slot_bytes [of a b i] by (auto simp: within_def)

lemma slot_apart: "within a (slot b i) 4 \<Longrightarrow> i < 1024 \<Longrightarrow> j < 1024 \<Longrightarrow> i \<noteq> j \<Longrightarrow> \<not> within a (slot b j) 4"
  using slot_bytes [of a b i] slot_bytes [of a b j] by fastforce

lemma mem_st [simp]: "mem (st a w s) = st32 a w (mem s)"
  by (simp add: st_def)

lemma mem_upd_sel: "mem (s\<lparr>mem := m\<rparr>) = m"
  by simp

lemma ld_st_same [simp]: "ld a (st a w s) = w"
  by (simp add: ld_def st_def)

lemma ld_st_slot: "i < 1024 \<Longrightarrow> j < 1024 \<Longrightarrow> i \<noteq> j \<Longrightarrow> ld (slot b j) (st (slot b i) w s) = ld (slot b j) s"
  unfolding ld_def mem_st by (rule ld32_st32_other) (metis slot_apart)

lemma ld_st_page:
  assumes "b mod PGSIZE = 0" and "d mod PGSIZE = 0" and "b \<noteq> d" and "i < 1024" and "j < 1024"
  shows "ld (slot d j) (st (slot b i) w s) = ld (slot d j) s"
  unfolding ld_def mem_st
proof (rule ld32_st32_other)
  fix a assume "within a (slot d j) 4"
  then show "\<not> within a (slot b i) 4"
    using slot_in_page [of a d j] slot_in_page [of a b i] page_disjoint [OF assms(2,1)] assms by blast
qed

lemma ld_zeroed:
  assumes "b mod PGSIZE = 0" and "j < 1024"
  shows "ld (slot b j) (s\<lparr>mem := memset b 0 PGSIZE m\<rparr>) = 0"
    and "d mod PGSIZE = 0 \<Longrightarrow> b \<noteq> d \<Longrightarrow> ld (slot d j) (s\<lparr>mem := memset b 0 PGSIZE (mem s)\<rparr>) = ld (slot d j) s"
proof -
  have z: "memset b 0 PGSIZE m a = 0" if "within a (slot b j) 4" for a
    using slot_in_page [OF that assms(2)] by (simp add: memset_eq PGSIZE_def)
  have "ld32 (slot b j) (memset b 0 PGSIZE m) = 0"
    using z [of "slot b j"] z [of "slot b j + 1"] z [of "slot b j + 2"] z [of "slot b j + 3"]
    by (simp add: ld32_def within_def)
  then show "ld (slot b j) (s\<lparr>mem := memset b 0 PGSIZE m\<rparr>) = 0" by (simp add: ld_def)
  assume d: "d mod PGSIZE = 0" "b \<noteq> d"
  have "memset b 0 PGSIZE (mem s) a = mem s a" if "within a (slot d j) 4" for a
    using slot_in_page [OF that assms(2)] page_disjoint [OF d(1) assms(1)] d(2) by (auto simp: memset_eq PGSIZE_def)
  then show "ld (slot d j) (s\<lparr>mem := memset b 0 PGSIZE (mem s)\<rparr>) = ld (slot d j) s"
    unfolding ld_def mem_upd_sel by (rule ld32_cong)
qed

lemma p2v_v2p [simp]: "p2v (v2p a) = a" "v2p (p2v a) = a"
  by (simp_all add: p2v_def v2p_def)

lemma aligned_bits:
  assumes "(w :: uint32) mod PGSIZE = 0" and "n < 12"
  shows "\<not> bit w n"
proof -
  have "take_bit 12 w = 0" using assms(1) by (simp add: take_bit_eq_mod PGSIZE_def)
  then have "\<not> bit (take_bit 12 w) n" by simp
  then show ?thesis using assms(2) by (simp add: bit_take_bit_iff)
qed

lemma v2p_aligned: "v mod PGSIZE = 0 \<Longrightarrow> v2p v mod PGSIZE = 0"
proof -
  assume a: "v mod PGSIZE = 0"
  have "v2p v = v + KERNBASE" by (simp add: v2p_def KERNBASE_def)
  then have "unat (v2p v) mod 4096 = (unat v + 2147483648) mod 4294967296 mod 4096"
    by (simp add: unat_word_ariths KERNBASE_def)
  also have "\<dots> = (unat v + 2147483648) mod 4096" by (simp add: mod_mod_cancel)
  also have "\<dots> = (unat v + 4096 * 524288) mod 4096" by simp
  also have "\<dots> = unat v mod 4096" by (rule mod_mult_self2)
  also have "\<dots> = 0" using a unat_mod [of v 4096] by (simp add: PGSIZE_def)
  finally have "unat (v2p v mod 4096) = 0" by (simp add: unat_mod)
  then show "v2p v mod PGSIZE = 0" by (simp add: PGSIZE_def unat_eq_0)
qed

lemma PTE_ADDR_flags:
  assumes "w mod PGSIZE = 0" and "f AND NOT 0xFFF = 0"
  shows "PTE_ADDR (w OR f) = w"
proof (rule bit_word_eqI)
  fix n assume n: "n < LENGTH(32)"
  have m: "(0xFFF :: uint32) = mask 12" by (simp add: mask_eq_exp_minus_1)
  have "\<not> bit (f AND NOT (mask 12)) n" using assms(2) m by simp
  then show "bit (PTE_ADDR (w OR f)) n = bit w n"
    using n aligned_bits [OF assms(1), of n] by (auto simp: PTE_ADDR_def m bit_simps)
qed

lemma present: "(w OR PTE_P) AND PTE_P \<noteq> 0"
proof
  assume "(w OR PTE_P) AND PTE_P = 0"
  then have "\<not> bit ((w OR PTE_P) AND PTE_P) 0" by simp
  then show False by (simp add: PTE_P_def bit_simps)
qed

lemma kpool_page:
  assumes "kpool c s ps" and "q mod PGSIZE = 0" and "q \<notin> set ps" and "\<And>a. \<not> within a q 4096 \<Longrightarrow> m a = mem s a"
  shows "kpool c (s\<lparr>mem := m\<rparr>) ps"
proof -
  have "klist (freelist s) ps m = klist (freelist s) ps (mem s)"
    by (rule klist_frame [OF _ assms(2,4)]) (use assms(1,3) in \<open>auto simp: kpool_def kinv_def page_ok_def\<close>)
  then show ?thesis using assms(1) by (simp add: kpool_def kinv_def)
qed

lemma kframe_upd [simp]: "kframe (s\<lparr>mem := m\<rparr>) = kframe s" "kframe (st a w s) = kframe s"
  by (simp_all add: kframe_def fun_eq_iff st_def)

lemma kframe_mod: "kframe s p \<Longrightarrow> p mod PGSIZE = 0"
  by (simp add: kframe_def page_ok_def)

lemma pt_wfD:
  assumes "pt_wf c s pd ps"
  shows "kpool c s ps" "kframe s pd" "pd mod PGSIZE = 0" "pd \<notin> set ps"
    and "i < 1024 \<Longrightarrow> tab s pd i = Some pt \<Longrightarrow> kframe s pt \<and> pt mod PGSIZE = 0 \<and> pt \<notin> set ps \<and> pt \<noteq> pd"
    and "i < 1024 \<Longrightarrow> j < 1024 \<Longrightarrow> i \<noteq> j \<Longrightarrow> tab s pd i = Some pt \<Longrightarrow> tab s pd j \<noteq> Some pt"
  using assms kframe_mod by (auto simp: pt_wf_def)

lemma kpool_st:
  "kpool c s ps \<Longrightarrow> b mod PGSIZE = 0 \<Longrightarrow> b \<notin> set ps \<Longrightarrow> i < 1024 \<Longrightarrow> kpool c (st (slot b i) w s) ps"
  unfolding st_def by (rule kpool_page, assumption+) (metis slot_in_page st32_outside)

lemma tab_cong: "ld (slot pd i) t = ld (slot pd i) s \<Longrightarrow> tab t pd i = tab s pd i"
  by (simp add: tab_def)

lemma walk_present: "tab s pd (pdx va) = Some pt \<Longrightarrow> walkpgdir c pd va al s = Ok (slot pt (ptx va), s)"
  by (simp add: walkpgdir_def slot_pdx slot_ptx tab_def Let_def split: if_splits)

lemma walk_absent: "tab s pd (pdx va) = None \<Longrightarrow> walkpgdir c pd va False s = Ok (0, s)"
  by (simp add: walkpgdir_def slot_pdx tab_def Let_def split: if_splits)

text \<open>Storing an entry updates the map at one point.\<close>

lemma store_entry:
  fixes w :: uint32
  assumes wf: "pt_wf c s pd ps" and pt: "tab s pd i = Some pt" and ij: "i < 1024" "j < 1024"
  defines "t \<equiv> st (slot pt j) w s"
  shows "pt_wf c t pd ps" and "k < 1024 \<Longrightarrow> tab t pd k = tab s pd k"
    and "i' < 1024 \<Longrightarrow> j' < 1024 \<Longrightarrow> entry t pd i' j' = (if i' = i \<and> j' = j then w else entry s pd i' j')"
proof -
  note d = pt_wfD [OF wf]
  note p = d(5) [OF ij(1) pt]
  show tb: "tab t pd k = tab s pd k" if "k < 1024" for k
    unfolding t_def by (rule tab_cong, rule ld_st_page) (use p d(3) ij that in auto)
  show "pt_wf c t pd ps"
    using wf tb kpool_st [OF d(1), of pt j w] p ij by (simp add: pt_wf_def) (simp add: t_def)
  show "entry t pd i' j' = (if i' = i \<and> j' = j then w else entry s pd i' j')" if b: "i' < 1024" "j' < 1024"
  proof (cases "tab s pd i'")
    case None
    then show ?thesis using pt tb [OF b(1)] by (auto simp: entry_def)
  next
    case (Some q)
    show ?thesis
    proof (cases "i' = i")
      case True
      then have "q = pt" using Some pt by simp
      then show ?thesis using True Some tb [OF b(1)] ld_st_slot [OF ij(2) b(2)] by (auto simp: entry_def t_def)
    next
      case False
      then have "q \<noteq> pt" using d(6) [OF ij(1) b(1)] pt Some by auto
      then have "ld (slot q j') t = ld (slot q j') s"
        unfolding t_def using d(5) [OF b(1) Some] p ij b by (intro ld_st_page) auto
      then show ?thesis using False Some tb [OF b(1)] by (simp add: entry_def)
    qed
  qed
qed

text \<open>Making a new page table changes no entry.\<close>

lemma walk_alloc:
  assumes wf: "pt_wf c s pd (p # ps)" and none: "tab s pd (pdx va) = None"
  shows "\<exists>t. walkpgdir c pd va True s = Ok (slot p (ptx va), t) \<and> pt_wf c t pd ps \<and> tab t pd (pdx va) = Some p \<and>
    (\<forall>i < 1024. \<forall>j < 1024. entry t pd i j = entry s pd i j)"
proof -
  note d = pt_wfD [OF wf]
  let ?i = "pdx va"
  have pp: "kframe s p" "p mod PGSIZE = 0" "p \<noteq> pd" "p \<notin> set ps" "p \<noteq> 0"
    using d(1,4) kframe_mod [of s p] ka.pool_frames [OF d(1), of p] ka.pool_distinct [OF d(1)]
    by (auto simp: kframe_def page_ok_def)
  obtain u where u: "kalloc c s = Ok (p, u)" "kpool c u ps" "mem u = mem s" "kframe u = kframe s"
    using ka.alloc_some [OF d(1)] by blast
  let ?e = "v2p p OR PTE_P OR PTE_W OR PTE_U"
  let ?z = "u\<lparr>mem := memset p 0 PGSIZE (mem u)\<rparr>"
  let ?t = "st (slot pd ?i) ?e ?z"
  have ld_u: "ld a u = ld a s" for a using u(3) by (simp add: ld_def)
  have e: "?e AND PTE_P \<noteq> 0" "PTE_ADDR ?e = v2p p"
  proof -
    have "?e = (v2p p OR PTE_W OR PTE_U) OR PTE_P" by (simp add: ac_simps)
    then show "?e AND PTE_P \<noteq> 0" using present by metis
    show "PTE_ADDR ?e = v2p p"
      by (rule PTE_ADDR_flags [OF v2p_aligned [OF pp(2)]]) (simp add: PTE_P_def PTE_W_def PTE_U_def)
  qed
  have w: "walkpgdir c pd va True s = Ok (slot p (ptx va), ?t)"
    using none u(1) pp(5) by (simp add: walkpgdir_def slot_pdx slot_ptx tab_def Let_def split: if_splits)
  have tp: "tab ?t pd ?i = Some p" using e by (simp add: tab_def)
  have other: "tab ?t pd k = tab s pd k" if "k < 1024" "k \<noteq> ?i" for k
    using ld_st_slot [OF pdx_bound that(1) that(2) [symmetric], of pd ?e ?z]
      ld_zeroed(2) [OF pp(2) that(1) d(3) pp(3), of u] ld_u by (intro tab_cong) simp
  have ent: "entry ?t pd i j = entry s pd i j" if b: "i < 1024" "j < 1024" for i j
  proof (cases "i = ?i")
    case True
    have "ld (slot p j) ?t = 0"
      by (simp add: ld_st_page [OF d(3) pp(2) pp(3) [symmetric] pdx_bound b(2)] ld_zeroed(1) [OF pp(2) b(2)])
    then show ?thesis using True tp none by (simp add: entry_def)
  next
    case False
    show ?thesis
    proof (cases "tab s pd i")
      case (Some q)
      then have q: "q mod PGSIZE = 0" "q \<noteq> p" "q \<noteq> pd" using d(5) [OF b(1) Some] by auto
      have "ld (slot q j) ?t = ld (slot q j) s"
        by (simp add: ld_st_page [OF d(3) q(1) q(3) [symmetric] pdx_bound b(2)]
            ld_zeroed(2) [OF pp(2) b(2) q(1) q(2) [symmetric]] ld_u)
      then show ?thesis using Some other [OF b(1) False] by (simp add: entry_def)
    qed (use other [OF b(1) False] in \<open>simp add: entry_def\<close>)
  qed
  have "kpool c ?z ps"
    by (rule kpool_page [OF u(2) pp(2,4)]) (simp add: memset_eq PGSIZE_def)
  then have "kpool c ?t ps" using d(3,4) by (intro kpool_st pdx_bound) auto
  moreover have "kframe ?t = kframe s" using u(4) by simp
  ultimately have "pt_wf c ?t pd ps"
    unfolding pt_wf_def using d(2,4) pp tp other d(5,6) none
    by (auto simp: ) (metis option.inject)+
  then show ?thesis using w tp ent by blast
qed

lemma aligned_unat:
  assumes "va mod PGSIZE = 0"
  obtains q where "unat va = 4096 * q" and "q < 1048576"
proof -
  have "unat va mod 4096 = 0" using assms unat_mod [of va 4096] by (simp add: PGSIZE_def)
  then obtain q where q: "unat va = 4096 * q" by auto
  moreover have "q < 1048576" using q unat_lt32 [of va] by linarith
  ultimately show ?thesis using that by blast
qed

lemma one_page:
  assumes "va mod PGSIZE = 0"
  shows "PGROUNDDOWN va = va" and "PGROUNDDOWN (va + PGSIZE - 1) = va"
proof -
  obtain q where q: "unat va = 4096 * q" "q < 1048576" by (rule aligned_unat [OF assms])
  show "PGROUNDDOWN va = va" using unat_page_down [of va] q(1) by (simp add: word_unat_eq_iff)
  have p: "va + PGSIZE - 1 = va + 4095" by (simp add: PGSIZE_def)
  have "unat (va + 4095) = unat va + 4095" using q by (subst unat_add_no_wrap) simp_all
  then have "unat (PGROUNDDOWN (va + 4095)) = 4096 * q + 4095 - (4096 * q + 4095) mod 4096"
    using unat_page_down [of "va + 4095"] q(1) by simp
  also have "(4096 * q + 4095) mod 4096 = 4095" by simp
  finally have "unat (PGROUNDDOWN (va + 4095)) = unat va" using q(1) by simp
  then show "PGROUNDDOWN (va + PGSIZE - 1) = va" unfolding p by (simp add: word_unat_eq_iff)
qed

lemma NPAGES_Suc: "NPAGES = Suc 1048575"
  by (simp add: NPAGES_def)

section \<open>Properties\<close>

text \<open>C21: mapping one page refines an update of a map. On a well-formed page directory, \<^verbatim>\<open>mappages\<close> for one
  page that is not yet present returns 0 when a table for it exists or a page is free for one; then the
  entry of exactly that page is the physical address with the permissions and the present bit, every
  other entry of the directory is what it was, and the directory is well-formed.\<close>

theorem mappages_updates_one_entry:
  assumes "pt_wf c s pd ps" and "va mod PGSIZE = 0" and "entry s pd (pdx va) (ptx va) AND PTE_P = 0"
    and "tab s pd (pdx va) \<noteq> None \<or> ps \<noteq> []"
  shows "\<exists>t qs. mappages c pd va PGSIZE pa perm s = Ok (0, t) \<and> pt_wf c t pd qs \<and> set qs \<subseteq> set ps \<and>
    (\<forall>i < 1024. \<forall>j < 1024. entry t pd i j =
       (if i = pdx va \<and> j = ptx va then pa OR perm OR PTE_P else entry s pd i j))"
proof -
  have "\<exists>u qs pt. walkpgdir c pd va True s = Ok (slot pt (ptx va), u) \<and> pt_wf c u pd qs \<and> set qs \<subseteq> set ps \<and>
      tab u pd (pdx va) = Some pt \<and> (\<forall>i < 1024. \<forall>j < 1024. entry u pd i j = entry s pd i j)"
  proof (cases "tab s pd (pdx va)")
    case None
    then obtain p rs where "ps = p # rs" using assms(4) by (cases ps) auto
    then show ?thesis using walk_alloc [of c s pd p rs va] None assms(1) by fastforce
  next
    case (Some pt)
    then show ?thesis using walk_present assms(1) by blast
  qed
  then obtain u qs pt where u: "walkpgdir c pd va True s = Ok (slot pt (ptx va), u)" "pt_wf c u pd qs"
    "set qs \<subseteq> set ps" "tab u pd (pdx va) = Some pt"
    "\<And>i j. i < 1024 \<Longrightarrow> j < 1024 \<Longrightarrow> entry u pd i j = entry s pd i j" by blast
  have ne: "slot pt (ptx va) \<noteq> 0"
  proof
    assume z: "slot pt (ptx va) = 0"
    have pt: "pt mod PGSIZE = 0" "pt \<noteq> 0" using pt_wfD(5) [OF u(2) pdx_bound u(4)] by (auto simp: kframe_def page_ok_def)
    have "within 0 (slot pt (ptx va)) 4" using z by (simp add: within_def)
    then have "within 0 pt 4096" by (rule slot_in_page [OF _ ptx_bound])
    then have "unat pt = 0" using page_of [OF pt(1)] by simp
    then show False using pt(2) by (simp add: unat_eq_0)
  qed
  have ab: "ld (slot pt (ptx va)) u AND PTE_P = 0"
    using assms(3) u(5) [OF pdx_bound ptx_bound, of va va] u(4) by (simp add: entry_def)
  let ?t = "st (slot pt (ptx va)) (pa OR perm OR PTE_P) u"
  have "mappages c pd va PGSIZE pa perm s = Ok (0, ?t)"
    unfolding mappages_def one_page [OF assms(2)] NPAGES_Suc mappages_loop.simps
    using u(1) ne ab by (simp add: Let_def)
  moreover have "pt_wf c ?t pd qs" by (rule store_entry(1) [OF u(2,4) pdx_bound ptx_bound])
  moreover have "entry ?t pd i j = (if i = pdx va \<and> j = ptx va then pa OR perm OR PTE_P else entry s pd i j)"
    if "i < 1024" "j < 1024" for i j
    using store_entry(3) [OF u(2,4) pdx_bound ptx_bound that] u(5) [OF that] by simp
  ultimately show ?thesis using u(3) by blast
qed

text \<open>A page directory with no tables, and two free pages.\<close>

definition demo_vm :: kmem where
  "demo_vm = demo_kmem\<lparr>freelist := 0x80200000, mem := st32 0x80200000 0x80201000 (\<lambda>_. 0)\<rparr>"

lemma demo_vm_empty: "i < 1024 \<Longrightarrow> tab demo_vm 0x80300000 i = None"
proof -
  assume i: "i < 1024"
  have "ld32 (slot 0x80300000 i) (st32 (slot 0x80200000 0) 0x80201000 (\<lambda>_. 0)) = ld32 (slot 0x80300000 i) (\<lambda>_. 0)"
    using ld_st_page [of "0x80200000" "0x80300000" 0 i "0x80201000" "demo_kmem\<lparr>mem := \<lambda>_. 0\<rparr>"] i
    by (simp add: ld_def PGSIZE_def)
  then have "ld (slot 0x80300000 i) demo_vm = 0" by (simp add: demo_vm_def ld_def slot_def) (simp add: ld32_def)
  then show ?thesis by (simp add: tab_def)
qed

lemma demo_vm_wf: "pt_wf 0 demo_vm 0x80300000 [0x80200000, 0x80201000]"
proof -
  have "ld32 0x80201000 (st32 0x80200000 0x80201000 (\<lambda>_. 0)) = ld32 0x80201000 (\<lambda>_. 0)"
    using ld_st_page [of "0x80200000" "0x80201000" 0 0 "0x80201000" "demo_kmem\<lparr>mem := \<lambda>_. 0\<rparr>"]
    by (simp add: ld_def PGSIZE_def slot_def)
  then have "ld32 0x80201000 (st32 0x80200000 0x80201000 (\<lambda>_. 0)) = 0" by (simp add: ld32_def)
  then show ?thesis
    using demo_vm_empty
    by (simp add: pt_wf_def kpool_def kinv_def klockable_def kframe_def page_ok_def demo_vm_def lock_free_def
        irq_ok_def idle_cpu_def PGSIZE_def v2p_def KERNBASE_def PHYSTOP_def)
qed

theorem mappages_updates_one_entry_witness:
  "\<exists>t qs. mappages 0 0x80300000 0x1000 PGSIZE 0x500000 (PTE_W OR PTE_U) demo_vm = Ok (0, t) \<and>
    pt_wf 0 t 0x80300000 qs \<and> entry t 0x80300000 0 1 = 0x500007"
proof -
  have ix: "pdx 0x1000 = 0" "ptx 0x1000 = 1" by (simp_all add: pdx_def ptx_def PDX_def PTX_def)
  have "entry demo_vm 0x80300000 (pdx 0x1000) (ptx 0x1000) AND PTE_P = 0"
    using demo_vm_empty by (simp add: entry_def ix)
  moreover have "(0x500000 :: uint32) OR (PTE_W OR PTE_U) OR PTE_P = 0x500007"
    by (simp add: PTE_P_def PTE_W_def PTE_U_def)
  ultimately show ?thesis
    using mappages_updates_one_entry [OF demo_vm_wf, of "0x1000" "0x500000" "PTE_W OR PTE_U"] ix
    by (fastforce simp: PGSIZE_def)
qed



end
