(* ===== verification/File.thy ===== *)
theory File
  imports Fs Vm
begin

text \<open>
  Open files and pipes, \<^verbatim>\<open>src/file.c\<close> and \<^verbatim>\<open>src/pipe.c\<close>. A file is an index into \<^verbatim>\<open>ftable.file\<close>. A pipe lives in
  a page of its own and is named by the address of that page; its structure is kept beside the page. The first
  section is the access of the kernel to user memory, through the page directory that the CPU has loaded. A
  process that would sleep on a pipe does not return (\<open>Spin\<close>).
\<close>

section \<open>User memory\<close>

text \<open>The translation that the hardware makes: \<open>None\<close> is a page fault, which the kernel does not survive
  (\<open>Fault\<close>).\<close>

definition xlate :: "nat \<Rightarrow> uint32 \<Rightarrow> 'a kmem_scheme \<Rightarrow> uint32 option" where
  "xlate c va s =
     (let pde = ld (p2v (c_cr3 (cpus s c)) + 4 * PDX va) s
      in if pde AND PTE_P = 0 then None
         else
           let pte = ld (p2v (PTE_ADDR pde) + 4 * PTX va) s
           in if pte AND PTE_P = 0 then None else Some (p2v (PTE_ADDR pte) + (va AND 0xFFF)))"

definition uread :: "nat \<Rightarrow> uint32 \<Rightarrow> 'a kmem_scheme \<Rightarrow> uchar outcome" where
  "uread c va s = (case xlate c va s of None \<Rightarrow> Fault | Some a \<Rightarrow> Ok (mem s a))"

definition uwrite :: "nat \<Rightarrow> uint32 \<Rightarrow> uchar \<Rightarrow> 'a kmem_scheme \<Rightarrow> 'a kmem_scheme outcome" where
  "uwrite c va b s = (case xlate c va s of None \<Rightarrow> Fault | Some a \<Rightarrow> Ok (s\<lparr>mem := (mem s)(a := b)\<rparr>))"

fun ureads :: "nat \<Rightarrow> uint32 \<Rightarrow> nat \<Rightarrow> 'a kmem_scheme \<Rightarrow> uchar list outcome" where
  "ureads c va 0 s = Ok []"
| "ureads c va (Suc n) s = bnd (uread c va s) (\<lambda>b. bnd (ureads c (va + 1) n s) (\<lambda>bs. Ok (b # bs)))"

fun uwrites :: "nat \<Rightarrow> uint32 \<Rightarrow> uchar list \<Rightarrow> 'a kmem_scheme \<Rightarrow> 'a kmem_scheme outcome" where
  "uwrites c va [] s = Ok s"
| "uwrites c va (b # bs) s = bnd (uwrite c va b s) (uwrites c (va + 1) bs)"

definition le16 :: "ushort \<Rightarrow> uchar list" where
  "le16 w = [ucast w, ucast (drop_bit 8 w)]"

definition le32 :: "uint32 \<Rightarrow> uchar list" where
  "le32 w = [ucast w, ucast (drop_bit 8 w), ucast (drop_bit 16 w), ucast (drop_bit 24 w)]"

text \<open>The assignments of \<^verbatim>\<open>stati\<close> to a \<^verbatim>\<open>struct stat\<close> at a user address, in the order of the source; the
  compiler leaves two bytes free after \<^verbatim>\<open>type\<close> and after \<^verbatim>\<open>nlink\<close>.\<close>

definition put_stat :: "nat \<Rightarrow> uint32 \<Rightarrow> stat \<Rightarrow> 'a kmem_scheme \<Rightarrow> 'a kmem_scheme outcome" where
  "put_stat c a x =
     for_each (\<lambda>(off, bs). uwrites c (a + off) bs)
       [(4, le32 (st_dev x)), (8, le32 (st_ino x)), (0, le16 (st_type x)), (12, le16 (st_nlink x)),
        (24, le32 (st_size x)), (20, le16 (st_uid x)), (22, le16 (st_gid x)), (16, le32 (st_mode x))]"

section \<open>State\<close>

definition NFILE :: nat where "NFILE = 100"
definition PIPESIZE :: nat where "PIPESIZE = 512"

datatype fdtype = FD_NONE | FD_PIPE | FD_INODE

record filerec =
  f_type :: fdtype
  f_ref :: int
  f_readable :: bool
  f_writable :: bool
  f_pipe :: uint32
  f_ip :: ptr
  f_off :: uint32

record pipe =
  pi_data :: "nat \<Rightarrow> uchar"
  pi_nread :: uint32
  pi_nwrite :: uint32
  pi_readopen :: bool
  pi_writeopen :: bool

record ftab = conss +
  files :: "nat \<Rightarrow> filerec"
  pipes :: "uint32 \<Rightarrow> pipe"

definition upd_file :: "nat \<Rightarrow> (filerec \<Rightarrow> filerec) \<Rightarrow> 'a ftab_scheme \<Rightarrow> 'a ftab_scheme" where
  "upd_file f g s = s\<lparr>files := (files s)(f := g (files s f))\<rparr>"

definition upd_pipe :: "uint32 \<Rightarrow> (pipe \<Rightarrow> pipe) \<Rightarrow> 'a ftab_scheme \<Rightarrow> 'a ftab_scheme" where
  "upd_pipe p g s = s\<lparr>pipes := (pipes s)(p := g (pipes s p))\<rparr>"

definition plock :: "uint32 \<Rightarrow> lockid" where
  "plock p = Lk_pipe (unat p)"

definition cur_killed :: "nat \<Rightarrow> 'a ptab_scheme \<Rightarrow> bool outcome" where
  "cur_killed c s = bnd (deref (c_proc (cpus s c))) (\<lambda>p. Ok (p_killed (procs s p)))"

section \<open>Pipes\<close>

definition pipeclose :: "nat \<Rightarrow> uint32 \<Rightarrow> bool \<Rightarrow> 'a ftab_scheme \<Rightarrow> 'a ftab_scheme outcome" where
  "pipeclose c p writable s =
     bnd (acquire c (plock p) s) (\<lambda>s.
     bnd (if writable
          then wakeup c (Chan_nread (unat p)) (upd_pipe p (\<lambda>r. r\<lparr>pi_writeopen := False\<rparr>) s)
          else wakeup c (Chan_nwrite (unat p)) (upd_pipe p (\<lambda>r. r\<lparr>pi_readopen := False\<rparr>) s)) (\<lambda>s.
     if \<not> pi_readopen (pipes s p) \<and> \<not> pi_writeopen (pipes s p)
     then bnd (release c (plock p) s) (kfree c p)
     else release c (plock p) s))"

text \<open>The loop of \<^verbatim>\<open>pipewrite\<close>: from byte \<open>i\<close> of the caller's buffer on, \<open>k\<close> bytes are left. The truth value says whether
  all of them were stored; it is false when the call gives up on a full pipe.\<close>

fun pipe_put :: "nat \<Rightarrow> uint32 \<Rightarrow> uint32 \<Rightarrow> nat \<Rightarrow> 'a ftab_scheme \<Rightarrow> (bool \<times> 'a ftab_scheme) outcome" where
  "pipe_put c p a 0 s = Ok (True, s)"
| "pipe_put c p a (Suc k) s =
     (if pi_nwrite (pipes s p) = pi_nread (pipes s p) + of_nat PIPESIZE
      then
        bnd (cur_killed c s) (\<lambda>kl.
        if \<not> pi_readopen (pipes s p) \<or> kl then Ok (False, s) else Spin)
      else
        bnd (uread c a s) (\<lambda>b.
        pipe_put c p (a + 1) k
          (upd_pipe p (\<lambda>r. r\<lparr>pi_data := (pi_data r)(unat (pi_nwrite r) mod PIPESIZE := b),
             pi_nwrite := pi_nwrite r + 1\<rparr>) s)))"

definition pipewrite :: "nat \<Rightarrow> uint32 \<Rightarrow> uint32 \<Rightarrow> int \<Rightarrow> 'a ftab_scheme \<Rightarrow> (int \<times> 'a ftab_scheme) outcome" where
  "pipewrite c p addr n s =
     bnd (acquire c (plock p) s) (\<lambda>s.
     bnd (pipe_put c p addr (nat n) s) (\<lambda>(done, s).
     if done
     then bnd (wakeup c (Chan_nread (unat p)) s) (\<lambda>s. bnd (release c (plock p) s) (\<lambda>s. Ok (n, s)))
     else bnd (release c (plock p) s) (\<lambda>s. Ok (- 1, s))))"

text \<open>The copying loop of \<^verbatim>\<open>piperead\<close>, with the number of bytes copied so far.\<close>

fun pipe_get :: "nat \<Rightarrow> uint32 \<Rightarrow> uint32 \<Rightarrow> nat \<Rightarrow> nat \<Rightarrow> 'a ftab_scheme \<Rightarrow> (nat \<times> 'a ftab_scheme) outcome" where
  "pipe_get c p a i 0 s = Ok (i, s)"
| "pipe_get c p a i (Suc k) s =
     (if pi_nread (pipes s p) = pi_nwrite (pipes s p) then Ok (i, s)
      else
        let b = pi_data (pipes s p) (unat (pi_nread (pipes s p)) mod PIPESIZE)
        in bnd (uwrite c a b (upd_pipe p (\<lambda>r. r\<lparr>pi_nread := pi_nread r + 1\<rparr>) s))
             (pipe_get c p (a + 1) (i + 1) k))"

definition piperead :: "nat \<Rightarrow> uint32 \<Rightarrow> uint32 \<Rightarrow> int \<Rightarrow> 'a ftab_scheme \<Rightarrow> (int \<times> 'a ftab_scheme) outcome" where
  "piperead c p addr n s =
     bnd (acquire c (plock p) s) (\<lambda>s.
     if pi_nread (pipes s p) = pi_nwrite (pipes s p) \<and> pi_writeopen (pipes s p)
     then
       bnd (cur_killed c s) (\<lambda>kl.
       if kl then bnd (release c (plock p) s) (\<lambda>s. Ok (- 1, s)) else Spin)
     else
       bnd (pipe_get c p addr 0 (nat n) s) (\<lambda>(i, s).
       bnd (wakeup c (Chan_nwrite (unat p)) s) (\<lambda>s.
       bnd (release c (plock p) s) (\<lambda>s. Ok (int i, s)))))"

section \<open>Files\<close>

definition fileinit :: "'a ftab_scheme \<Rightarrow> 'a ftab_scheme" where
  "fileinit s = initlock Lk_ftable ''ftable'' s"

definition filealloc :: "nat \<Rightarrow> 'a ftab_scheme \<Rightarrow> (ptr \<times> 'a ftab_scheme) outcome" where
  "filealloc c s =
     bnd (acquire c Lk_ftable s) (\<lambda>s.
     case find (\<lambda>f. f_ref (files s f) = 0) [0..<NFILE] of
       Some f \<Rightarrow> bnd (release c Lk_ftable (upd_file f (\<lambda>r. r\<lparr>f_ref := 1\<rparr>) s)) (\<lambda>s. Ok (Some f, s))
     | None \<Rightarrow> bnd (release c Lk_ftable s) (\<lambda>s. Ok (None, s)))"

definition filedup :: "nat \<Rightarrow> nat \<Rightarrow> 'a ftab_scheme \<Rightarrow> (nat \<times> 'a ftab_scheme) outcome" where
  "filedup c f s =
     bnd (acquire c Lk_ftable s) (\<lambda>s.
     if f_ref (files s f) < 1 then Panic ''filedup''
     else bnd (release c Lk_ftable (upd_file f (\<lambda>r. r\<lparr>f_ref := f_ref r + 1\<rparr>) s)) (\<lambda>s. Ok (f, s)))"

definition fileclose :: "nat \<Rightarrow> nat \<Rightarrow> 'a ftab_scheme \<Rightarrow> 'a ftab_scheme outcome" where
  "fileclose c f s =
     bnd (acquire c Lk_ftable s) (\<lambda>s.
     if f_ref (files s f) < 1 then Panic ''fileclose''
     else
       let s = upd_file f (\<lambda>r. r\<lparr>f_ref := f_ref r - 1\<rparr>) s
       in if f_ref (files s f) > 0 then release c Lk_ftable s
          else
            let ff = files s f
            in bnd (release c Lk_ftable (upd_file f (\<lambda>r. r\<lparr>f_ref := 0, f_type := FD_NONE\<rparr>) s)) (\<lambda>s.
               case f_type ff of
                 FD_PIPE \<Rightarrow> pipeclose c (f_pipe ff) (f_writable ff) s
               | FD_INODE \<Rightarrow>
                   bnd (begin_op c s) (\<lambda>s.
                   bnd (deref (f_ip ff)) (\<lambda>ip.
                   bnd (iput c ip s) (end_op c)))
               | FD_NONE \<Rightarrow> Ok s))"

definition filestat :: "nat \<Rightarrow> nat \<Rightarrow> uint32 \<Rightarrow> 'a ftab_scheme \<Rightarrow> (int \<times> 'a ftab_scheme) outcome" where
  "filestat c f addr s =
     (if f_type (files s f) = FD_INODE
      then
        bnd (ilock c (f_ip (files s f)) s) (\<lambda>s.
        bnd (deref (f_ip (files s f))) (\<lambda>ip.
        bnd (put_stat c addr (stati ip s) s) (\<lambda>s.
        bnd (iunlock c (f_ip (files s f)) s) (\<lambda>s. Ok (0, s)))))
      else Ok (- 1, s))"

definition fileread :: "nat \<Rightarrow> nat \<Rightarrow> uint32 \<Rightarrow> int \<Rightarrow> 'a ftab_scheme \<Rightarrow> (int \<times> 'a ftab_scheme) outcome" where
  "fileread c f addr n s =
     (let r = files s f
      in if \<not> f_readable r then Ok (- 1, s)
         else case f_type r of
           FD_PIPE \<Rightarrow> piperead c (f_pipe r) addr n s
         | FD_INODE \<Rightarrow>
             bnd (ilock c (f_ip r) s) (\<lambda>s.
             bnd (deref (f_ip r)) (\<lambda>ip.
             bnd (readi c ip (f_off (files s f)) (of_int n) s) (\<lambda>(rc, bs, s).
             bnd (uwrites c addr bs s) (\<lambda>s.
             let s = (if rc > 0 then upd_file f (\<lambda>r. r\<lparr>f_off := f_off r + of_int rc\<rparr>) s else s)
             in bnd (iunlock c (f_ip r) s) (\<lambda>s. Ok (rc, s))))))
         | FD_NONE \<Rightarrow> Panic ''fileread'')"

text \<open>The loop of \<^verbatim>\<open>filewrite\<close>; every round writes at least one byte, so \<open>n + 1\<close> rounds are enough. The result
  is the final value of \<^verbatim>\<open>i\<close>.\<close>

definition max_write :: int where
  "max_write = ((int LOGSIZE - 1 - 1 - 2) div 2) * 512"

fun filewrite_loop :: "nat \<Rightarrow> nat \<Rightarrow> nat \<Rightarrow> uint32 \<Rightarrow> int \<Rightarrow> int \<Rightarrow> 'a ftab_scheme \<Rightarrow> (int \<times> 'a ftab_scheme) outcome" where
  "filewrite_loop 0 c f addr n i s = Spin"
| "filewrite_loop (Suc k) c f addr n i s =
     (if i < n
      then
        let n1 = min (n - i) max_write; ipp = f_ip (files s f)
        in bnd (begin_op c s) (\<lambda>s.
           bnd (ilock c ipp s) (\<lambda>s.
           bnd (deref ipp) (\<lambda>ip.
           bnd (ureads c (addr + of_int i) (nat n1) s) (\<lambda>bs.
           bnd (writei c ip bs (f_off (files s f)) s) (\<lambda>(r, s).
           let s = (if r > 0 then upd_file f (\<lambda>q. q\<lparr>f_off := f_off q + of_int r\<rparr>) s else s)
           in bnd (iunlock c ipp s) (\<lambda>s.
              bnd (end_op c s) (\<lambda>s.
              if r < 0 then Ok (i, s)
              else if r \<noteq> n1 then Panic ''short filewrite''
              else filewrite_loop k c f addr n (i + r) s)))))))
      else Ok (i, s))"

definition filewrite :: "nat \<Rightarrow> nat \<Rightarrow> uint32 \<Rightarrow> int \<Rightarrow> 'a ftab_scheme \<Rightarrow> (int \<times> 'a ftab_scheme) outcome" where
  "filewrite c f addr n s =
     (let r = files s f
      in if \<not> f_writable r then Ok (- 1, s)
         else case f_type r of
           FD_PIPE \<Rightarrow> pipewrite c (f_pipe r) addr n s
         | FD_INODE \<Rightarrow>
             bnd (filewrite_loop (nat n + 1) c f addr n 0 s) (\<lambda>(i, s). Ok (if i = n then n else - 1, s))
         | FD_NONE \<Rightarrow> Panic ''filewrite'')"

definition pipealloc :: "nat \<Rightarrow> 'a ftab_scheme \<Rightarrow> ((nat \<times> nat) option \<times> 'a ftab_scheme) outcome" where
  "pipealloc c s =
     bnd (filealloc c s) (\<lambda>(f0, s).
     case f0 of
       None \<Rightarrow> Ok (None, s)
     | Some a \<Rightarrow>
         bnd (filealloc c s) (\<lambda>(f1, s).
         case f1 of
           None \<Rightarrow> bnd (fileclose c a s) (\<lambda>s. Ok (None, s))
         | Some b \<Rightarrow>
             bnd (kalloc c s) (\<lambda>(p, s).
             if p = 0
             then bnd (fileclose c a s) (\<lambda>s. bnd (fileclose c b s) (\<lambda>s. Ok (None, s)))
             else
               let s = upd_pipe p (\<lambda>r. r\<lparr>pi_readopen := True, pi_writeopen := True, pi_nwrite := 0, pi_nread := 0\<rparr>) s;
                   s = initlock (plock p) ''pipe'' s;
                   s = upd_file a (\<lambda>r. r\<lparr>f_type := FD_PIPE, f_readable := True, f_writable := False, f_pipe := p\<rparr>) s;
                   s = upd_file b (\<lambda>r. r\<lparr>f_type := FD_PIPE, f_readable := False, f_writable := True, f_pipe := p\<rparr>) s
               in Ok (Some (a, b), s))))"

end
