(* ===== verification/FileProps.thy ===== *)
theory FileProps
  imports File ConsoleProps
begin

text \<open>
  Correctness of pipes and of the file table: a pipe is a bounded queue of bytes between two processes, and a
  file is closed when its last reference goes.
\<close>

section \<open>The CPU across a wakeup\<close>

lemma wakeup1_cpus:
  assumes e: "env c L s" and w: "wakeup1 ch s = Ok t"
  shows "cpus t = cpus s"
proof -
  obtain qs where inv: "pinv s qs" using e by (auto simp: env_def)
  show ?thesis
  proof (cases "\<exists>p \<in> set (qs Lsleep). p_chan (procs s p) = ch")
    case False
    then show ?thesis using wakeup1_none [OF inv, of ch] w by auto
  next
    case True
    then obtain xs p ys where q: "qs Lsleep = xs @ p # ys" "p_chan (procs s p) = ch"
      "\<forall>x \<in> set xs. p_chan (procs s x) \<noteq> ch"
      by (rule split_list_first_pred)
    have "payload t = payload (set_state p RUNNABLE s)"
      using wakeup1_first [OF inv q(1), of ch] q(2,3) w by auto
    then have "cpus t = cpus (set_state p RUNNABLE s)" by (rule payload_eqD)
    then show ?thesis by (simp add: set_state_upd)
  qed
qed

lemma cr3_locked_by [simp]:
  "c_cr3 (cpus (locked_by c l s) c) = c_cr3 (cpus s c)" "c_proc (cpus (locked_by c l s) c) = c_proc (cpus s c)"
  "c_cr3 (cpus (unlocked_by c l s) c) = c_cr3 (cpus s c)" "c_proc (cpus (unlocked_by c l s) c) = c_proc (cpus s c)"
  by (simp_all add: locked_by_def unlocked_by_def pushed_def popped_def Let_def)

lemma env_wakeup_cpu:
  assumes e: "env c L s" and p: "Lk_ptable \<notin> L"
  shows "\<exists>t. wakeup c ch s = Ok t \<and> env c L t \<and> ptab.more t = ptab.more s \<and>
    c_cr3 (cpus t c) = c_cr3 (cpus s c) \<and> c_proc (cpus t c) = c_proc (cpus s c)"
proof -
  note a = env_acquire [OF e p]
  obtain t where t: "wakeup1 ch (locked_by c Lk_ptable s) = Ok t" "env c (insert Lk_ptable L) t" "ptab.more t = ptab.more s"
    using env_wakeup1 [OF a(2), of ch] by auto
  have "cpus t = cpus (locked_by c Lk_ptable s)" by (rule wakeup1_cpus [OF a(2) t(1)])
  moreover note r = env_release [OF t(2), of Lk_ptable]
  ultimately show ?thesis using a(1) t p by (simp add: wakeup_def)
qed

section \<open>User memory\<close>

lemma xlate_cong:
  assumes "mem t = mem s" and "c_cr3 (cpus t c) = c_cr3 (cpus s c)"
  shows "xlate c va t = xlate c va s"
  using assms by (simp add: xlate_def ld_def Let_def)

lemma uread_cong:
  "mem t = mem s \<Longrightarrow> c_cr3 (cpus t c) = c_cr3 (cpus s c) \<Longrightarrow> uread c va t = uread c va s"
  using xlate_cong [of t s c va] by (simp add: uread_def split: option.split)

lemma ureads_cong:
  assumes "mem t = mem s" and "c_cr3 (cpus t c) = c_cr3 (cpus s c)"
  shows "ureads c va n t = ureads c va n s"
  using assms by (induction n arbitrary: va) (simp_all add: uread_cong [OF assms])

text \<open>A write touches the memory alone.\<close>

lemma uwrite_mem:
  assumes "mem t = mem s" and "c_cr3 (cpus t c) = c_cr3 (cpus s c)" and "uwrite c va b s = Ok u"
  shows "uwrite c va b t = Ok (t\<lparr>mem := mem u\<rparr>)"
  using assms xlate_cong [OF assms(1,2), of va] by (auto simp: uwrite_def split: option.splits)

lemma uwrite_only_mem: "uwrite c va b s = Ok u \<Longrightarrow> u = s\<lparr>mem := mem u\<rparr>"
  by (auto simp: uwrite_def split: option.splits)

lemma uwrites_mem:
  "mem t = mem s \<Longrightarrow> c_cr3 (cpus t c) = c_cr3 (cpus s c) \<Longrightarrow> uwrites c va bs s = Ok u \<Longrightarrow>
    uwrites c va bs t = Ok (t\<lparr>mem := mem u\<rparr>)"
proof (induction bs arbitrary: va s t)
  case Nil
  then show ?case by (cases t) simp
next
  case (Cons b bs)
  obtain v where v: "uwrite c va b s = Ok v" "uwrites c (va + 1) bs v = Ok u"
    using Cons.prems(3) by (auto elim: bnd_OkE)
  have "uwrites c (va + 1) bs (t\<lparr>mem := mem v\<rparr>) = Ok ((t\<lparr>mem := mem v\<rparr>)\<lparr>mem := mem u\<rparr>)"
  proof (rule Cons.IH [OF _ _ v(2)])
    show "c_cr3 (cpus (t\<lparr>mem := mem v\<rparr>) c) = c_cr3 (cpus v c)"
      using Cons.prems(2) uwrite_only_mem [OF v(1)] by (metis kmem.select_convs(1) hw.select_convs(2) kmem.surjective kmem.update_convs(1))
  qed simp
  then show ?case using uwrite_mem [OF Cons.prems(1,2) v(1)] by simp
qed

section \<open>Pipes\<close>

interpretation pip: ring_buffer PIPESIZE
  by unfold_locales (simp_all add: PIPESIZE_def)

text \<open>The bytes in a pipe, oldest first.\<close>

definition in_pipe :: "'a ftab_scheme \<Rightarrow> uint32 \<Rightarrow> uchar list" where
  "in_pipe s p = ring_list PIPESIZE (pi_data (pipes s p)) (pi_nread (pipes s p)) (pi_nwrite (pipes s p))"

definition pipe_ok :: "'a ftab_scheme \<Rightarrow> uint32 \<Rightarrow> bool" where
  "pipe_ok s p \<longleftrightarrow> length (in_pipe s p) \<le> PIPESIZE"

lemma upd_pipe_sel [simp]:
  "pipes (upd_pipe p g s) = (pipes s)(p := g (pipes s p))" "mem (upd_pipe p g s) = mem s" "cpus (upd_pipe p g s) = cpus s"
  "locks (upd_pipe p g s) = locks s" "procs (upd_pipe p g s) = procs s" "heads (upd_pipe p g s) = heads s"
  "tails (upd_pipe p g s) = tails s"
  by (simp_all add: upd_pipe_def)

lemma pipe_full: "pipe_ok s p \<Longrightarrow>
  pi_nwrite (pipes s p) = pi_nread (pipes s p) + of_nat PIPESIZE \<longleftrightarrow> length (in_pipe s p) = PIPESIZE"
proof -
  let ?w = "pi_nwrite (pipes s p)" and ?r = "pi_nread (pipes s p)"
  have "?w = ?r + of_nat PIPESIZE \<longleftrightarrow> ?w - ?r = of_nat PIPESIZE" by (auto simp: algebra_simps)
  also have "\<dots> \<longleftrightarrow> unat (?w - ?r) = unat (of_nat PIPESIZE :: uint32)" by (simp only: word_unat_eq_iff)
  finally show ?thesis by (simp add: in_pipe_def PIPESIZE_def)
qed

text \<open>Storing one byte.\<close>

definition pipe_push :: "uint32 \<Rightarrow> uchar \<Rightarrow> 'a ftab_scheme \<Rightarrow> 'a ftab_scheme" where
  "pipe_push p b s = upd_pipe p (\<lambda>r. r\<lparr>pi_data := (pi_data r)(unat (pi_nwrite r) mod PIPESIZE := b),
     pi_nwrite := pi_nwrite r + 1\<rparr>) s"

lemma pipe_push_ok:
  assumes "length (in_pipe s p) < PIPESIZE"
  shows "in_pipe (pipe_push p b s) p = in_pipe s p @ [b]" "pipe_ok (pipe_push p b s) p"
proof -
  show e: "in_pipe (pipe_push p b s) p = in_pipe s p @ [b]"
    using assms by (simp add: in_pipe_def pipe_push_def pip.put)
  show "pipe_ok (pipe_push p b s) p" using assms by (simp add: pipe_ok_def e)
qed

lemma pipe_put_ok:
  "pipe_ok s p \<Longrightarrow> ureads c a k s = Ok bs \<Longrightarrow> length (in_pipe s p) + k \<le> PIPESIZE \<Longrightarrow>
    \<exists>t. pipe_put c p a k s = Ok (True, t) \<and> pipe_ok t p \<and> in_pipe t p = in_pipe s p @ bs \<and>
      t = s\<lparr>pipes := pipes t\<rparr>"
proof (induction k arbitrary: a s bs)
  case 0
  then show ?case by simp
next
  case (Suc k)
  obtain b bs2 where b: "uread c a s = Ok b" "ureads c (a + 1) k s = Ok bs2" "bs = b # bs2"
    using Suc.prems(2) by (auto elim!: bnd_OkE)
  let ?u = "pipe_push p b s"
  have room: "length (in_pipe s p) < PIPESIZE" using Suc.prems(3) by simp
  note u = pipe_push_ok [OF room, of b]
  have "ureads c (a + 1) k ?u = Ok bs2" using b(2) ureads_cong [of ?u s c "a + 1" k] by (simp add: pipe_push_def)
  then obtain t where t: "pipe_put c p (a + 1) k ?u = Ok (True, t)" "pipe_ok t p" "in_pipe t p = in_pipe ?u p @ bs2"
    "t = ?u\<lparr>pipes := pipes t\<rparr>"
    using Suc.IH [OF u(2)] Suc.prems(3) u(1) by auto
  have "pi_nwrite (pipes s p) \<noteq> pi_nread (pipes s p) + of_nat PIPESIZE" using pipe_full [OF Suc.prems(1)] room by simp
  then have "pipe_put c p a (Suc k) s = Ok (True, t)" using b(1) t(1) by (simp add: pipe_push_def)
  moreover have "t = s\<lparr>pipes := pipes t\<rparr>" using t(4) by (simp add: pipe_push_def upd_pipe_def)
  ultimately show ?case using t(2,3) u(1) b(3) by simp
qed

lemma pipe_get_ok:
  "uwrites c a (take k (in_pipe s p)) s = Ok u \<Longrightarrow>
    \<exists>t. pipe_get c p a i k s = Ok (i + min k (length (in_pipe s p)), t) \<and> in_pipe t p = drop k (in_pipe s p) \<and>
      t = s\<lparr>mem := mem u, pipes := pipes t\<rparr>"
proof (induction k arbitrary: a i s u)
  case 0
  then show ?case by simp
next
  case (Suc k)
  let ?r = "pi_nread (pipes s p)" and ?w = "pi_nwrite (pipes s p)"
  show ?case
  proof (cases "?r = ?w")
    case True
    then have "in_pipe s p = []" by (simp add: in_pipe_def)
    then show ?thesis using True Suc.prems by simp
  next
    case False
    define b where "b = pi_data (pipes s p) (unat ?r mod PIPESIZE)"
    define s1 where "s1 = upd_pipe p (\<lambda>r. r\<lparr>pi_nread := pi_nread r + 1\<rparr>) s"
    have ip: "in_pipe s p = b # in_pipe s1 p" using False by (simp add: in_pipe_def b_def s1_def pip.get)
    obtain v where v: "uwrite c a b s = Ok v" "uwrites c (a + 1) (take k (in_pipe s1 p)) v = Ok u"
      using Suc.prems by (auto simp: ip elim!: bnd_OkE)
    define s2 where "s2 = s1\<lparr>mem := mem v\<rparr>"
    have w1: "uwrite c a b s1 = Ok s2" using uwrite_mem [of s1 s c a b v] v(1) by (simp add: s1_def s2_def)
    have i2: "in_pipe s2 p = in_pipe s1 p" by (simp add: in_pipe_def s2_def)
    have "cpus v = cpus s" using uwrite_only_mem [OF v(1)] by (cases s; cases v) simp
    then have "mem s2 = mem v" "c_cr3 (cpus s2 c) = c_cr3 (cpus v c)" by (simp_all add: s2_def s1_def)
    from uwrites_mem [OF this v(2)] have "uwrites c (a + 1) (take k (in_pipe s2 p)) s2 = Ok (s2\<lparr>mem := mem u\<rparr>)"
      by (simp only: i2)
    then obtain t where t: "pipe_get c p (a + 1) (i + 1) k s2 = Ok (i + 1 + min k (length (in_pipe s2 p)), t)"
      "in_pipe t p = drop k (in_pipe s2 p)" "t = s2\<lparr>mem := mem (s2\<lparr>mem := mem u\<rparr>), pipes := pipes t\<rparr>"
      using Suc.IH by blast
    have "pipe_get c p a i (Suc k) s = Ok (i + min (Suc k) (length (in_pipe s p)), t)"
      using False w1 t(1) by (simp add: b_def [symmetric] s1_def [symmetric] Let_def ip i2)
    moreover have "t = s\<lparr>mem := mem u, pipes := pipes t\<rparr>" using t(3) by (simp add: s2_def s1_def upd_pipe_def)
    ultimately show ?thesis using t(2) by (simp add: ip i2)
  qed
qed

lemma locked_by_ftab [simp]:
  "pipes (locked_by c l s) = pipes s" "files (locked_by c l s) = files s" "mem (locked_by c l s) = mem s"
  "pipes (unlocked_by c l s) = pipes s" "files (unlocked_by c l s) = files s" "mem (unlocked_by c l s) = mem s"
  by (simp_all add: locked_by_def unlocked_by_def)

lemma more_ftab:
  assumes "ptab.more t = ptab.more s"
  shows "pipes t = pipes s" "files t = files s" "mem t = mem s" "inodes t = inodes s"
  using assms by (cases s; cases t; simp)+

lemma env_ftab: "t = s\<lparr>mem := m, pipes := ps\<rparr> \<Longrightarrow> env c L t = env c L s"
  by (rule env_more) simp_all

lemma in_pipe_cong: "pipes t = pipes s \<Longrightarrow> in_pipe t p = in_pipe s p"
  by (simp add: in_pipe_def)

lemma pipewrite_ok:
  assumes e: "env c L s" "plock p \<notin> L" "Lk_ptable \<notin> L" and ok: "pipe_ok s p"
    and rd: "ureads c a (nat n) s = Ok bs" and room: "length (in_pipe s p) + nat n \<le> PIPESIZE"
  shows "\<exists>t. pipewrite c p a n s = Ok (n, t) \<and> env c L t \<and> pipe_ok t p \<and> in_pipe t p = in_pipe s p @ bs \<and>
    mem t = mem s \<and> c_cr3 (cpus t c) = c_cr3 (cpus s c)"
proof -
  note a = env_acquire [OF e(1,2)]
  let ?s = "locked_by c (plock p) s"
  have "pipe_ok ?s p" "ureads c a (nat n) ?s = Ok bs" "length (in_pipe ?s p) + nat n \<le> PIPESIZE"
    using ok rd room ureads_cong [of ?s s c a "nat n"] by (simp_all add: pipe_ok_def in_pipe_def)
  from pipe_put_ok [OF this] obtain u where u: "pipe_put c p a (nat n) ?s = Ok (True, u)" "pipe_ok u p"
    "in_pipe u p = in_pipe ?s p @ bs" "u = ?s\<lparr>pipes := pipes u\<rparr>" by blast
  have m: "mem u = mem s" "c_cr3 (cpus u c) = c_cr3 (cpus s c)" by (subst u(4), simp)+
  have "env c (insert (plock p) L) u = env c (insert (plock p) L) ?s" by (rule env_more; subst u(4); simp)
  with a(2) obtain v where v: "wakeup c (Chan_nread (unat p)) u = Ok v" "env c (insert (plock p) L) v" "ptab.more v = ptab.more u"
    "c_cr3 (cpus v c) = c_cr3 (cpus u c)"
    using env_wakeup_cpu [of c "insert (plock p) L" u "Chan_nread (unat p)"] e(3) by (auto simp: plock_def)
  note x = more_ftab [OF v(3)]
  note r = env_release [OF v(2) insertI1]
  have "insert (plock p) L - {plock p} = L" using e(2) by simp
  then show ?thesis using a(1) u v r x m in_pipe_cong [OF x(1)]
    by (simp add: pipewrite_def pipe_ok_def in_pipe_def)
qed

lemma piperead_ok:
  assumes e: "env c L s" "plock p \<notin> L" "Lk_ptable \<notin> L" and ne: "in_pipe s p \<noteq> [] \<or> \<not> pi_writeopen (pipes s p)"
    and wr: "uwrites c a (take (nat n) (in_pipe s p)) s = Ok u"
  shows "\<exists>t. piperead c p a n s = Ok (int (min (nat n) (length (in_pipe s p))), t) \<and> env c L t \<and>
    in_pipe t p = drop (nat n) (in_pipe s p) \<and> mem t = mem u"
proof -
  note a = env_acquire [OF e(1,2)]
  let ?s = "locked_by c (plock p) s"
  have ip: "in_pipe ?s p = in_pipe s p" by (simp add: in_pipe_def)
  have "mem ?s = mem s" "c_cr3 (cpus ?s c) = c_cr3 (cpus s c)" by simp_all
  from uwrites_mem [OF this wr] have "uwrites c a (take (nat n) (in_pipe ?s p)) ?s = Ok (?s\<lparr>mem := mem u\<rparr>)"
    by (simp only: ip)
  from pipe_get_ok [OF this, of 0] obtain v where
    v: "pipe_get c p a 0 (nat n) ?s = Ok (0 + min (nat n) (length (in_pipe ?s p)), v)"
      "in_pipe v p = drop (nat n) (in_pipe ?s p)" "v = ?s\<lparr>mem := mem (?s\<lparr>mem := mem u\<rparr>), pipes := pipes v\<rparr>" by blast
  have mv: "mem v = mem u" by (subst v(3)) simp
  have "env c (insert (plock p) L) v" using a(2) env_ftab [OF v(3)] by blast
  then obtain w where w: "wakeup c (Chan_nwrite (unat p)) v = Ok w" "env c (insert (plock p) L) w" "ptab.more w = ptab.more v"
    using env_wakeup [of c "insert (plock p) L" v "Chan_nwrite (unat p)"] e(3) by (auto simp: plock_def)
  note x = more_ftab [OF w(3)]
  note r = env_release [OF w(2) insertI1]
  have "insert (plock p) L - {plock p} = L" using e(2) by simp
  moreover have "\<not> (pi_nread (pipes s p) = pi_nwrite (pipes s p) \<and> pi_writeopen (pipes s p))"
    using ne by (auto simp: in_pipe_def)
  ultimately show ?thesis using a(1) v(1,2) w r x mv in_pipe_cong [OF x(1)] ip by (auto simp: piperead_def in_pipe_def)
qed

text \<open>C5: A pipe is a bounded queue of bytes: \<^verbatim>\<open>pipewrite\<close> with enough room appends what it reads from the
  writer's memory, \<^verbatim>\<open>piperead\<close> then delivers to the reader's memory the oldest bytes, in order and as many as it
  asked for, and both leave the locks as they were, although the counters wrap around.\<close>

theorem pipe_delivers_in_order:
  assumes "env c L s" and "plock p \<notin> L" and "Lk_ptable \<notin> L" and "pipe_ok s p"
    and "ureads c src (nat n) s = Ok bs" and "0 < n" and "length (in_pipe s p) + nat n \<le> PIPESIZE"
    and "uwrites c dst (take (nat m) (in_pipe s p @ bs)) s = Ok u"
  shows "\<exists>t v. pipewrite c p src n s = Ok (n, t) \<and> in_pipe t p = in_pipe s p @ bs \<and>
    piperead c p dst m t = Ok (int (min (nat m) (length (in_pipe s p @ bs))), v) \<and>
    in_pipe v p = drop (nat m) (in_pipe s p @ bs) \<and> mem v = mem u \<and> env c L v"
proof -
  obtain t where t: "pipewrite c p src n s = Ok (n, t)" "env c L t" "in_pipe t p = in_pipe s p @ bs" "mem t = mem s"
    "c_cr3 (cpus t c) = c_cr3 (cpus s c)"
    using pipewrite_ok [OF assms(1-5,7)] by blast
  have "length bs = nat n"
  proof -
    have "ureads c a k s = Ok xs \<Longrightarrow> length xs = k" for a k xs
      by (induction k arbitrary: a xs) (auto elim!: bnd_OkE)
    then show ?thesis using assms(5) by blast
  qed
  then have "in_pipe t p \<noteq> []" using assms(6) t(3) by auto
  moreover have "uwrites c dst (take (nat m) (in_pipe t p)) t = Ok (t\<lparr>mem := mem u\<rparr>)"
    using uwrites_mem [OF t(4,5) assms(8)] t(3) by simp
  ultimately show ?thesis using piperead_ok [OF t(2) assms(2,3), where a = dst and n = m] t by auto
qed

section \<open>A process with a page\<close>

text \<open>CPU 0 has a page directory that maps the first user page, which holds two bytes at address 16.\<close>

definition demo_mem :: memory where
  "demo_mem = (\<lambda>_. 0)(0x80000000 := 7, 0x80000001 := 0x10, 0x80001000 := 7, 0x80001001 := 0x20,
     0x80002010 := 104, 0x80002011 := 105)"

definition blank_file :: filerec where
  "blank_file = \<lparr>f_type = FD_NONE, f_ref = 0, f_readable = False, f_writable = False, f_pipe = 0, f_ip = None, f_off = 0\<rparr>"

definition demo_pipe :: pipe where
  "demo_pipe = \<lparr>pi_data = (\<lambda>_. 0), pi_nread = 0xFFFFFFFF, pi_nwrite = 0xFFFFFFFF, pi_readopen = True, pi_writeopen = True\<rparr>"

definition demo_ftab :: ftab where
  "demo_ftab = (conss.extend demo_cons (ftab.fields (\<lambda>_. blank_file) (\<lambda>_. demo_pipe)))\<lparr>mem := demo_mem\<rparr>"

lemma cpus_binit: "cpus (binit s) = cpus s"
proof -
  have "cpus (fold binit_step xs u) = cpus u" for xs and u :: "'a bcache_scheme"
    by (induction xs arbitrary: u) (simp_all add: binit_step_def Let_def upd_buf_def)
  then show ?thesis by (simp add: binit_def Let_def initlock_def upd_lock_def upd_buf_def)
qed

lemma demo_ftab_sel [simp]:
  "cpus demo_ftab = (\<lambda>_. idle_cpu)" "mem demo_ftab = demo_mem" "pipes demo_ftab = (\<lambda>_. demo_pipe)"
  "files demo_ftab = (\<lambda>_. blank_file)"
  by (simp_all add: demo_ftab_def conss.defs ftab.defs demo_start_def cpus_binit demo_log_def demo_boot_def bcache.defs kmem.defs)

lemma demo_ftab_env: "env 0 {} demo_ftab"
proof -
  have "env 0 {} demo_ftab = env 0 {} demo_cons" by (rule env_more; simp add: demo_ftab_def conss.defs)
  then show ?thesis using demo_cons_env by simp
qed

lemma demo_xlate:
  assumes "c_cr3 (cpus s 0) = 0" and "ld32 0x80000000 (mem s) = 0x1007" and "ld32 0x80001000 (mem s) = 0x2007"
  shows "xlate 0 16 s = Some 0x80002010" "xlate 0 17 s = Some 0x80002011" "xlate 0 32 s = Some 0x80002020"
    "xlate 0 33 s = Some 0x80002021"
  using assms by (simp_all add: xlate_def ld_def PDX_def PTX_def PTE_ADDR_def p2v_def KERNBASE_def PTE_P_def)

lemma demo_tables:
  "ld32 0x80000000 demo_mem = 0x1007" "ld32 0x80001000 demo_mem = 0x2007"
  "ld32 0x80000000 (demo_mem(0x80002020 := 104)) = 0x1007" "ld32 0x80001000 (demo_mem(0x80002020 := 104)) = 0x2007"
  by (simp_all add: ld32_def demo_mem_def)

lemma demo_user_mem:
  "ureads 0 16 2 demo_ftab = Ok [104, 105]"
  "uwrites 0 32 [104, 105] demo_ftab = Ok (demo_ftab\<lparr>mem := demo_mem(0x80002020 := 104, 0x80002021 := 105)\<rparr>)"
proof -
  have c: "c_cr3 (cpus demo_ftab 0) = 0" by (simp add: idle_cpu_def)
  note x = demo_xlate [of demo_ftab, simplified, OF c [simplified] demo_tables(1,2)]
  note y = demo_xlate [of "demo_ftab\<lparr>mem := demo_mem(0x80002020 := 104)\<rparr>", simplified, OF c [simplified] demo_tables(3,4)]
  show "ureads 0 16 2 demo_ftab = Ok [104, 105]" by (simp add: numeral_2_eq_2 uread_def x demo_mem_def)
  show "uwrites 0 32 [104, 105] demo_ftab = Ok (demo_ftab\<lparr>mem := demo_mem(0x80002020 := 104, 0x80002021 := 105)\<rparr>)"
    by (simp add: uwrite_def x y)
qed

theorem pipe_delivers_in_order_witness:
  "\<exists>t v. pipewrite 0 0x80300000 16 2 demo_ftab = Ok (2, t) \<and> in_pipe t 0x80300000 = [104, 105] \<and>
    piperead 0 0x80300000 32 100 t = Ok (2, v) \<and> in_pipe v 0x80300000 = [] \<and>
    mem v = demo_mem(0x80002020 := 104, 0x80002021 := 105) \<and> env 0 {} v"
proof -
  have e: "in_pipe demo_ftab 0x80300000 = []" by (simp add: in_pipe_def demo_pipe_def)
  show ?thesis
    using pipe_delivers_in_order [OF demo_ftab_env, where p = "0x80300000" and src = 16 and n = 2 and bs = "[104, 105]" and
      dst = 32 and m = 100] demo_user_mem
    by (simp add: e pipe_ok_def PIPESIZE_def)
qed

end
