(* ===== verification/Exec.thy ===== *)
theory Exec
  imports File
begin

text \<open>
  \<^verbatim>\<open>src/exec.c\<close> with \<^verbatim>\<open>loaduvm\<close> of \<^verbatim>\<open>src/vm.c\<close>, and the system-call arguments of \<^verbatim>\<open>src/syscall.c\<close>. \<^verbatim>\<open>path\<close> and the
  entries of \<^verbatim>\<open>argv\<close> are addresses in the memory of the calling process, which the kernel reads through the
  page directory the CPU has loaded. The local variable \<^verbatim>\<open>elf\<close> starts with whatever the kernel stack held,
  the argument \<open>junk\<close>.
\<close>

section \<open>User values\<close>

definition uread16 :: "nat \<Rightarrow> uint32 \<Rightarrow> 'a kmem_scheme \<Rightarrow> ushort outcome" where
  "uread16 c a s = bnd (ureads c a 2 s) (\<lambda>bs. Ok (blk_rd16 (\<lambda>i. bs ! i) 0))"

definition uread32 :: "nat \<Rightarrow> uint32 \<Rightarrow> 'a kmem_scheme \<Rightarrow> uint32 outcome" where
  "uread32 c a s = bnd (ureads c a 4 s) (\<lambda>bs. Ok (blk_rd32 (\<lambda>i. bs ! i) 0))"

text \<open>The string at an address, up to its zero byte. A string with no end runs through all of memory.\<close>

fun ustr :: "nat \<Rightarrow> nat \<Rightarrow> uint32 \<Rightarrow> 'a kmem_scheme \<Rightarrow> uchar list outcome" where
  "ustr 0 c a s = Spin"
| "ustr (Suc n) c a s =
     bnd (uread c a s) (\<lambda>b. if b = 0 then Ok [] else bnd (ustr n c (a + 1) s) (\<lambda>bs. Ok (b # bs)))"

definition user_str :: "nat \<Rightarrow> uint32 \<Rightarrow> 'a kmem_scheme \<Rightarrow> uchar list outcome" where
  "user_str c a s = ustr (2 ^ 32) c a s"

text \<open>Bytes stored at a kernel address.\<close>

fun kputs :: "uint32 \<Rightarrow> uchar list \<Rightarrow> memory \<Rightarrow> memory" where
  "kputs a [] m = m"
| "kputs a (b # bs) m = kputs (a + 1) bs (m(a := b))"

section \<open>System-call arguments\<close>

definition fetchint :: "nat \<Rightarrow> uint32 \<Rightarrow> 'a kmem_scheme \<Rightarrow> uint32 option outcome" where
  "fetchint c addr s =
     bnd (deref (cur c s)) (\<lambda>me.
     let sz = p_sz (procs s me)
     in if addr \<ge> sz \<or> addr + 4 > sz then Ok None else bnd (uread32 c addr s) (\<lambda>w. Ok (Some w)))"

text \<open>The loop of \<^verbatim>\<open>fetchstr\<close> over the \<open>n\<close> bytes that are left before \<^verbatim>\<open>ep\<close>; \<open>i\<close> bytes lie behind.\<close>

fun str_end :: "nat \<Rightarrow> nat \<Rightarrow> uint32 \<Rightarrow> nat \<Rightarrow> 'a kmem_scheme \<Rightarrow> nat option outcome" where
  "str_end 0 c a i s = Ok None"
| "str_end (Suc n) c a i s =
     bnd (uread c a s) (\<lambda>b. if b = 0 then Ok (Some i) else str_end n c (a + 1) (Suc i) s)"

definition fetchstr :: "nat \<Rightarrow> uint32 \<Rightarrow> 'a kmem_scheme \<Rightarrow> nat option outcome" where
  "fetchstr c addr s =
     bnd (deref (cur c s)) (\<lambda>me.
     let sz = p_sz (procs s me)
     in if addr \<ge> sz then Ok None else str_end (unat (sz - addr)) c addr 0 s)"

definition argint :: "nat \<Rightarrow> nat \<Rightarrow> 'a kmem_scheme \<Rightarrow> uint32 option outcome" where
  "argint c n s =
     bnd (deref (cur c s)) (\<lambda>me. fetchint c (tf_esp (p_tf (procs s me)) + 4 + 4 * of_nat n) s)"

definition argptr :: "nat \<Rightarrow> nat \<Rightarrow> int \<Rightarrow> 'a kmem_scheme \<Rightarrow> uint32 option outcome" where
  "argptr c n sz s =
     bnd (argint c n s) (\<lambda>r.
     case r of
       None \<Rightarrow> Ok None
     | Some i \<Rightarrow>
         bnd (deref (cur c s)) (\<lambda>me.
         let psz = p_sz (procs s me)
         in Ok (if i \<ge> psz \<or> i + of_int sz > psz then None else Some i)))"

definition argstr :: "nat \<Rightarrow> nat \<Rightarrow> 'a kmem_scheme \<Rightarrow> uint32 option outcome" where
  "argstr c n s =
     bnd (argint c n s) (\<lambda>r.
     case r of
       None \<Rightarrow> Ok None
     | Some addr \<Rightarrow> bnd (fetchstr c addr s) (\<lambda>l. Ok (case l of None \<Rightarrow> None | Some _ \<Rightarrow> Some addr)))"

section \<open>Loading a program\<close>

text \<open>One page per round; \<open>unat sz div 4096 + 2\<close> rounds are enough. \<open>False\<close> is the result -1.\<close>

fun loaduvm_loop :: "nat \<Rightarrow> nat \<Rightarrow> uint32 \<Rightarrow> uint32 \<Rightarrow> nat \<Rightarrow> uint32 \<Rightarrow> uint32 \<Rightarrow> uint32 \<Rightarrow> 'a conss_scheme
    \<Rightarrow> (bool \<times> 'a conss_scheme) outcome" where
  "loaduvm_loop 0 c pgdir addr ip off i sz s = Spin"
| "loaduvm_loop (Suc k) c pgdir addr ip off i sz s =
     (if i < sz
      then
        bnd (walkpgdir c pgdir (addr + i) False s) (\<lambda>(pte, s).
        if pte = 0 then Panic ''loaduvm: address should exist''
        else
          let pa = PTE_ADDR (ld pte s);
              n = (if sz - i < PGSIZE then sz - i else PGSIZE)
          in bnd (readi c ip (off + i) n s) (\<lambda>(r, bs, s).
             let s = s\<lparr>mem := kputs (p2v pa) bs (mem s)\<rparr>
             in if of_int r \<noteq> n then Ok (False, s)
                else loaduvm_loop k c pgdir addr ip off (i + PGSIZE) sz s))
      else Ok (True, s))"

definition loaduvm :: "nat \<Rightarrow> uint32 \<Rightarrow> uint32 \<Rightarrow> nat \<Rightarrow> uint32 \<Rightarrow> uint32 \<Rightarrow> 'a conss_scheme \<Rightarrow> (bool \<times> 'a conss_scheme) outcome" where
  "loaduvm c pgdir addr ip off sz s =
     (if addr mod PGSIZE \<noteq> 0 then Panic ''loaduvm: addr must be page aligned''
      else loaduvm_loop (unat sz div 4096 + 2) c pgdir addr ip off 0 sz s)"

definition MAXARG :: nat where "MAXARG = 32"
definition ELF_MAGIC :: uint32 where "ELF_MAGIC = 0x464C457F"
definition ELF_PROG_LOAD :: uint32 where "ELF_PROG_LOAD = 1"

text \<open>The fields of the two headers that \<^verbatim>\<open>exec\<close> reads, at their offsets in 52 and in 32 bytes.\<close>

record elfhdr =
  e_magic :: uint32
  e_entry :: uint32
  e_phoff :: uint32
  e_phnum :: ushort

definition elfhdr_of :: "uchar list \<Rightarrow> elfhdr" where
  "elfhdr_of bs =
     (let d = (\<lambda>i. bs ! i)
      in \<lparr>e_magic = blk_rd32 d 0, e_entry = blk_rd32 d 24, e_phoff = blk_rd32 d 28, e_phnum = blk_rd16 d 44\<rparr>)"

record proghdr =
  ph_type :: uint32
  ph_off :: uint32
  ph_vaddr :: uint32
  ph_filesz :: uint32
  ph_memsz :: uint32

definition proghdr_of :: "uchar list \<Rightarrow> proghdr" where
  "proghdr_of bs =
     (let d = (\<lambda>i. bs ! i)
      in \<lparr>ph_type = blk_rd32 d 0, ph_off = blk_rd32 d 4, ph_vaddr = blk_rd32 d 8, ph_filesz = blk_rd32 d 16,
          ph_memsz = blk_rd32 d 20\<rparr>)"

text \<open>The loop over the \<open>k\<close> program headers that are left, from offset \<open>off\<close>: the new size, or nothing for
  \<^verbatim>\<open>goto bad\<close>.\<close>

fun load_segs :: "nat \<Rightarrow> nat \<Rightarrow> uint32 \<Rightarrow> nat \<Rightarrow> uint32 \<Rightarrow> uint32 \<Rightarrow> 'a conss_scheme \<Rightarrow> (uint32 option \<times> 'a conss_scheme) outcome" where
  "load_segs 0 c pgdir ip off sz s = Ok (Some sz, s)"
| "load_segs (Suc k) c pgdir ip off sz s =
     bnd (readi c ip off 32 s) (\<lambda>(r, bs, s).
     let ph = proghdr_of bs
     in if r \<noteq> 32 then Ok (None, s)
        else if ph_type ph \<noteq> ELF_PROG_LOAD then load_segs k c pgdir ip (off + 32) sz s
        else if ph_memsz ph < ph_filesz ph then Ok (None, s)
        else
          bnd (allocuvm c pgdir sz (ph_vaddr ph + ph_memsz ph) s) (\<lambda>(sz, s).
          if sz = 0 then Ok (None, s)
          else
            bnd (loaduvm c pgdir (ph_vaddr ph) ip (ph_off ph) (ph_filesz ph) s) (\<lambda>(ok, s).
            if \<not> ok then Ok (None, s) else load_segs k c pgdir ip (off + 32) sz s)))"

text \<open>\<^verbatim>\<open>copyout\<close> of bytes that do not lie at one kernel address: the strings of the caller, and the array on the
  kernel stack.\<close>

fun copyout_bytes :: "nat \<Rightarrow> nat \<Rightarrow> uint32 \<Rightarrow> uint32 \<Rightarrow> uchar list \<Rightarrow> 'a kmem_scheme \<Rightarrow> (int \<times> 'a kmem_scheme) outcome" where
  "copyout_bytes 0 c pgdir va bs s = Spin"
| "copyout_bytes (Suc k) c pgdir va bs s =
     (if bs = [] then Ok (0, s)
      else
        let va0 = PGROUNDDOWN va
        in bnd (uva2ka c pgdir va0 s) (\<lambda>pa0.
           if pa0 = 0 then Ok (- 1, s)
           else
             let n = min (unat (PGSIZE - (va - va0))) (length bs);
                 s = s\<lparr>mem := kputs (pa0 + (va - va0)) (take n bs) (mem s)\<rparr>
             in copyout_bytes k c pgdir (va0 + PGSIZE) (drop n bs) s))"

text \<open>The loop that pushes the argument strings: the stack pointer and the addresses pushed, in order.\<close>

fun push_args :: "nat \<Rightarrow> nat \<Rightarrow> uint32 \<Rightarrow> uint32 list \<Rightarrow> uint32 \<Rightarrow> uint32 list \<Rightarrow> 'a kmem_scheme
    \<Rightarrow> ((uint32 \<times> uint32 list) option \<times> 'a kmem_scheme) outcome" where
  "push_args c argc pgdir [] sp us s = Ok (Some (sp, us), s)"
| "push_args c argc pgdir (a # as) sp us s =
     (if argc \<ge> MAXARG then Ok (None, s)
      else
        bnd (user_str c a s) (\<lambda>bs.
        let sp = (sp - (of_nat (length bs) + 1)) AND NOT 3
        in bnd (copyout_bytes (length bs div 4096 + 3) c pgdir sp (bs @ [0]) s) (\<lambda>(r, s).
           if r < 0 then Ok (None, s) else push_args c (Suc argc) pgdir as sp (us @ [sp]) s)))"

definition ustack :: "uint32 \<Rightarrow> uint32 list \<Rightarrow> uchar list" where
  "ustack sp us =
     (let argc = of_nat (length us)
      in concat (map le32 ([0xffffffff, argc, sp - (argc + 1) * 4] @ us @ [0])))"

definition exec_bad :: "nat \<Rightarrow> uint32 \<Rightarrow> ptr \<Rightarrow> 'a conss_scheme \<Rightarrow> (int \<times> 'a conss_scheme) outcome" where
  "exec_bad c pgdir ipp s =
     bnd (if pgdir \<noteq> 0 then freevm c pgdir s else Ok s) (\<lambda>s.
     bnd (case ipp of None \<Rightarrow> Ok s | Some ip \<Rightarrow> bnd (iunlockput c ip s) (end_op c)) (\<lambda>s. Ok (- 1, s)))"

text \<open>The permission check: \<^verbatim>\<open>st\<close> is the null pointer, so \<^verbatim>\<open>stati\<close> writes to user address 0 and the fields are
  read back from there.\<close>

definition exec_allowed :: "nat \<Rightarrow> nat \<Rightarrow> nat \<Rightarrow> 'a conss_scheme \<Rightarrow> (bool \<times> 'a conss_scheme) outcome" where
  "exec_allowed c me ip s =
     bnd (put_stat c 0 (stati ip s) s) (\<lambda>s.
     bnd (uread32 c 16 s) (\<lambda>mode.
     bnd (uread16 c 20 s) (\<lambda>uid.
     bnd (uread16 c 22 s) (\<lambda>gid.
     let u = (p_uid (procs s me) = ucast uid \<and> bit mode 6);
         g = (p_gid (procs s me) = ucast gid \<and> bit mode 3);
         ot = bit mode 0
     in if \<not> (u \<or> g \<or> ot) then Ok (False, s)
        else Ok (True, if bit mode 9 then upd_proc me (\<lambda>r. r\<lparr>p_uid := ucast uid\<rparr>) s else s)))))"

definition chars :: "uchar list \<Rightarrow> string" where
  "chars bs = map (\<lambda>b. char_of (unat b)) bs"

definition base_name :: "uchar list \<Rightarrow> uchar list" where
  "base_name path = rev (takeWhile (\<lambda>ch. ch \<noteq> slash) (rev path))"

text \<open>Lines 75 to 117 of \<^verbatim>\<open>exec\<close>: the stack, the arguments, and the switch to the new image.\<close>

definition exec_image :: "nat \<Rightarrow> nat \<Rightarrow> uint32 \<Rightarrow> uint32 list \<Rightarrow> uint32 \<Rightarrow> uint32 \<Rightarrow> uint32 \<Rightarrow> 'a conss_scheme
    \<Rightarrow> (int \<times> 'a conss_scheme) outcome" where
  "exec_image c me path argv pgdir sz eip s =
     (let sz = PGROUNDUP sz
      in bnd (allocuvm c pgdir sz (sz + 2 * PGSIZE) s) (\<lambda>(sz, s).
         if sz = 0 then exec_bad c pgdir None s
         else
           bnd (clearpteu c pgdir (sz - 2 * PGSIZE) s) (\<lambda>s.
           bnd (push_args c 0 pgdir argv sz [] s) (\<lambda>(r, s).
           case r of
             None \<Rightarrow> exec_bad c pgdir None s
           | Some (sp, us) \<Rightarrow>
               let sp2 = sp - (3 + of_nat (length us) + 1) * 4
               in bnd (copyout_bytes 3 c pgdir sp2 (ustack sp us) s) (\<lambda>(r, s).
                  if r < 0 then exec_bad c pgdir None s
                  else
                    bnd (user_str c path s) (\<lambda>bs.
                    let old = p_pgdir (procs s me);
                        s = upd_proc me (\<lambda>r. r\<lparr>p_name := chars (take 15 (base_name bs)), p_pgdir := pgdir,
                              p_sz := sz, p_tf := (p_tf r)\<lparr>tf_eip := eip, tf_esp := sp2\<rparr>\<rparr>) s
                    in bnd (switchuvm c me s) (\<lambda>s.
                       bnd (freevm c old s) (\<lambda>s. Ok (0, s)))))))))"

definition exec :: "nat \<Rightarrow> uchar list \<Rightarrow> uint32 \<Rightarrow> uint32 list \<Rightarrow> 'a conss_scheme \<Rightarrow> (int \<times> 'a conss_scheme) outcome" where
  "exec c junk path argv s =
     bnd (deref (cur c s)) (\<lambda>me.
     bnd (begin_op c s) (\<lambda>s.
     bnd (user_str c path s) (\<lambda>bs.
     bnd (namei c bs s) (\<lambda>(r, s).
     case r of
       None \<Rightarrow> bnd (end_op c s) (\<lambda>s. Ok (- 1, s))
     | Some ip \<Rightarrow>
         bnd (ilock c (Some ip) s) (\<lambda>s.
         bnd (exec_allowed c me ip s) (\<lambda>(ok, s).
         if \<not> ok then exec_bad c 0 (Some ip) s
         else
           bnd (readi c ip 0 52 s) (\<lambda>(r, bs, s).
           let elf = elfhdr_of (bs @ drop (length bs) junk)
           in if of_int r < (52 :: uint32) \<or> e_magic elf \<noteq> ELF_MAGIC then exec_bad c 0 (Some ip) s
              else
                bnd (setupkvm c s) (\<lambda>(pgdir, s).
                if pgdir = 0 then exec_bad c 0 (Some ip) s
                else
                  bnd (load_segs (unat (e_phnum elf)) c pgdir ip (e_phoff elf) 0 s) (\<lambda>(r, s).
                  case r of
                    None \<Rightarrow> exec_bad c pgdir (Some ip) s
                  | Some sz \<Rightarrow>
                      bnd (iunlockput c ip s) (\<lambda>s.
                      bnd (end_op c s) (\<lambda>s.
                      exec_image c me path argv pgdir sz (e_entry elf) s)))))))))))"

end
