(* ===== verification/SysProps.thy ===== *)
theory SysProps
  imports Exec FileProps
begin

text \<open>
  The check of a pointer that a process hands to the kernel: \<^verbatim>\<open>argptr\<close> of \<^verbatim>\<open>src/syscall.c\<close>, whose sum of an unsigned
  address and a signed size can wrap around.
\<close>

lemma range_check:
  fixes i psz :: uint32
  assumes p: "unat psz < 2 ^ 31" and z: "- (2 ^ 31) \<le> sz" "sz < 2 ^ 31"
  shows "(i \<ge> psz \<or> i + of_int sz > psz) \<longleftrightarrow> \<not> (int (unat i) < int (unat psz) \<and> 0 \<le> int (unat i) + sz \<and> int (unat i) + sz \<le> int (unat psz))"
proof (cases "i < psz")
  case True
  then have i: "unat i < unat psz" by (simp add: word_less_nat_alt)
  let ?s = "int (unat i) + sz"
  have "unat psz < 2147483648" using p by simp
  then have p': "int (unat psz) < 2147483648" "int (unat i) < 2147483648" using i by linarith+
  have z': "- 2147483648 \<le> sz" "sz < 2147483648" using z by simp_all
  have e: "int (unat (i + of_int sz)) = ?s mod 4294967296"
    by (simp add: uint_word_ariths uint_word_of_int mod_simps)
  have "?s mod 4294967296 = (if 0 \<le> ?s then ?s else ?s + 4294967296)"
  proof (cases "0 \<le> ?s")
    case False
    have "?s mod 4294967296 = (?s + 4294967296) mod 4294967296" by simp
    also have "\<dots> = ?s + 4294967296" by (rule mod_pos_pos_trivial) (use False z' p' in linarith)+
    finally show ?thesis using False by simp
  qed (use z' p' in \<open>simp add: mod_pos_pos_trivial\<close>)
  then have "i + of_int sz > psz \<longleftrightarrow> (if 0 \<le> ?s then ?s else ?s + 4294967296) > int (unat psz)"
    unfolding word_less_nat_alt of_nat_less_iff [where 'a = int, symmetric] e by (rule arg_cong)
  moreover have "\<not> i \<ge> psz" "int (unat i) < int (unat psz)" "0 \<le> int (unat i)" using True i by (simp_all only: of_nat_less_iff not_le of_nat_0_le_iff)
  moreover have "int (unat psz) < ?s + 4294967296" using z' p' by linarith
  ultimately show ?thesis by auto
next
  case False
  then have "psz \<le> i" "\<not> int (unat i) < int (unat psz)" by (simp_all only: of_nat_less_iff not_less word_le_nat_alt)
  then show ?thesis by simp
qed

text \<open>C40: in a process of less than 2 GB, \<^verbatim>\<open>argptr\<close> accepts a pointer exactly when both ends of the range it announces lie in the memory of the
  process, whatever wraps around in its unsigned sum: the pointer itself must be below the size of the process, and
  pointer plus size, in the integers, between zero and that size. A negative size therefore passes when the range
  it spans backwards stays within the process.\<close>

theorem argptr_checks_range:
  assumes "cur c s = Some me" and "unat (p_sz (procs s me)) < 2 ^ 31" and "- (2 ^ 31) \<le> sz" and "sz < 2 ^ 31"
  shows "argptr c n sz s = bnd (argint c n s) (\<lambda>r. Ok (case r of None \<Rightarrow> None | Some i \<Rightarrow>
    if int (unat i) < int (unat (p_sz (procs s me))) \<and> 0 \<le> int (unat i) + sz \<and> int (unat i) + sz \<le> int (unat (p_sz (procs s me)))
    then Some i else None))"
  using range_check [OF assms(2-4)] assms(1)
  by (cases "argint c n s") (auto simp: argptr_def Let_def split: option.splits)

text \<open>A process of 64 KB whose first argument word, at address 16, is 26984.\<close>

definition demo_caller :: ftab where
  "demo_caller = demo_ftab\<lparr>cpus := (\<lambda>_. idle_cpu)(0 := idle_cpu\<lparr>c_proc := Some 0\<rparr>),
     procs := (procs demo_ftab)(0 := (procs demo_ftab 0)\<lparr>p_sz := 65536, p_tf := (p_tf (procs demo_ftab 0))\<lparr>tf_esp := 12\<rparr>\<rparr>)\<rparr>"

lemma demo_caller_cur:
  "cur 0 demo_caller = Some 0" "p_sz (procs demo_caller 0) = 65536" "tf_esp (p_tf (procs demo_caller 0)) = 12"
  by (simp_all add: demo_caller_def cur_def)

lemma demo_caller_arg: "argint 0 0 demo_caller = Ok (Some 26984)"
proof -
  have c: "c_cr3 (cpus demo_caller 0) = 0" "mem demo_caller = demo_mem" by (simp_all add: demo_caller_def idle_cpu_def)
  have x: "xlate 0 16 demo_caller = Some 0x80002010" "xlate 0 17 demo_caller = Some 0x80002011"
    "xlate 0 18 demo_caller = Some 0x80002012" "xlate 0 19 demo_caller = Some 0x80002013"
    using c demo_tables(1,2) by (simp_all add: xlate_def ld_def PDX_def PTX_def PTE_ADDR_def p2v_def KERNBASE_def PTE_P_def)
  have "ureads 0 16 (Suc (Suc (Suc (Suc 0)))) demo_caller = Ok [104, 105, 0, 0]" by (simp add: uread_def x c(2) demo_mem_def)
  then have "ureads 0 16 4 demo_caller = Ok [104, 105, 0, 0]" by (simp add: eval_nat_numeral)
  moreover have "blk_rd32 (\<lambda>i. [104, 105, 0, 0] ! i) 0 = 26984" by (simp add: blk_rd32_def)
  ultimately show ?thesis using demo_caller_cur by (simp add: argint_def fetchint_def uread32_def Let_def)
qed

theorem argptr_checks_range_witness:
  "argptr 0 0 38552 demo_caller = Ok (Some 26984) \<and> argptr 0 0 38553 demo_caller = Ok None \<and> argptr 0 0 (- 1) demo_caller = Ok (Some 26984)"
proof -
  have "argptr 0 0 sz demo_caller = Ok (if 0 \<le> 26984 + sz \<and> 26984 + sz \<le> 65536 then Some 26984 else None)"
    if "- (2 ^ 31) \<le> sz" "sz < 2 ^ 31" for sz
    using argptr_checks_range [OF demo_caller_cur(1) _ that, of 0] demo_caller_cur(2) demo_caller_arg by simp
  from this [of 38552] this [of 38553] this [of "- 1"] show ?thesis by simp
qed

end
