(* ===== verification/ProcLife.thy ===== *)
theory ProcLife
  imports File
begin

text \<open>
  Creation and end of processes in \<^verbatim>\<open>src/proc.c\<close>, over the page tables, the files and the file system. The
  structures that \<^verbatim>\<open>p->tf\<close> and \<^verbatim>\<open>p->context\<close> point to are kept beside the kernel stack page. The
  boot image \<^verbatim>\<open>initcode\<close>, which the build links in, is given by its address and size. A second section holds the
  versions of these routines that scan the whole table, which the source keeps under \<^verbatim>\<open>#ifndef CS333_P3P4\<close>.
\<close>

section \<open>Processes on lists\<close>

definition NOFILE :: nat where "NOFILE = 16"

definition zero_tf :: trapframe where
  "zero_tf = \<lparr>tf_edi = 0, tf_esi = 0, tf_ebp = 0, tf_oesp = 0, tf_ebx = 0, tf_edx = 0, tf_ecx = 0,
     tf_eax = 0, tf_gs = 0, tf_fs = 0, tf_es = 0, tf_ds = 0, tf_trapno = 0, tf_err = 0, tf_eip = 0,
     tf_cs = 0, tf_eflags = 0, tf_esp = 0, tf_ss = 0\<rparr>"

definition zero_context :: kcontext where
  "zero_context = \<lparr>x_edi = 0, x_esi = 0, x_ebx = 0, x_ebp = 0, x_eip = K_addr 0\<rparr>"

definition pinit :: "'a ptab_scheme \<Rightarrow> 'a ptab_scheme" where
  "pinit s = initlock Lk_ptable ''ptable'' s"

text \<open>Lines 113 to 166 of \<^verbatim>\<open>allocproc\<close>, after the slot has been taken. \<^verbatim>\<open>CS33_P3P4\<close> at line 115 is never
  defined, so a failure to allocate the stack only resets the state. A trap frame has 76 bytes, a context 20.\<close>

definition setup_stack :: "uint32 \<Rightarrow> uint32 \<Rightarrow> proc \<Rightarrow> proc" where
  "setup_stack k tk r =
     (let sp = k + KSTACKSIZE - 76
      in r\<lparr>p_kstack := k, p_tfp := sp, p_ret := K_trapret, p_contextp := sp - 4 - 20,
           p_context := zero_context\<lparr>x_eip := K_forkret\<rparr>, p_start_ticks := tk, p_cpu_ticks_total := 0,
           p_cpu_ticks_in := 0, p_budget := MAXBUDG, p_priority := 0\<rparr>)"

definition take_slot :: "nat \<Rightarrow> 'a ptab_scheme \<Rightarrow> (ptr \<times> 'a ptab_scheme) outcome" where
  "take_slot c s =
     bnd (acquire c Lk_ptable s) (\<lambda>s.
     case heads s Lfree of
       None \<Rightarrow> bnd (release c Lk_ptable s) (\<lambda>s. Ok (None, s))
     | Some p \<Rightarrow>
         bnd (leave_list ''alloc - remove from free failed'' Lfree p UNUSED s) (\<lambda>s.
         bnd (enter_list stateListAddAtHead Lembryo p EMBRYO (set_state p EMBRYO s)) (\<lambda>s.
         let s = (upd_proc p (\<lambda>r. r\<lparr>p_pid := nextpid s\<rparr>) s)\<lparr>nextpid := nextpid s + 1\<rparr>
         in bnd (release c Lk_ptable s) (\<lambda>s. Ok (Some p, s)))))"

definition allocproc :: "nat \<Rightarrow> 'a kmem_scheme \<Rightarrow> (ptr \<times> 'a kmem_scheme) outcome" where
  "allocproc c s =
     bnd (take_slot c s) (\<lambda>(r, s).
     case r of
       None \<Rightarrow> Ok (None, s)
     | Some p \<Rightarrow>
         bnd (kalloc c s) (\<lambda>(k, s).
         if k = 0 then Ok (None, set_state p UNUSED (upd_proc p (\<lambda>r. r\<lparr>p_kstack := 0\<rparr>) s))
         else Ok (Some p, upd_proc p (setup_stack k (ticks s)) s)))"

text \<open>An embryo enters its ready list: the transition that ends \<^verbatim>\<open>userinit\<close> and \<^verbatim>\<open>fork\<close>.\<close>

definition hatch :: "nat \<Rightarrow> string \<Rightarrow> nat \<Rightarrow> 'a ptab_scheme \<Rightarrow> 'a ptab_scheme outcome" where
  "hatch c msg p s =
     bnd (acquire c Lk_ptable s) (\<lambda>s.
     bnd (leave_list msg Lembryo p EMBRYO s) (\<lambda>s.
     let s = set_state p RUNNABLE s
     in bnd (enter_list stateListAdd (ready (p_priority (procs s p))) p RUNNABLE s) (release c Lk_ptable)))"

definition first_tf :: trapframe where
  "first_tf = zero_tf\<lparr>tf_cs := 0x23, tf_ds := 0x2b, tf_es := 0x2b, tf_ss := 0x2b, tf_eflags := 0x200,
     tf_esp := 4096, tf_eip := 0\<rparr>"

definition userinit :: "nat \<Rightarrow> uint32 \<Rightarrow> uint32 \<Rightarrow> 'a conss_scheme \<Rightarrow> 'a conss_scheme outcome" where
  "userinit c initcode initsz s =
     bnd (acquire c Lk_ptable s) (\<lambda>s.
     bnd (initFreeList c (initProcessLists s)) (\<lambda>s.
     bnd (release c Lk_ptable s) (\<lambda>s.
     bnd (allocproc c s) (\<lambda>(r, s).
     let s = s\<lparr>initproc := r\<rparr>
     in bnd (deref r) (\<lambda>p.
        bnd (setupkvm c s) (\<lambda>(pgdir, s).
        let s = upd_proc p (\<lambda>r. r\<lparr>p_pgdir := pgdir\<rparr>) s
        in if pgdir = 0 then Panic ''userinit: out of memory?''
           else
             bnd (inituvm c pgdir initcode initsz s) (\<lambda>s.
             let s = upd_proc p (\<lambda>r. r\<lparr>p_sz := PGSIZE, p_tf := first_tf, p_name := ''initcode''\<rparr>) s
             in bnd (namei c [slash] s) (\<lambda>(cwd, s).
                let s = upd_proc p (\<lambda>r. r\<lparr>p_cwd := cwd, p_uid := 0, p_gid := 0, p_parent := Some p\<rparr>) s;
                    s = s\<lparr>promoteAtTime := ticks s + TICKS_TO_PROMOTE\<rparr>
                in hatch c ''userinit - remove from embryo failed'' p s))))))))"

definition growproc :: "nat \<Rightarrow> int \<Rightarrow> 'a kmem_scheme \<Rightarrow> (int \<times> 'a kmem_scheme) outcome" where
  "growproc c n s =
     bnd (deref (cur c s)) (\<lambda>me.
     let r = procs s me
     in bnd (if n > 0 then bnd (allocuvm c (p_pgdir r) (p_sz r) (p_sz r + of_int n) s) (\<lambda>(sz, s). Ok (sz, sz = 0, s))
             else if n < 0 then bnd (deallocuvm c (p_pgdir r) (p_sz r) (p_sz r + of_int n) s) (\<lambda>(sz, s). Ok (sz, sz = 0, s))
             else Ok (p_sz r, False, s)) (\<lambda>(sz, failed, s).
        if failed then Ok (- 1, s)
        else bnd (switchuvm c me (upd_proc me (\<lambda>r. r\<lparr>p_sz := sz\<rparr>) s)) (\<lambda>s. Ok (0, s))))"

text \<open>The failure path of \<^verbatim>\<open>fork\<close>: the slot goes back to the free list.\<close>

definition give_back :: "nat \<Rightarrow> nat \<Rightarrow> 'a kmem_scheme \<Rightarrow> 'a kmem_scheme outcome" where
  "give_back c np s =
     bnd (kfree c (p_kstack (procs s np)) s) (\<lambda>s.
     bnd (acquire c Lk_ptable (upd_proc np (\<lambda>r. r\<lparr>p_kstack := 0\<rparr>) s)) (\<lambda>s.
     bnd (leave_list ''fork - remove from embryo failed'' Lembryo np EMBRYO s) (\<lambda>s.
     bnd (enter_list stateListAddAtHead Lfree np UNUSED (set_state np UNUSED s)) (release c Lk_ptable))))"

definition dup_ofile :: "nat \<Rightarrow> nat \<Rightarrow> nat \<Rightarrow> nat \<Rightarrow> 'a ftab_scheme \<Rightarrow> 'a ftab_scheme outcome" where
  "dup_ofile c me np i s =
     (case p_ofile (procs s me) i of
        None \<Rightarrow> Ok s
      | Some f \<Rightarrow> bnd (filedup c f s) (\<lambda>(f, s).
          Ok (upd_proc np (\<lambda>r. r\<lparr>p_ofile := (p_ofile r)(i := Some f)\<rparr>) s)))"

definition fork :: "nat \<Rightarrow> 'a ftab_scheme \<Rightarrow> (int \<times> 'a ftab_scheme) outcome" where
  "fork c s =
     bnd (allocproc c s) (\<lambda>(r, s).
     case r of
       None \<Rightarrow> Ok (- 1, s)
     | Some np \<Rightarrow>
         bnd (deref (cur c s)) (\<lambda>me.
         bnd (copyuvm c (p_pgdir (procs s me)) (p_sz (procs s me)) s) (\<lambda>(d, s).
         let s = upd_proc np (\<lambda>r. r\<lparr>p_pgdir := d\<rparr>) s
         in if d = 0 then bnd (give_back c np s) (\<lambda>s. Ok (- 1, s))
            else
              let s = upd_proc np (\<lambda>r. r\<lparr>p_sz := p_sz (procs s me), p_parent := Some me,
                    p_tf := (p_tf (procs s me))\<lparr>tf_eax := 0\<rparr>\<rparr>) s
              in bnd (for_each (dup_ofile c me np) [0..<NOFILE] s) (\<lambda>s.
                 bnd (deref (p_cwd (procs s me))) (\<lambda>cwd.
                 bnd (idup c cwd s) (\<lambda>(ip, s).
                 let s = upd_proc np (\<lambda>r. r\<lparr>p_cwd := Some ip, p_name := take 15 (p_name (procs s me)),
                       p_uid := p_uid (procs s me), p_gid := p_gid (procs s me)\<rparr>) s;
                     pid = p_pid (procs s np);
                     s = upd_proc np (\<lambda>r. r\<lparr>p_priority := 0, p_budget := MAXBUDG\<rparr>) s
                 in bnd (hatch c ''fork - remove from embryo failed'' np s) (\<lambda>s. Ok (sint pid, s))))))))"

definition close_ofile :: "nat \<Rightarrow> nat \<Rightarrow> nat \<Rightarrow> 'a ftab_scheme \<Rightarrow> 'a ftab_scheme outcome" where
  "close_ofile c me fd s =
     (case p_ofile (procs s me) fd of
        None \<Rightarrow> Ok s
      | Some f \<Rightarrow> bnd (fileclose c f s) (\<lambda>s. Ok (upd_proc me (\<lambda>r. r\<lparr>p_ofile := (p_ofile r)(fd := None)\<rparr>) s)))"

definition adopt :: "nat \<Rightarrow> nat \<Rightarrow> 'a ptab_scheme \<Rightarrow> 'a ptab_scheme outcome" where
  "adopt me p s =
     Ok (if p_parent (procs s p) = Some me then upd_proc p (\<lambda>r. r\<lparr>p_parent := initproc s\<rparr>) s else s)"

definition chan_of :: "ptr \<Rightarrow> chan" where
  "chan_of p = (case p of None \<Rightarrow> Chan_null | Some i \<Rightarrow> Chan_proc i)"

definition adopt_zombie :: "nat \<Rightarrow> nat \<Rightarrow> 'a ptab_scheme \<Rightarrow> 'a ptab_scheme outcome" where
  "adopt_zombie me p s =
     (if p_parent (procs s p) = Some me
      then wakeup1 (chan_of (initproc s)) (upd_proc p (\<lambda>r. r\<lparr>p_parent := initproc s\<rparr>) s)
      else Ok s)"

text \<open>Lines 407 to 457 of \<^verbatim>\<open>exit\<close>, under \<^verbatim>\<open>ptable.lock\<close>, up to the switch to the scheduler.\<close>

definition exit_locked :: "nat \<Rightarrow> nat \<Rightarrow> 'a ptab_scheme \<Rightarrow> (bool \<times> 'a ptab_scheme) outcome" where
  "exit_locked c me s =
     bnd (wakeup1 (chan_of (p_parent (procs s me))) s) (\<lambda>s.
     bnd (walk NPROC (adopt me) (heads s Lembryo) s) (\<lambda>s.
     bnd (for_each (\<lambda>i s. walk NPROC (adopt me) (heads s (Lready i)) s) [0..<Suc MAXPRIO] s) (\<lambda>s.
     bnd (walk NPROC (adopt me) (heads s Lrunning) s) (\<lambda>s.
     bnd (walk NPROC (adopt me) (heads s Lsleep) s) (\<lambda>s.
     bnd (walk NPROC (adopt_zombie me) (heads s Lzombie) s) (\<lambda>s.
     bnd (leave_list ''exit - remove from running failed'' Lrunning me RUNNING s) (\<lambda>s.
     bnd (enter_list stateListAdd Lzombie me ZOMBIE (set_state me ZOMBIE s)) (sched c))))))))"

definition exit :: "nat \<Rightarrow> 'a ftab_scheme \<Rightarrow> (bool \<times> 'a ftab_scheme) outcome" where
  "exit c s =
     bnd (deref (cur c s)) (\<lambda>me.
     if initproc s = Some me then Panic ''init exiting''
     else
       bnd (for_each (close_ofile c me) [0..<NOFILE] s) (\<lambda>s.
       bnd (begin_op c s) (\<lambda>s.
       bnd (deref (p_cwd (procs s me))) (\<lambda>cwd.
       bnd (iput c cwd s) (\<lambda>s.
       bnd (end_op c s) (\<lambda>s.
       bnd (acquire c Lk_ptable (upd_proc me (\<lambda>r. r\<lparr>p_cwd := None\<rparr>) s)) (exit_locked c me)))))))"

text \<open>What one round of \<^verbatim>\<open>wait\<close> comes to: a child was reaped, there is nothing to wait for, or the process has
  gone to sleep on itself, from where the next round starts with \<^verbatim>\<open>ptable.lock\<close> held.\<close>

datatype waited = Reaped uint32 | No_child | Asleep bool

definition reap :: "nat \<Rightarrow> nat \<Rightarrow> 'a kmem_scheme \<Rightarrow> (waited \<times> 'a kmem_scheme) outcome" where
  "reap c p s =
     (let pid = p_pid (procs s p)
      in bnd (kfree c (p_kstack (procs s p)) s) (\<lambda>s.
         bnd (freevm c (p_pgdir (procs s p)) (upd_proc p (\<lambda>r. r\<lparr>p_kstack := 0\<rparr>) s)) (\<lambda>s.
         bnd (leave_list ''wait - remove from zombie failed'' Lzombie p ZOMBIE s) (\<lambda>s.
         bnd (enter_list stateListAdd Lfree p UNUSED (set_state p UNUSED s)) (\<lambda>s.
         let s = upd_proc p (\<lambda>r. r\<lparr>p_pid := 0, p_parent := None, p_name := [], p_killed := False\<rparr>) s
         in bnd (release c Lk_ptable s) (\<lambda>s. Ok (Reaped pid, s)))))))"

definition child_of :: "nat \<Rightarrow> 'a ptab_scheme \<Rightarrow> nat \<Rightarrow> bool" where
  "child_of me s p \<longleftrightarrow> p_parent (procs s p) = Some me"

definition havekids :: "nat \<Rightarrow> 'a ptab_scheme \<Rightarrow> bool outcome" where
  "havekids me s =
     bnd (find_node NPROC (child_of me s) (heads s Lembryo) (procs s)) (\<lambda>a.
     bnd (find_ready [0..<Suc MAXPRIO] (child_of me s) s) (\<lambda>b.
     bnd (find_node NPROC (child_of me s) (heads s Lrunning) (procs s)) (\<lambda>d.
     bnd (find_node NPROC (child_of me s) (heads s Lsleep) (procs s)) (\<lambda>e.
     Ok (a \<noteq> None \<or> b \<noteq> None \<or> d \<noteq> None \<or> e \<noteq> None)))))"

definition wait_round :: "nat \<Rightarrow> nat \<Rightarrow> 'a kmem_scheme \<Rightarrow> (waited \<times> 'a kmem_scheme) outcome" where
  "wait_round c me s =
     bnd (find_node NPROC (child_of me s) (heads s Lzombie) (procs s)) (\<lambda>z.
     case z of
       Some p \<Rightarrow> reap c p s
     | None \<Rightarrow>
         bnd (havekids me s) (\<lambda>kids.
         if \<not> kids \<or> p_killed (procs s me)
         then bnd (release c Lk_ptable s) (\<lambda>s. Ok (No_child, s))
         else bnd (sleep c (Chan_proc me) (Some Lk_ptable) s) (\<lambda>(ie, s). Ok (Asleep ie, s))))"

definition wait :: "nat \<Rightarrow> 'a kmem_scheme \<Rightarrow> (waited \<times> 'a kmem_scheme) outcome" where
  "wait c s =
     bnd (acquire c Lk_ptable s) (\<lambda>s.
     bnd (deref (cur c s)) (\<lambda>me. wait_round c me s))"

definition wait_resume :: "nat \<Rightarrow> bool \<Rightarrow> 'a kmem_scheme \<Rightarrow> (waited \<times> 'a kmem_scheme) outcome" where
  "wait_resume c ie s =
     bnd (sleep_resume c (Some Lk_ptable) ie s) (\<lambda>s.
     bnd (deref (cur c s)) (\<lambda>me. wait_round c me s))"

text \<open>\<^verbatim>\<open>forkret\<close>; \<open>first\<close> is its static variable.\<close>

definition forkret :: "nat \<Rightarrow> bool \<Rightarrow> 'a conss_scheme \<Rightarrow> (bool \<times> 'a conss_scheme) outcome" where
  "forkret c first s =
     bnd (release c Lk_ptable s) (\<lambda>s.
     if first then bnd (iinit c ROOTDEV s) (\<lambda>s. bnd (initlog c ROOTDEV s) (\<lambda>s. Ok (False, s)))
     else Ok (False, s))"

section \<open>Processes in the table\<close>

text \<open>The routines of the configuration without lists.\<close>

definition take_slot_scan :: "nat \<Rightarrow> 'a ptab_scheme \<Rightarrow> (ptr \<times> 'a ptab_scheme) outcome" where
  "take_slot_scan c s =
     bnd (acquire c Lk_ptable s) (\<lambda>s.
     case find (\<lambda>p. p_state (procs s p) = UNUSED) [0..<NPROC] of
       None \<Rightarrow> bnd (release c Lk_ptable s) (\<lambda>s. Ok (None, s))
     | Some p \<Rightarrow>
         let s = (upd_proc p (\<lambda>r. r\<lparr>p_pid := nextpid s\<rparr>) (set_state p EMBRYO s))\<lparr>nextpid := nextpid s + 1\<rparr>
         in bnd (release c Lk_ptable s) (\<lambda>s. Ok (Some p, s)))"

definition wakeup1_scan :: "chan \<Rightarrow> 'a ptab_scheme \<Rightarrow> 'a ptab_scheme" where
  "wakeup1_scan ch s =
     fold (\<lambda>p s. if p_state (procs s p) = SLEEPING \<and> p_chan (procs s p) = ch then set_state p RUNNABLE s else s)
       [0..<NPROC] s"

definition kill_scan :: "nat \<Rightarrow> int \<Rightarrow> 'a ptab_scheme \<Rightarrow> (int \<times> 'a ptab_scheme) outcome" where
  "kill_scan c pid s =
     bnd (acquire c Lk_ptable s) (\<lambda>s.
     case find (\<lambda>p. has_pid s pid p) [0..<NPROC] of
       None \<Rightarrow> bnd (release c Lk_ptable s) (\<lambda>s. Ok (- 1, s))
     | Some p \<Rightarrow>
         let s = set_killed p s;
             s = (if p_state (procs s p) = SLEEPING then set_state p RUNNABLE s else s)
         in bnd (release c Lk_ptable s) (\<lambda>s. Ok (0, s)))"

definition adopt_scan :: "nat \<Rightarrow> nat \<Rightarrow> 'a ptab_scheme \<Rightarrow> 'a ptab_scheme" where
  "adopt_scan me p s =
     (if p_parent (procs s p) = Some me
      then
        let s = upd_proc p (\<lambda>r. r\<lparr>p_parent := initproc s\<rparr>) s
        in if p_state (procs s p) = ZOMBIE then wakeup1_scan (chan_of (initproc s)) s else s
      else s)"

definition exit_locked_scan :: "nat \<Rightarrow> nat \<Rightarrow> 'a ptab_scheme \<Rightarrow> (bool \<times> 'a ptab_scheme) outcome" where
  "exit_locked_scan c me s =
     (let s = wakeup1_scan (chan_of (p_parent (procs s me))) s;
          s = fold (adopt_scan me) [0..<NPROC] s
      in sched c (set_state me ZOMBIE s))"

text \<open>The scan of \<^verbatim>\<open>wait\<close>: the first zombie child, and whether there was any child before it.\<close>

definition wait_scan :: "nat \<Rightarrow> 'a ptab_scheme \<Rightarrow> ptr \<times> bool" where
  "wait_scan me s =
     (find (\<lambda>p. child_of me s p \<and> p_state (procs s p) = ZOMBIE) [0..<NPROC], \<exists>p \<in> set [0..<NPROC]. child_of me s p)"

text \<open>The loop of the scheduler over the table from slot \<open>i\<close>, up to the switch or to its end.\<close>

definition dispatch_scan :: "nat \<Rightarrow> nat \<Rightarrow> 'a ptab_scheme \<Rightarrow> 'a ptab_scheme outcome" where
  "dispatch_scan c p s =
     (let s = set_cur c (Some p) s;
          s = upd_proc p (\<lambda>r. r\<lparr>p_cpu_ticks_in := ticks s\<rparr>) s
      in bnd (switchuvm c p s) (\<lambda>s. Ok (set_state p RUNNING s)))"

definition scheduler_scan :: "nat \<Rightarrow> nat \<Rightarrow> 'a ptab_scheme \<Rightarrow> (scan \<times> 'a ptab_scheme) outcome" where
  "scheduler_scan c i s =
     (case find (\<lambda>p. p_state (procs s p) = RUNNABLE) [i..<NPROC] of
        None \<Rightarrow> Ok (Scan_done, s)
      | Some p \<Rightarrow> bnd (dispatch_scan c p s) (\<lambda>s. Ok (Dispatched p p, s)))"

end
