(* ===== verification/LifeProps.thy ===== *)
theory LifeProps
  imports ProcLife ProcProps
begin

text \<open>
  Correctness of the life cycle of processes: taking a slot, exit, and the searches of \<^verbatim>\<open>wait\<close>, on top of the
  invariant of the process table; and the equivalence of the list searches with the table scans of the other
  configuration.
\<close>

section \<open>Exit\<close>

text \<open>What the calls below leave alone.\<close>

definition stays :: "'a ptab_scheme \<Rightarrow> 'a ptab_scheme \<Rightarrow> bool" where
  "stays t s \<longleftrightarrow> locks t = locks s \<and> cpus t = cpus s \<and> initproc t = initproc s \<and> ticks t = ticks s \<and>
     ptab.more t = ptab.more s"

lemma staysD:
  assumes "stays t s"
  shows "locks t = locks s" "cpus t = cpus s" "initproc t = initproc s" "ticks t = ticks s" "ptab.more t = ptab.more s"
    "in_ptlock c t = in_ptlock c s" "cur c t = cur c s"
  using assms in_ptlock_cong [of t s c] by (simp_all add: stays_def cur_def)

lemma stays_refl [simp]: "stays s s"
  by (simp add: stays_def)

lemma stays_trans: "stays u t \<Longrightarrow> stays t s \<Longrightarrow> stays u s"
  by (simp add: stays_def)

lemma stays_payload: "payload t = payload s \<Longrightarrow> stays t s"
  using payload_eqD [of t s] by (simp add: stays_def)

lemma payload_parent:
  assumes "payload t = payload s"
  shows "p_parent (procs t i) = p_parent (procs s i)"
proof -
  have "p_parent ((procs t i)\<lparr>p_next := None\<rparr>) = p_parent ((procs s i)\<lparr>p_next := None\<rparr>)"
    by (rule arg_cong [OF payload_eqD(1) [OF assms]])
  then show ?thesis by simp
qed

text \<open>No process stops being ready.\<close>

definition keeps_ready :: "'a ptab_scheme \<Rightarrow> 'a ptab_scheme \<Rightarrow> bool" where
  "keeps_ready s t \<longleftrightarrow> (\<forall>p. p_state (procs s p) = RUNNABLE \<longrightarrow> p_state (procs t p) = RUNNABLE)"

lemma keeps_ready_refl [simp]: "keeps_ready s s"
  by (simp add: keeps_ready_def)

lemma keeps_ready_trans: "keeps_ready s t \<Longrightarrow> keeps_ready t u \<Longrightarrow> keeps_ready s u"
  by (simp add: keeps_ready_def)

text \<open>A wakeup moves processes from the sleep list to ready lists and leaves their parents alone.\<close>

lemma wakeup1_moves:
  assumes inv: "pinv s qs"
  shows "\<exists>t qs'. wakeup1 ch s = Ok t \<and> pinv t qs' \<and> stays t s \<and> keeps_ready s t \<and>
    (\<forall>p. p_parent (procs t p) = p_parent (procs s p)) \<and> (\<forall>l \<in> {Lfree, Lzombie, Lrunning, Lembryo}. qs' l = qs l)"
proof (cases "\<exists>p \<in> set (qs Lsleep). p_chan (procs s p) = ch")
  case False
  then show ?thesis using wakeup1_none [OF inv, of ch] inv by auto
next
  case True
  then obtain xs p ys where q: "qs Lsleep = xs @ p # ys" "p_chan (procs s p) = ch"
    "\<forall>x \<in> set xs. p_chan (procs s x) \<noteq> ch"
    by (rule split_list_first_pred)
  obtain t where t: "wakeup1 ch s = Ok t" "pinv t (mv Lsleep (ready (p_priority (procs s p))) p qs)"
    "payload t = payload (set_state p RUNNABLE s)"
    using wakeup1_first [OF inv q(1), of ch] q(2,3) by auto
  have "stays (set_state p RUNNABLE s) s" by (simp add: stays_def set_state_def upd_proc_def)
  then have "stays t s" using stays_trans [OF stays_payload [OF t(3)]] by blast
  moreover have "p_parent (procs t i) = p_parent (procs s i)" for i
    using payload_parent [OF t(3), of i] by (simp add: set_state_upd)
  moreover have "keeps_ready s t"
    using payload_fields(1) [OF t(3)] by (simp add: keeps_ready_def set_state_upd)
  ultimately show ?thesis using t by (intro exI [of _ t] exI [of _ "mv Lsleep (ready (p_priority (procs s p))) p qs"])
    (auto simp: ready_def mv_def)
qed

text \<open>The adoption of one process, as an update of its record.\<close>

definition adopted :: "nat \<Rightarrow> ptr \<Rightarrow> proc \<Rightarrow> proc" where
  "adopted me ini r = (if p_parent r = Some me then r\<lparr>p_parent := ini\<rparr> else r)"

lemma adopted_sel [simp]:
  "p_next (adopted me ini r) = p_next r" "p_state (adopted me ini r) = p_state r"
  "p_priority (adopted me ini r) = p_priority r" "adopted me ini (adopted me ini r) = adopted me ini r"
  by (simp_all add: adopted_def)

lemma upd_procs_sel2 [simp]:
  "initproc (upd_procs A f s) = initproc s" "stays (upd_procs A f s) s" "procs (upd_procs A f s) p = (if p \<in> A then f (procs s p) else procs s p)"
  by (simp_all add: upd_procs_def stays_def)

lemma pinv_adopted: "pinv (upd_procs A (adopted me ini) s) qs = pinv s qs"
  by (rule pinv_cong) (auto simp: nxt_def fun_eq_iff)

lemma upd_procs_Un: "upd_procs B (adopted me ini) (upd_procs A (adopted me ini) s) = upd_procs (A \<union> B) (adopted me ini) s"
  by (auto simp: upd_procs_def fun_eq_iff)

lemma walk_adopt:
  assumes q: "queues s qs" and i: "initproc s = ini"
  shows "walk NPROC (adopt me) (heads s l) s = Ok (upd_procs (set (qs l)) (adopted me ini) s)"
proof -
  let ?g = "\<lambda>p t. upd_proc p (adopted me (initproc t)) t"
  have b: "adopt me p t = Ok (?g p t)" for p and t :: "'a ptab_scheme"
    by (auto simp: adopt_def adopted_def upd_proc_def fun_eq_iff)
  have n: "nxt (?g p t) = nxt t" for p and t :: "'a ptab_scheme" by (auto simp: nxt_def upd_proc_def fun_eq_iff)
  have f: "fold ?g xs t = fold (\<lambda>p. upd_proc p (adopted me (initproc t))) xs t" for xs and t :: "'a ptab_scheme"
    by (induction xs arbitrary: t) (simp_all add: upd_proc_def)
  show ?thesis
    using walk_fold [where body = "adopt me" and g = ?g, OF queues_seg [OF q, of l] queues_length [OF q, of l] b n]
      f [of "qs l" s] fold_upd_proc [OF queues_distinct [OF q, of l], of "adopted me (initproc s)" s] i by simp
qed

lemma walk_adopt_ready:
  assumes "queues s qs" and "initproc s = ini"
  shows "for_each (\<lambda>i s. walk NPROC (adopt me) (heads s (Lready i)) s) is s =
    Ok (upd_procs (\<Union>i \<in> set is. set (qs (Lready i))) (adopted me ini) s)"
  using assms
proof (induction "is" arbitrary: s)
  case Nil
  then show ?case by simp
next
  case (Cons i "is")
  let ?s = "upd_procs (set (qs (Lready i))) (adopted me ini) s"
  have "queues ?s qs" using Cons.prems(1) by (rule iffD2 [OF queues_cong, rotated -1]) (auto simp: nxt_def fun_eq_iff)
  then show ?case using Cons.IH [of ?s] Cons.prems walk_adopt [OF Cons.prems, of me "Lready i"] by (simp add: upd_procs_Un)
qed

definition hd_ptr :: "nat list \<Rightarrow> ptr" where
  "hd_ptr xs = (case xs of [] \<Rightarrow> None | x # _ \<Rightarrow> Some x)"

lemma seg_next: "seg nx h (xs @ p # ys) None \<Longrightarrow> nx p = hd_ptr ys"
  using seg_hd by (auto simp: seg_append hd_ptr_def)

text \<open>The zombies in \<open>done\<close> have been adopted, and sleepers may have been woken.\<close>

definition adopted_upto :: "nat \<Rightarrow> nat set \<Rightarrow> 'a ptab_scheme \<Rightarrow> (lname \<Rightarrow> nat list) \<Rightarrow> 'a ptab_scheme \<Rightarrow> bool" where
  "adopted_upto me A s qs t \<longleftrightarrow> stays t s \<and> keeps_ready s t \<and>
     (\<exists>qs'. pinv t qs' \<and> (\<forall>l \<in> {Lfree, Lzombie, Lrunning, Lembryo}. qs' l = qs l)) \<and>
     (\<forall>p. p_parent (procs t p) = (if p \<in> A \<and> p_parent (procs s p) = Some me then initproc s else p_parent (procs s p)))"

lemma adopt_zombie_step:
  assumes z: "adopted_upto me A s qs t" and p: "p \<notin> A"
  shows "\<exists>u. adopt_zombie me p t = Ok u \<and> adopted_upto me (insert p A) s qs u"
proof -
  obtain qs' where q: "pinv t qs'" "\<forall>l \<in> {Lfree, Lzombie, Lrunning, Lembryo}. qs' l = qs l" and st: "stays t s"
    and kr: "keeps_ready s t" and pa: "\<And>i. p_parent (procs t i) = (if i \<in> A \<and> p_parent (procs s i) = Some me then initproc s else p_parent (procs s i))"
    using z by (auto simp: adopted_upto_def)
  show ?thesis
  proof (cases "p_parent (procs t p) = Some me")
    case False
    then have "adopt_zombie me p t = Ok t" by (simp add: adopt_zombie_def)
    moreover have "adopted_upto me (insert p A) s qs t" using z pa p False by (auto simp: adopted_upto_def split: if_splits)
    ultimately show ?thesis by blast
  next
    case True
    let ?t = "upd_proc p (\<lambda>r. r\<lparr>p_parent := initproc t\<rparr>) t"
    have "pinv ?t qs'" using q(1) by (subst pinv_upd_proc) simp_all
    from wakeup1_moves [OF this] obtain u qs2 where u: "wakeup1 (chan_of (initproc t)) ?t = Ok u" "pinv u qs2" "stays u ?t" "keeps_ready ?t u"
      "\<And>i. p_parent (procs u i) = p_parent (procs ?t i)" "\<forall>l \<in> {Lfree, Lzombie, Lrunning, Lembryo}. qs2 l = qs' l" by blast
    have "stays ?t t" by (simp add: stays_def upd_proc_def)
    then have "stays u s" using stays_trans [OF u(3)] stays_trans st by blast
    moreover have "p_parent (procs u i) = (if i \<in> insert p A \<and> p_parent (procs s i) = Some me then initproc s else p_parent (procs s i))" for i
      using u(5) [of i] pa [of i] pa [of p] True p staysD(3) [OF st] by auto
    moreover have "keeps_ready t ?t" by (simp add: keeps_ready_def)
    then have "keeps_ready s u" using keeps_ready_trans kr u(4) by blast
    ultimately have "adopted_upto me (insert p A) s qs u"
      using u(2,6) q(2) unfolding adopted_upto_def by (intro conjI exI [of _ qs2]) auto
    then show ?thesis using True u(1) by (simp add: adopt_zombie_def)
  qed
qed

lemma adopt_zombies_from:
  assumes "qs Lzombie = xs @ ys" and "distinct (xs @ ys)" and "length ys \<le> n" and "adopted_upto me (set xs) s qs t"
  shows "\<exists>u. walk n (adopt_zombie me) (hd_ptr ys) t = Ok u \<and> adopted_upto me (set (qs Lzombie)) s qs u"
  using assms
proof (induction ys arbitrary: n xs t)
  case Nil
  then show ?case by (auto simp: hd_ptr_def)
next
  case (Cons p ys)
  then obtain m where m: "n = Suc m" by (cases n) auto
  have "p \<notin> set xs" using Cons.prems(2) by simp
  from adopt_zombie_step [OF Cons.prems(4) this] obtain u where
    u: "adopt_zombie me p t = Ok u" "adopted_upto me (set (xs @ [p])) s qs u" by auto
  obtain qs' where q: "pinv u qs'" "qs' Lzombie = qs Lzombie" using u(2) by (auto simp: adopted_upto_def)
  have "seg (nxt u) (heads u Lzombie) (xs @ p # ys) None"
    using queues_seg [OF pinv_queues [OF q(1)], of Lzombie] q(2) Cons.prems(1) by simp
  then have nx: "p_next (procs u p) = hd_ptr ys" using seg_next by (fastforce simp: nxt_def)
  have "\<exists>v. walk m (adopt_zombie me) (hd_ptr ys) u = Ok v \<and> adopted_upto me (set (qs Lzombie)) s qs v"
    by (rule Cons.IH [OF _ _ _ u(2)]) (use Cons.prems m in simp_all)
  then show ?case using u(1) nx m by (simp add: hd_ptr_def)
qed

lemma adopt_zombies:
  assumes inv: "pinv s qs"
  shows "\<exists>u. walk NPROC (adopt_zombie me) (heads s Lzombie) s = Ok u \<and> adopted_upto me (set (qs Lzombie)) s qs u"
proof -
  have "adopted_upto me (set []) s qs s" using inv by (auto simp: adopted_upto_def)
  moreover have "heads s Lzombie = hd_ptr (qs Lzombie)" using queues_head [OF pinv_queues [OF inv]] by (simp add: hd_ptr_def)
  ultimately show ?thesis
    using adopt_zombies_from [of qs "[]" "qs Lzombie" NPROC me s s] queues_distinct [OF pinv_queues [OF inv]]
      queues_length [OF pinv_queues [OF inv]] by simp
qed

text \<open>The slots that the four groups of loops before the zombies visit.\<close>

definition visited :: "(lname \<Rightarrow> nat list) \<Rightarrow> nat set" where
  "visited qs = set (qs Lembryo) \<union> (\<Union>i \<in> {0..MAXPRIO}. set (qs (Lready i))) \<union> set (qs Lrunning) \<union> set (qs Lsleep)"

lemma visited_iff:
  assumes "pinv s qs" and "p < NPROC"
  shows "p \<in> visited qs \<longleftrightarrow> p \<notin> set (qs Lfree) \<and> p \<notin> set (qs Lzombie)"
proof -
  have "unat (p_priority (procs s p)) \<le> MAXPRIO" by (rule pinv_prio [OF assms])
  then show ?thesis using pinv_iff [OF assms]
    by (cases "p_state (procs s p)") (auto simp: visited_def list_of_def ready_def)
qed

lemma adopt_all:
  fixes me :: nat
  assumes inv: "pinv s qs"
  defines "f \<equiv> adopted me (initproc s)"
  shows "bnd (walk NPROC (adopt me) (heads s Lembryo) s) (\<lambda>s.
     bnd (for_each (\<lambda>i s. walk NPROC (adopt me) (heads s (Lready i)) s) [0..<Suc MAXPRIO] s) (\<lambda>s.
     bnd (walk NPROC (adopt me) (heads s Lrunning) s) (\<lambda>s.
     bnd (walk NPROC (adopt me) (heads s Lsleep) s) k))) = k (upd_procs (visited qs) f s)"
proof -
  have q: "queues (upd_procs A f s) qs" for A
    using inv pinv_adopted [of A me "initproc s" s qs] by (simp add: f_def pinv_queues)
  have w: "walk NPROC (adopt me) (heads s l) (upd_procs A f s) = Ok (upd_procs (A \<union> set (qs l)) f s)" for A l
    using walk_adopt [OF q, of A "initproc s" me l] by (simp add: f_def upd_procs_Un)
  have r: "for_each (\<lambda>i s. walk NPROC (adopt me) (heads s (Lready i)) s) [0..<Suc MAXPRIO] (upd_procs A f s)
      = Ok (upd_procs (A \<union> (\<Union>i \<in> {0..MAXPRIO}. set (qs (Lready i)))) f s)" for A
    using walk_adopt_ready [OF q, of A "initproc s" me "[0..<Suc MAXPRIO]"]
    by (simp add: f_def upd_procs_Un atLeastLessThanSuc_atLeastAtMost del: upt_Suc)
  show ?thesis using w [of Lembryo "{}"] by (simp add: r w visited_def del: upt_Suc for_each.simps)
qed

lemma exit_locked_ok:
  assumes inv: "pinv s qs" and lk: "in_ptlock c s" and me: "cur c s = Some me" "me \<in> set (qs Lrunning)"
  shows "\<exists>ie t qs' t1. exit_locked c me s = Ok (ie, t) \<and> pinv t qs' \<and> in_ptlock c t \<and>
    wakeup1 (chan_of (p_parent (procs s me))) s = Ok t1 \<and>
    (\<forall>p. p \<noteq> me \<longrightarrow> p_state (procs t1 p) = RUNNABLE \<longrightarrow> p_state (procs t p) = RUNNABLE) \<and>
    qs' Lzombie = qs Lzombie @ [me] \<and> qs' Lrunning = remove1 me (qs Lrunning) \<and> qs' Lfree = qs Lfree \<and>
    (\<forall>p < NPROC. p_parent (procs t p) =
      (if p_parent (procs s p) = Some me \<and> p_state (procs s p) \<noteq> UNUSED then initproc s else p_parent (procs s p)))"
proof -
  obtain t1 qs1 where t1: "wakeup1 (chan_of (p_parent (procs s me))) s = Ok t1" "pinv t1 qs1" "stays t1 s"
    "keeps_ready s t1" "\<And>p. p_parent (procs t1 p) = p_parent (procs s p)" "\<forall>l \<in> {Lfree, Lzombie, Lrunning, Lembryo}. qs1 l = qs l"
    using wakeup1_moves [OF inv] by blast
  define t2 where "t2 = upd_procs (visited qs1) (adopted me (initproc t1)) t1"
  have "pinv t2 qs1" using t1(2) by (simp add: t2_def pinv_adopted)
  from adopt_zombies [OF this, of me] obtain t3 qs3 where
    t3: "walk NPROC (adopt_zombie me) (heads t2 Lzombie) t2 = Ok t3" "stays t3 t2" "keeps_ready t2 t3" "pinv t3 qs3"
      "\<forall>l \<in> {Lfree, Lzombie, Lrunning, Lembryo}. qs3 l = qs1 l"
      "\<And>p. p_parent (procs t3 p) =
        (if p \<in> set (qs1 Lzombie) \<and> p_parent (procs t2 p) = Some me then initproc t2 else p_parent (procs t2 p))"
    unfolding adopted_upto_def by blast
  have "stays t2 t1" by (simp add: t2_def)
  then have st3: "stays t3 s" by (rule stays_trans [OF stays_trans [OF t3(2)] t1(3)])
  have mr: "me \<in> set (qs3 Lrunning)" using t3(5) t1(6) me(2) by simp
  obtain u where u: "leave_list ''exit - remove from running failed'' Lrunning me RUNNING t3 = Ok u"
    "queues u (qs3(Lrunning := remove1 me (qs3 Lrunning)))" "payload u = payload t3"
    using leave_ok [OF t3(4) mr, unfolded state_of_simps] by blast
  have "filed Lzombie ((procs t3 me)\<lparr>p_state := ZOMBIE\<rparr>)" by (simp add: filed_def)
  then obtain v where v: "enter_list stateListAdd Lzombie me ZOMBIE (set_state me ZOMBIE u) = Ok v"
    "pinv v (mv Lrunning Lzombie me qs3)" "payload v = payload (set_state me ZOMBIE t3)"
    using enter_tail [OF t3(4) mr _ _ u(2,3) link_free_simps(3), of Lzombie ZOMBIE] pinv_prio [OF t3(4) pinv_bound [OF t3(4) mr]]
    by (auto simp: set_state_def)
  have "stays (set_state me ZOMBIE t3) t3" by (simp add: stays_def set_state_def upd_proc_def)
  then have sv: "stays v s" using stays_trans [OF stays_payload [OF v(3)]] stays_trans st3 by blast
  have "p_state (procs v me) = ZOMBIE" using payload_fields(1) [OF v(3), of me] by (simp add: set_state_def)
  then have sc: "sched c v = Ok (c_intena (cpus v c), upd_proc me (accounted (ticks v)) v)"
    using sched_ok [of c v me] staysD(6,7) [OF sv] lk me(1) by (simp add: accounted_def [abs_def])
  let ?t = "upd_proc me (accounted (ticks v)) v"
  have ex: "exit_locked c me s = Ok (c_intena (cpus v c), ?t)"
    unfolding exit_locked_def
    by (simp add: t1(1) adopt_all [OF t1(2)] t2_def [symmetric] t3(1) u(1) v(1) sc del: upt_Suc for_each.simps)
  have pa: "p_parent (procs ?t p) = p_parent (procs t3 p)" for p
    using payload_parent [OF v(3), of p] by (simp add: set_state_upd accounted_def split: if_splits)
  have pb: "p_parent (procs t3 p) =
      (if p_parent (procs s p) = Some me \<and> p_state (procs s p) \<noteq> UNUSED then initproc s else p_parent (procs s p))"
    if p: "p < NPROC" for p
  proof -
    have "p \<in> set (qs1 Lfree) \<longleftrightarrow> p_state (procs s p) = UNUSED"
      using t1(6) pinv_iff [OF inv p, of Lfree] by (cases "p_state (procs s p)") (auto simp: list_of_def ready_def)
    moreover have "\<not> (p \<in> set (qs1 Lfree) \<and> p \<in> set (qs1 Lzombie))" using pinv_iff [OF t1(2) p] by auto
    ultimately show ?thesis using t3(6) [of p] t1(5) [of p] visited_iff [OF t1(2) p] staysD(3) [OF t1(3)]
      by (auto simp: t2_def adopted_def)
  qed
  have "pinv ?t (mv Lrunning Lzombie me qs3)" using v(2) by (simp add: pinv_accounted)
  moreover have "in_ptlock c ?t" using staysD(6) [OF sv] lk by simp
  moreover have "mv Lrunning Lzombie me qs3 Lzombie = qs Lzombie @ [me]"
    "mv Lrunning Lzombie me qs3 Lrunning = remove1 me (qs Lrunning)" "mv Lrunning Lzombie me qs3 Lfree = qs Lfree"
    using t3(5) t1(6) by simp_all
  moreover have "\<forall>p < NPROC. p_parent (procs ?t p) =
      (if p_parent (procs s p) = Some me \<and> p_state (procs s p) \<noteq> UNUSED then initproc s else p_parent (procs s p))"
    by (intro allI impI) (rule trans [OF pa pb])
  moreover have "p_state (procs ?t p) = RUNNABLE" if "p \<noteq> me" "p_state (procs t1 p) = RUNNABLE" for p
  proof -
    have "p_state (procs t3 p) = RUNNABLE" using t3(3) that(2) by (simp add: keeps_ready_def t2_def)
    then show ?thesis using payload_fields(1) [OF v(3), of p] that(1) by (simp add: set_state_upd)
  qed
  ultimately show ?thesis using ex t1(1) by blast
qed

text \<open>C14: The locked part of \<^verbatim>\<open>exit\<close> moves the running process to the end of the zombie list, gives every live
  child to \<^verbatim>\<open>initproc\<close>, keeps the process table well-formed, and switches away with \<^verbatim>\<open>ptable.lock\<close> held; it never
  returns an error.\<close>

theorem exit_leaves_zombie:
  assumes inv: "pinv s qs" and lk: "in_ptlock c s" and me: "cur c s = Some me" "me \<in> set (qs Lrunning)"
  shows "\<exists>ie t qs'. exit_locked c me s = Ok (ie, t) \<and> pinv t qs' \<and> in_ptlock c t \<and>
    qs' Lzombie = qs Lzombie @ [me] \<and> qs' Lrunning = remove1 me (qs Lrunning) \<and> qs' Lfree = qs Lfree \<and>
    (\<forall>p < NPROC. p_parent (procs t p) =
      (if p_parent (procs s p) = Some me \<and> p_state (procs s p) \<noteq> UNUSED then initproc s else p_parent (procs s p)))"
  using exit_locked_ok [OF assms] by blast

theorem exit_leaves_zombie_witness:
  "\<exists>ie t qs'. exit_locked 0 0 (locked_by 0 Lk_ptable demo_st) = Ok (ie, t) \<and> pinv t qs' \<and>
    0 \<in> set (qs' Lzombie) \<and> qs' Lrunning = []"
proof -
  have "pinv (locked_by 0 Lk_ptable demo_st) (qs_of demo)" using demo_inv by simp
  moreover have "cur 0 (locked_by 0 Lk_ptable demo_st) = Some 0"
    using demo_cur by (simp add: cur_def locked_by_def pushed_def)
  ultimately show ?thesis
    using exit_leaves_zombie [of "locked_by 0 Lk_ptable demo_st" "qs_of demo" 0 0]
      in_ptlock_locked_by [OF demo_out] by (fastforce simp: demo_qs)
qed

text \<open>C15: A parent asleep in \<^verbatim>\<open>wait\<close> is made ready by the exit of its child: if it sleeps on itself, and nobody before it
  on the sleep list uses that channel, it is \<^verbatim>\<open>RUNNABLE\<close> and on a ready list when the child switches away.\<close>

theorem exit_wakes_waiting_parent:
  assumes "pinv s qs" and "in_ptlock c s" and "cur c s = Some me" and "me \<in> set (qs Lrunning)"
    and "p_parent (procs s me) = Some q" and "qs Lsleep = xs @ q # ys" and "p_chan (procs s q) = Chan_proc q"
    and "\<forall>x \<in> set xs. p_chan (procs s x) \<noteq> Chan_proc q"
  shows "\<exists>ie t qs'. exit_locked c me s = Ok (ie, t) \<and> pinv t qs' \<and> p_state (procs t q) = RUNNABLE \<and>
    (\<exists>i \<le> MAXPRIO. q \<in> set (qs' (Lready i)))"
proof -
  obtain ie t qs' t1 where t: "exit_locked c me s = Ok (ie, t)" "pinv t qs'"
    "wakeup1 (chan_of (p_parent (procs s me))) s = Ok t1"
    "\<And>p. p \<noteq> me \<Longrightarrow> p_state (procs t1 p) = RUNNABLE \<Longrightarrow> p_state (procs t p) = RUNNABLE"
    using exit_locked_ok [OF assms(1-4)] by blast
  have "payload t1 = payload (set_state q RUNNABLE s)"
    using wakeup1_first [OF assms(1,6-8)] t(3) assms(5) by (auto simp: chan_of_def)
  then have "p_state (procs t1 q) = RUNNABLE" using payload_fields(1) by (fastforce simp: set_state_upd)
  moreover have q: "q \<in> set (qs Lsleep)" using assms(6) by simp
  then have "q \<noteq> me" using pinv_state [OF assms(1,4)] pinv_state [OF assms(1) q] by auto
  ultimately have r: "p_state (procs t q) = RUNNABLE" using t(4) by blast
  have b: "q < NPROC" using pinv_bound [OF assms(1) q] .
  have "q \<in> set (qs' (ready (p_priority (procs t q))))" using pinv_iff [OF t(2) b] r by (simp add: list_of_def)
  then show ?thesis using t(1,2) r pinv_prio [OF t(2) b] by (auto simp: ready_def)
qed

text \<open>A child running in slot 0, its parent waiting in slot 1.\<close>

definition family :: "nat \<Rightarrow> proc" where
  "family p = (if p = 0 then (mk_proc RUNNING 2 0)\<lparr>p_parent := Some 1\<rparr>
     else if p = 1 then (mk_proc SLEEPING 1 0)\<lparr>p_chan := Chan_proc 1\<rparr> else blank_proc)"

definition family_st :: ptab where
  "family_st = locked_by 0 Lk_ptable (set_cur 0 (Some 0) (mk_tab family))"

lemma family_qs: "qs_of family Lrunning = [0]" "qs_of family Lsleep = [1]" "qs_of family Lzombie = []"
  unfolding qs_of_def upt_64 by (auto simp: list_of_def family_def intro!: filter_False)

lemma family_st_ok:
  "pinv family_st (qs_of family)" "in_ptlock 0 family_st" "cur 0 family_st = Some 0"
  "p_parent (procs family_st 0) = Some 1" "p_chan (procs family_st 1) = Chan_proc 1"
proof -
  have "pinv (mk_tab family) (qs_of family)" by (rule pinv_mk_tab) (simp add: family_def MAXPRIO_def)
  then show "pinv family_st (qs_of family)" by (simp add: family_st_def set_cur_def)
  have "out_ptlock 0 (set_cur 0 (Some 0) (mk_tab family))"
    by (simp add: out_ptlock_def lock_free_def set_cur_def mk_tab_def idle_cpu_def upd_cpu_def)
  then show "in_ptlock 0 family_st" unfolding family_st_def by (rule in_ptlock_locked_by)
qed (simp_all add: family_st_def family_def cur_def set_cur_def upd_cpu_def mk_tab_def locked_by_def pushed_def)

theorem exit_wakes_waiting_parent_witness:
  "\<exists>ie t qs'. exit_locked 0 0 family_st = Ok (ie, t) \<and> pinv t qs' \<and> p_state (procs t 1) = RUNNABLE"
  using exit_wakes_waiting_parent [of family_st "qs_of family" 0 0 1 "[]" "[]"] family_st_ok by (auto simp: family_qs)

section \<open>Wait\<close>

text \<open>C36: The searches of \<^verbatim>\<open>wait\<close> through the state lists find what the scan of the whole table finds: they end, there is a
  zombie child on the zombie list exactly if the scan meets one, and otherwise they agree on whether there is any
  child to wait for. Unused slots have no parent.\<close>

theorem wait_lists_match_scan:
  assumes inv: "pinv s qs" and un: "\<forall>p < NPROC. p_state (procs s p) = UNUSED \<longrightarrow> p_parent (procs s p) = None"
  shows "\<exists>z k. find_node NPROC (child_of me s) (heads s Lzombie) (procs s) = Ok z \<and> havekids me s = Ok k \<and>
    (z = None \<longleftrightarrow> fst (wait_scan me s) = None) \<and> (z = None \<longrightarrow> k = snd (wait_scan me s)) \<and>
    (\<forall>p. z = Some p \<longrightarrow> p < NPROC \<and> child_of me s p \<and> p_state (procs s p) = ZOMBIE)"
proof -
  note q = pinv_queues [OF inv]
  let ?C = "child_of me s"
  let ?k = "find ?C (qs Lembryo) \<noteq> None \<or> first_ready [0..<Suc MAXPRIO] ?C qs \<noteq> None \<or> find ?C (qs Lrunning) \<noteq> None \<or>
    find ?C (qs Lsleep) \<noteq> None"
  have k: "havekids me s = Ok ?k"
    by (simp add: havekids_def find_node_queues [OF q] find_ready_queues [OF q] del: upt_Suc)
  have z: "p \<in> set (qs Lzombie) \<longleftrightarrow> p < NPROC \<and> p_state (procs s p) = ZOMBIE" for p
    using pinv_iff [OF inv, of p Lzombie] pinv_bound [OF inv, of p Lzombie] pinv_state [OF inv, of p Lzombie]
    by (cases "p_state (procs s p)") (auto simp: list_of_def ready_def)
  have v: "?k \<longleftrightarrow> (\<exists>p \<in> visited qs. ?C p)"
    by (auto simp: find_None_iff first_ready_None visited_def atLeastLessThanSuc_atLeastAtMost simp del: upt_Suc)
  have 1: "find ?C (qs Lzombie) = None \<longleftrightarrow> fst (wait_scan me s) = None"
    by (auto simp: wait_scan_def find_None_iff z)
  have 2: "?k = snd (wait_scan me s)" if n: "find ?C (qs Lzombie) = None"
  proof -
    have "p \<in> visited qs" if "p < NPROC" "?C p" for p
      using that visited_iff [OF inv that(1)] n pinv_state [OF inv, of p Lfree] un
      by (auto simp: find_None_iff child_of_def)
    moreover have "p < NPROC" if "p \<in> visited qs" for p
      using that pinv_bound [OF inv] by (auto simp: visited_def)
    ultimately show ?thesis unfolding v wait_scan_def by auto
  qed
  have 3: "p < NPROC \<and> ?C p \<and> p_state (procs s p) = ZOMBIE" if "find ?C (qs Lzombie) = Some p" for p
    using find_SomeD [OF that] z by blast
  show ?thesis
    by (rule exI [of _ "find ?C (qs Lzombie)"], rule exI [of _ ?k])
      (rule conjI [OF find_node_queues [OF q] conjI [OF k conjI [OF 1 conjI]]]; (intro allI impI)?; erule 2 3)
qed

theorem wait_lists_match_scan_witness:
  "find_node NPROC (child_of 1 family_st) (heads family_st Lzombie) (procs family_st) = Ok None \<and>
    havekids 1 family_st = Ok True"
proof -
  have "\<forall>p < NPROC. p_state (procs family_st p) = UNUSED \<longrightarrow> p_parent (procs family_st p) = None"
    by (simp add: family_st_def family_def mk_proc_def blank_proc_def set_cur_def)
  moreover have "fst (wait_scan 1 family_st) = None" "snd (wait_scan 1 family_st)"
    by (auto simp: wait_scan_def find_None_iff child_of_def family_st_def set_cur_def family_def NPROC_def)
  ultimately show ?thesis
    using wait_lists_match_scan [OF family_st_ok(1), of 1] by auto
qed

section \<open>A new process\<close>

lemma env_upd_proc:
  assumes "\<And>r. p_next (f r) = p_next r" and "\<And>r. p_state (f r) = p_state r" and "\<And>r. p_priority (f r) = p_priority r"
  shows "env c L (upd_proc p f s) = env c L s"
  by (simp add: env_def pinv_upd_proc assms holding_def lock_free_def)

lemma take_slot_ok:
  assumes inv: "pinv s qs" and e: "env c {} s" and q: "qs Lfree = p # ps"
  shows "\<exists>t. take_slot c s = Ok (Some p, t) \<and> env c {} t \<and> pinv t (mvh Lfree Lembryo p qs) \<and> p_pid (procs t p) = nextpid s \<and>
    nextpid t = nextpid s + 1 \<and> ptab.more t = ptab.more s"
proof -
  let ?s = "locked_by c Lk_ptable s" and ?f = "\<lambda>r. r\<lparr>p_state := EMBRYO\<rparr>"
  note a = env_acquire [OF e, of Lk_ptable, simplified]
  have inv1: "pinv ?s qs" and p: "p \<in> set (qs Lfree)" using inv q by simp_all
  obtain u where u: "leave_list ''alloc - remove from free failed'' Lfree p UNUSED ?s = Ok u"
    "queues u (qs(Lfree := remove1 p (qs Lfree)))" "payload u = payload ?s"
    using leave_ok [OF inv1 p, unfolded state_of_simps] by blast
  have "filed Lembryo (?f (procs ?s p))" by (simp add: filed_def)
  then obtain v where v: "enter_list stateListAddAtHead Lembryo p EMBRYO (set_state p EMBRYO u) = Ok v"
    "pinv v (mvh Lfree Lembryo p qs)" "payload v = payload (set_state p EMBRYO ?s)"
    using enter_head [OF inv1 p _ _ u(2,3) link_free_simps(3), of Lembryo EMBRYO] pinv_prio [OF inv1 pinv_bound [OF inv1 p]]
    by (auto simp: set_state_def)
  let ?w = "(upd_proc p (\<lambda>r. r\<lparr>p_pid := nextpid v\<rparr>) v)\<lparr>nextpid := nextpid v + 1\<rparr>"
  have n: "nextpid v = nextpid s" using payload_eqD [OF v(3)] by (simp add: set_state_upd upd_proc_def locked_by_def)
  have "env c {Lk_ptable} v" by (rule env_procs [OF a(2) v(3,2)])
  then have "env c {Lk_ptable} (upd_proc p (\<lambda>r. r\<lparr>p_pid := nextpid v\<rparr>) v)" by (simp add: env_upd_proc)
  then have ew: "env c {Lk_ptable} ?w" by (subst env_more) simp_all
  note b = env_release [OF ew, of Lk_ptable, simplified]
  have "pinv ?w (mvh Lfree Lembryo p qs)"
    using v(2) by (subst pinv_cong [where s = v]) (auto simp: nxt_def fun_eq_iff)
  moreover have "ptab.more ?w = ptab.more s"
    using payload_more [OF v(3)] by (simp add: set_state_upd upd_proc_def)
  ultimately show ?thesis
    using b n u(1) v(1) queues_head [OF pinv_queues [OF inv1], of Lfree] q
    by (simp add: take_slot_def a(1) Let_def)
qed

lemma pinv_set_priority:
  assumes inv: "pinv s qs" and "p_state (procs s p) \<noteq> RUNNABLE" and "unat i \<le> MAXPRIO"
  shows "pinv (upd_proc p (\<lambda>r. r\<lparr>p_priority := i\<rparr>) s) qs"
  unfolding pinv_def
proof (intro conjI)
  show "queues (upd_proc p (\<lambda>r. r\<lparr>p_priority := i\<rparr>) s) qs"
    using pinv_queues [OF inv] by (simp add: queues_upd_proc)
  show "\<forall>l. \<forall>q \<in> set (qs l). filed l (procs (upd_proc p (\<lambda>r. r\<lparr>p_priority := i\<rparr>) s) q)"
    using pinv_filed [OF inv] assms(2) by (auto simp: filed_def split: lname.splits)
qed (use inv assms(3) in \<open>auto simp: pinv_def\<close>)

lemma more_kmem:
  assumes "ptab.more t = ptab.more s"
  shows "freelist t = freelist s" "mem t = mem s"
  using assms by (cases s; cases t; simp)+

lemma env_klockable: "env c {} s \<Longrightarrow> klockable c s"
  by (auto simp: env_def klockable_def irq_ok_def)

text \<open>C27: \<^verbatim>\<open>allocproc\<close> with a free slot and a free page takes the first slot of the free list: it becomes an embryo with the
  next pid, a kernel stack, a context that starts in \<^verbatim>\<open>forkret\<close>, the top priority and a full budget; the process
  table stays well-formed and \<^verbatim>\<open>ptable.lock\<close> is free again.\<close>

theorem allocproc_makes_embryo:
  assumes inv: "pinv s qs" and e: "env c {} s" and q: "qs Lfree = p # ps" and k: "freelist s \<noteq> 0"
  shows "\<exists>t. allocproc c s = Ok (Some p, t) \<and> pinv t (mvh Lfree Lembryo p qs) \<and> lock_free Lk_ptable t \<and>
    p_state (procs t p) = EMBRYO \<and> p_pid (procs t p) = nextpid s \<and> nextpid t = nextpid s + 1 \<and>
    p_kstack (procs t p) = freelist s \<and> x_eip (p_context (procs t p)) = K_forkret \<and>
    p_priority (procs t p) = 0 \<and> p_budget (procs t p) = MAXBUDG \<and> p_cpu_ticks_total (procs t p) = 0"
proof -
  obtain u where u: "take_slot c s = Ok (Some p, u)" "env c {} u" "pinv u (mvh Lfree Lembryo p qs)" "p_pid (procs u p) = nextpid s"
    "nextpid u = nextpid s + 1" "ptab.more u = ptab.more s"
    using take_slot_ok [OF inv e q] by blast
  let ?v = "(kcycle c u)\<lparr>freelist := ld32 (freelist u) (mem u)\<rparr>"
  let ?t = "upd_proc p (setup_stack (freelist u) (ticks ?v)) ?v"
  have f: "freelist u = freelist s" by (rule more_kmem [OF u(6)])
  have "allocproc c s = Ok (Some p, ?t)"
    using u(1) k f by (simp add: allocproc_def kalloc_eq [OF env_klockable [OF u(2)]])
  moreover have st: "p_state (procs u p) = EMBRYO" using pinv_state [OF u(3), of p Lembryo] by (simp add: mvh_def)
  have "pinv (upd_proc p (\<lambda>r. r\<lparr>p_priority := 0\<rparr>) u) (mvh Lfree Lembryo p qs)"
    by (rule pinv_set_priority [OF u(3)]) (simp_all add: st)
  then have "pinv ?t (mvh Lfree Lembryo p qs)"
    by (rule iffD2 [OF pinv_cong, rotated -1])
      (auto simp: nxt_def fun_eq_iff setup_stack_def Let_def kcycle_def upd_cpu_def)
  moreover have "lock_free Lk_ptable ?t" using u(2) by (simp add: env_def lock_free_def)
  ultimately show ?thesis using u(4,5) st f by (simp add: setup_stack_def Let_def kcycle_def upd_cpu_def)
qed

text \<open>C37: When no page is left for the kernel stack, \<^verbatim>\<open>allocproc\<close> fails and leaves the slot \<^verbatim>\<open>UNUSED\<close> at the head of the embryo
  list: line 115 tests \<^verbatim>\<open>CS33_P3P4\<close>, which nothing defines, so the code that moves it back to the free list is
  never compiled. No assignment of queues makes the resulting table well-formed.\<close>

theorem allocproc_failure_breaks_lists:
  assumes inv: "pinv s qs" and e: "env c {} s" and q: "qs Lfree = p # ps" and k: "freelist s = 0"
  shows "\<exists>t. allocproc c s = Ok (None, t) \<and> heads t Lembryo = Some p \<and> p_state (procs t p) = UNUSED \<and>
    (\<forall>qs'. \<not> pinv t qs')"
proof -
  obtain u where u: "take_slot c s = Ok (Some p, u)" "env c {} u" "pinv u (mvh Lfree Lembryo p qs)" "ptab.more u = ptab.more s"
    using take_slot_ok [OF inv e q] by blast
  let ?t = "set_state p UNUSED (upd_proc p (\<lambda>r. r\<lparr>p_kstack := 0\<rparr>) (kcycle c u))"
  have "freelist u = freelist s" by (rule more_kmem [OF u(4)])
  then have "allocproc c s = Ok (None, ?t)"
    using u(1) k by (simp add: allocproc_def kalloc_eq [OF env_klockable [OF u(2)]])
  moreover have h: "heads ?t Lembryo = Some p"
    using queues_head [OF pinv_queues [OF u(3)], of Lembryo] by (simp add: mvh_def set_state_upd kcycle_def)
  moreover have st: "p_state (procs ?t p) = UNUSED" by (simp add: set_state_upd)
  moreover have "\<not> pinv ?t qs'" for qs'
  proof
    assume i: "pinv ?t qs'"
    then have "p \<in> set (qs' Lembryo)"
      using queues_head [OF pinv_queues [OF i], of Lembryo] h by (auto split: list.splits)
    then show False using pinv_state [OF i] st by fastforce
  qed
  ultimately show ?thesis by blast
qed

lemma demo_kmem_free: "pinv demo_kmem (qs_of (\<lambda>_. blank_proc))" "qs_of (\<lambda>_. blank_proc) Lfree = 0 # [1..<NPROC]"
proof -
  have "pinv (mk_tab (\<lambda>_. blank_proc)) (qs_of (\<lambda>_. blank_proc))" by (rule pinv_mk_tab) (simp add: blank_proc_def)
  then show "pinv demo_kmem (qs_of (\<lambda>_. blank_proc))"
    by (rule iffD2 [OF pinv_cong, rotated -1]) (simp_all add: demo_kmem_def ptab.defs nxt_def fun_eq_iff)
  show "qs_of (\<lambda>_. blank_proc) Lfree = 0 # [1..<NPROC]"
    by (simp add: qs_of_def list_of_def upt_conv_Cons NPROC_def)
qed

theorem allocproc_makes_embryo_witness:
  "\<exists>t. allocproc 0 (demo_kmem\<lparr>freelist := 0x80200000\<rparr>) = Ok (Some 0, t) \<and> p_state (procs t 0) = EMBRYO \<and>
    p_kstack (procs t 0) = 0x80200000"
proof -
  let ?s = "demo_kmem\<lparr>freelist := 0x80200000\<rparr>"
  have "pinv ?s (qs_of (\<lambda>_. blank_proc))"
    using demo_kmem_free(1) by (rule iffD2 [OF pinv_cong, rotated -1]) (simp_all add: nxt_def fun_eq_iff)
  moreover have "env 0 {} ?s" by (rule env_demo) simp_all
  ultimately show ?thesis
    using allocproc_makes_embryo [of ?s "qs_of (\<lambda>_. blank_proc)" 0 0] demo_kmem_free(2) by auto
qed

theorem allocproc_failure_breaks_lists_witness:
  "\<exists>t. allocproc 0 demo_kmem = Ok (None, t) \<and> heads t Lembryo = Some 0 \<and> p_state (procs t 0) = UNUSED \<and> (\<nexists>qs'. pinv t qs')"
proof -
  have "env 0 {} demo_kmem" by (rule env_demo) simp_all
  then show ?thesis
    using allocproc_failure_breaks_lists [OF demo_kmem_free(1), of 0 0] demo_kmem_free(2) by auto
qed

end
