(* ===== verification/Sysproc.thy ===== *)
theory Sysproc
  imports ProcLife Exec
begin

text \<open>
  The system calls on processes, \<^verbatim>\<open>src/sysproc.c\<close>, with \<^verbatim>\<open>getprocs\<close> of \<^verbatim>\<open>src/proc.c\<close> and the clock of
  \<^verbatim>\<open>src/lapic.c\<close>. A handler either returns a value or leaves the CPU: \<open>Left ie\<close> is the state in which the scheduler
  takes over, \<open>ie\<close> being the interrupt flag that \<^verbatim>\<open>sched\<close> saved. The registers of the real-time clock are given
  by their values at the successive reads.
\<close>

datatype sysret = Ret int | Left bool

type_synonym rtc = "nat \<Rightarrow> uint32 \<Rightarrow> uchar"

section \<open>The clock\<close>

record rtcdate =
  second :: uint32
  minute :: uint32
  hour :: uint32
  day :: uint32
  month :: uint32
  year :: uint32

definition fill_rtcdate :: "rtc \<Rightarrow> nat \<Rightarrow> rtcdate" where
  "fill_rtcdate rd i =
     \<lparr>second = ucast (rd i 0x00), minute = ucast (rd (i + 1) 0x02), hour = ucast (rd (i + 2) 0x04),
      day = ucast (rd (i + 3) 0x07), month = ucast (rd (i + 4) 0x08), year = ucast (rd (i + 5) 0x09)\<rparr>"

partial_function (option) cmos_stable :: "rtc \<Rightarrow> nat \<Rightarrow> rtcdate option" where
  "cmos_stable rd i =
     (if bit (rd (i + 6) 0x0a) 7 then cmos_stable rd (i + 7)
      else if fill_rtcdate rd i = fill_rtcdate rd (i + 7) then Some (fill_rtcdate rd i)
      else cmos_stable rd (i + 13))"

definition conv :: "uint32 \<Rightarrow> uint32" where
  "conv x = drop_bit 4 x * 10 + (x AND 0xf)"

definition cmostime :: "rtc \<Rightarrow> rtcdate option" where
  "cmostime rd =
     (let bcd = (rd 0 0x0b AND 4 = 0)
      in map_option (\<lambda>t.
           let t = (if bcd
                    then \<lparr>second = conv (second t), minute = conv (minute t), hour = conv (hour t),
                          day = conv (day t), month = conv (month t), year = conv (year t)\<rparr>
                    else t)
           in t\<lparr>year := year t + 2000\<rparr>) (cmos_stable rd 1))"

section \<open>Process listing\<close>

definition STRMAX :: nat where "STRMAX = 32"

text \<open>The assignments to \<^verbatim>\<open>t[size]\<close>, a structure of 96 bytes at the user address \<open>a\<close>.\<close>

definition put_uproc :: "nat \<Rightarrow> uint32 \<Rightarrow> nat \<Rightarrow> 'a kmem_scheme \<Rightarrow> 'a kmem_scheme outcome" where
  "put_uproc c a p s =
     (let r = procs s p
      in bnd (deref (p_parent r)) (\<lambda>q.
         for_each (\<lambda>(off, bs). uwrites c (a + off) bs)
           [(0, le32 (p_pid r)), (4, le32 (p_uid r)), (8, le32 (p_gid r)), (12, le32 (p_pid (procs s q))),
            (16, le32 (of_nat MAXPRIO - p_priority r)), (20, le32 (ticks s - p_start_ticks r)),
            (24, le32 (p_cpu_ticks_total r)), (60, le32 (p_sz r)),
            (28, take (STRMAX - 1) (state_name (p_state r)) @ [0]),
            (64, take (STRMAX - 1) (bytes (p_name r)) @ [0])] s))"

fun getprocs_from :: "nat \<Rightarrow> int \<Rightarrow> uint32 \<Rightarrow> nat \<Rightarrow> nat list \<Rightarrow> 'a kmem_scheme \<Rightarrow> (nat \<times> 'a kmem_scheme) outcome" where
  "getprocs_from c mx t n [] s = Ok (n, s)"
| "getprocs_from c mx t n (p # ps) s =
     (if int n \<ge> mx then Ok (n, s)
      else if p_state (procs s p) \<noteq> EMBRYO \<and> p_state (procs s p) \<noteq> UNUSED
      then bnd (put_uproc c (t + 96 * of_nat n) p s) (getprocs_from c mx t (Suc n) ps)
      else getprocs_from c mx t n ps s)"

definition getprocs :: "nat \<Rightarrow> int \<Rightarrow> uint32 \<Rightarrow> 'a kmem_scheme \<Rightarrow> (nat \<times> 'a kmem_scheme) outcome" where
  "getprocs c mx t s = getprocs_from c mx t 0 [0..<NPROC] s"

section \<open>Handlers\<close>

text \<open>Handlers that fetch a number first: -1 where that fails.\<close>

definition with_int :: "nat \<Rightarrow> nat \<Rightarrow> (uint32 \<Rightarrow> (sysret \<times> 'a kmem_scheme) outcome) \<Rightarrow> 'a kmem_scheme \<Rightarrow> (sysret \<times> 'a kmem_scheme) outcome" where
  "with_int c n f s = bnd (argint c n s) (\<lambda>r. case r of None \<Rightarrow> Ok (Ret (- 1), s) | Some w \<Rightarrow> f w)"

definition ret :: "(int \<times> 's) outcome \<Rightarrow> (sysret \<times> 's) outcome" where
  "ret m = bnd m (\<lambda>(r, s). Ok (Ret r, s))"

definition sys_fork :: "nat \<Rightarrow> 'a ftab_scheme \<Rightarrow> (sysret \<times> 'a ftab_scheme) outcome" where
  "sys_fork c s = ret (fork c s)"

definition sys_exit :: "nat \<Rightarrow> 'a ftab_scheme \<Rightarrow> (sysret \<times> 'a ftab_scheme) outcome" where
  "sys_exit c s = bnd (exit c s) (\<lambda>(ie, s). Ok (Left ie, s))"

definition wait_result :: "waited \<Rightarrow> sysret" where
  "wait_result w = (case w of Reaped pid \<Rightarrow> Ret (sint pid) | No_child \<Rightarrow> Ret (- 1) | Asleep ie \<Rightarrow> Left ie)"

definition sys_wait :: "nat \<Rightarrow> 'a ftab_scheme \<Rightarrow> (sysret \<times> 'a ftab_scheme) outcome" where
  "sys_wait c s = bnd (wait c s) (\<lambda>(w, s). Ok (wait_result w, s))"

definition sys_kill :: "nat \<Rightarrow> 'a ftab_scheme \<Rightarrow> (sysret \<times> 'a ftab_scheme) outcome" where
  "sys_kill c s = with_int c 0 (\<lambda>pid. ret (kill c (sint pid) s)) s"

definition sys_getpid :: "nat \<Rightarrow> 'a ftab_scheme \<Rightarrow> (sysret \<times> 'a ftab_scheme) outcome" where
  "sys_getpid c s = bnd (deref (cur c s)) (\<lambda>me. Ok (Ret (sint (p_pid (procs s me))), s))"

definition sys_sbrk :: "nat \<Rightarrow> 'a ftab_scheme \<Rightarrow> (sysret \<times> 'a ftab_scheme) outcome" where
  "sys_sbrk c s = with_int c 0 (\<lambda>n.
     bnd (deref (cur c s)) (\<lambda>me.
     let addr = p_sz (procs s me)
     in bnd (growproc c (sint n) s) (\<lambda>(r, s). Ok (Ret (if r < 0 then - 1 else sint addr), s)))) s"

text \<open>The loop of \<^verbatim>\<open>sys_sleep\<close>, whose comparison is unsigned; a process that has slept starts it again.\<close>

definition sleep_round :: "nat \<Rightarrow> uint32 \<Rightarrow> uint32 \<Rightarrow> 'a ftab_scheme \<Rightarrow> (sysret \<times> 'a ftab_scheme) outcome" where
  "sleep_round c ticks0 n s =
     (if ticks s - ticks0 < n
      then
        bnd (cur_killed c s) (\<lambda>kl.
        if kl then Ok (Ret (- 1), s)
        else bnd (sleep c Chan_ticks None s) (\<lambda>(ie, s). Ok (Left ie, s)))
      else Ok (Ret 0, s))"

definition sys_sleep :: "nat \<Rightarrow> 'a ftab_scheme \<Rightarrow> (sysret \<times> 'a ftab_scheme) outcome" where
  "sys_sleep c s = with_int c 0 (\<lambda>n. sleep_round c (ticks s) n s) s"

definition sys_sleep_resume :: "nat \<Rightarrow> bool \<Rightarrow> uint32 \<Rightarrow> uint32 \<Rightarrow> 'a ftab_scheme \<Rightarrow> (sysret \<times> 'a ftab_scheme) outcome" where
  "sys_sleep_resume c ie ticks0 n s = bnd (sleep_resume c None ie s) (sleep_round c ticks0 n)"

definition sys_uptime :: "nat \<Rightarrow> 'a ftab_scheme \<Rightarrow> (sysret \<times> 'a ftab_scheme) outcome" where
  "sys_uptime c s = Ok (Ret (sint (ticks s)), s)"

definition sys_halt :: "nat \<Rightarrow> 'a ftab_scheme \<Rightarrow> (sysret \<times> 'a ftab_scheme) outcome" where
  "sys_halt c s = bnd (cprintf c (bytes ''Shutting down ...'' @ [10]) [] s) (\<lambda>s. Ok (Ret 0, s))"

definition rtcdate_bytes :: "rtcdate \<Rightarrow> uchar list" where
  "rtcdate_bytes t = concat (map le32 [second t, minute t, hour t, day t, month t, year t])"

definition sys_date :: "rtc \<Rightarrow> nat \<Rightarrow> 'a ftab_scheme \<Rightarrow> (sysret \<times> 'a ftab_scheme) outcome" where
  "sys_date rd c s =
     bnd (argptr c 0 24 s) (\<lambda>r.
     case r of
       None \<Rightarrow> Ok (Ret (- 1), s)
     | Some d \<Rightarrow>
         (case cmostime rd of
            None \<Rightarrow> Spin
          | Some t \<Rightarrow> bnd (uwrites c d (rtcdate_bytes t) s) (\<lambda>s. Ok (Ret 0, s))))"

definition sys_getuid :: "nat \<Rightarrow> 'a ftab_scheme \<Rightarrow> (sysret \<times> 'a ftab_scheme) outcome" where
  "sys_getuid c s = bnd (deref (cur c s)) (\<lambda>me. Ok (Ret (sint (p_uid (procs s me))), s))"

definition sys_getgid :: "nat \<Rightarrow> 'a ftab_scheme \<Rightarrow> (sysret \<times> 'a ftab_scheme) outcome" where
  "sys_getgid c s = bnd (deref (cur c s)) (\<lambda>me. Ok (Ret (sint (p_gid (procs s me))), s))"

definition sys_getppid :: "nat \<Rightarrow> 'a ftab_scheme \<Rightarrow> (sysret \<times> 'a ftab_scheme) outcome" where
  "sys_getppid c s =
     bnd (deref (cur c s)) (\<lambda>me.
     bnd (deref (p_parent (procs s me))) (\<lambda>q. Ok (Ret (sint (p_pid (procs s q))), s)))"

definition sys_setuid :: "nat \<Rightarrow> 'a ftab_scheme \<Rightarrow> (sysret \<times> 'a ftab_scheme) outcome" where
  "sys_setuid c s = with_int c 0 (\<lambda>n.
     if sint n < 0 \<or> sint n > 32767 then Ok (Ret (- 2), s)
     else bnd (deref (cur c s)) (\<lambda>me. Ok (Ret 0, upd_proc me (\<lambda>r. r\<lparr>p_uid := n\<rparr>) s))) s"

definition sys_setgid :: "nat \<Rightarrow> 'a ftab_scheme \<Rightarrow> (sysret \<times> 'a ftab_scheme) outcome" where
  "sys_setgid c s = with_int c 0 (\<lambda>n.
     if sint n < 0 \<or> sint n > 32767 then Ok (Ret (- 2), s)
     else bnd (deref (cur c s)) (\<lambda>me. Ok (Ret 0, upd_proc me (\<lambda>r. r\<lparr>p_gid := n\<rparr>) s))) s"

definition sys_getprocs :: "nat \<Rightarrow> 'a ftab_scheme \<Rightarrow> (sysret \<times> 'a ftab_scheme) outcome" where
  "sys_getprocs c s = with_int c 0 (\<lambda>n.
     if sint n < 0 \<or> sint n > 32767 then Ok (Ret (- 1), s)
     else
       bnd (argptr c 1 (96 * sint n) s) (\<lambda>r.
       case r of
         None \<Rightarrow> Ok (Ret (- 2), s)
       | Some t \<Rightarrow> bnd (getprocs c (sint n) t s) (\<lambda>(k, s). Ok (Ret (int k), s)))) s"

definition sys_getPriority :: "nat \<Rightarrow> 'a ftab_scheme \<Rightarrow> (sysret \<times> 'a ftab_scheme) outcome" where
  "sys_getPriority c s = with_int c 0 (\<lambda>pid.
     if sint pid < 0 \<or> sint pid > 32767 then Ok (Ret (- 1), s)
     else bnd (getPriority (sint pid) s) (\<lambda>r. Ok (Ret r, s))) s"

definition sys_setPriority :: "nat \<Rightarrow> 'a ftab_scheme \<Rightarrow> (sysret \<times> 'a ftab_scheme) outcome" where
  "sys_setPriority c s = with_int c 0 (\<lambda>pid. with_int c 1 (\<lambda>nprio.
     if sint pid < 0 \<or> sint pid > 32767 then Ok (Ret (- 1), s)
     else if sint nprio < 0 \<or> sint nprio > 32767 then Ok (Ret (- 1), s)
     else ret (setPriority c (sint pid) (sint nprio) s)) s) s"

end
