(* ===== verification/Sysfile.thy ===== *)
theory Sysfile
  imports ProcLife Exec
begin

text \<open>
  The system calls on files, \<^verbatim>\<open>src/sysfile.c\<close>. Each handler returns the C result beside the state; path
  arguments stay in user memory and are read there when they are used.
\<close>

section \<open>Descriptors\<close>

definition O_RDONLY :: uint32 where "O_RDONLY = 0x000"
definition O_WRONLY :: uint32 where "O_WRONLY = 0x001"
definition O_RDWR :: uint32 where "O_RDWR = 0x002"
definition O_CREATE :: uint32 where "O_CREATE = 0x200"

definition argfd :: "nat \<Rightarrow> nat \<Rightarrow> 'a kmem_scheme \<Rightarrow> (nat \<times> nat) option outcome" where
  "argfd c n s =
     bnd (argint c n s) (\<lambda>r.
     case r of
       None \<Rightarrow> Ok None
     | Some fd \<Rightarrow>
         bnd (deref (cur c s)) (\<lambda>me.
         Ok (if sint fd < 0 \<or> sint fd \<ge> int NOFILE then None
             else case p_ofile (procs s me) (unat fd) of None \<Rightarrow> None | Some f \<Rightarrow> Some (unat fd, f))))"

definition fdalloc :: "nat \<Rightarrow> nat \<Rightarrow> 'a ptab_scheme \<Rightarrow> (nat option \<times> 'a ptab_scheme) outcome" where
  "fdalloc c f s =
     bnd (deref (cur c s)) (\<lambda>me.
     case find (\<lambda>fd. p_ofile (procs s me) fd = None) [0..<NOFILE] of
       None \<Rightarrow> Ok (None, s)
     | Some fd \<Rightarrow> Ok (Some fd, upd_proc me (\<lambda>r. r\<lparr>p_ofile := (p_ofile r)(fd := Some f)\<rparr>) s))"

definition fdclear :: "nat \<Rightarrow> nat \<Rightarrow> 'a ptab_scheme \<Rightarrow> 'a ptab_scheme outcome" where
  "fdclear c fd s = bnd (deref (cur c s)) (\<lambda>me. Ok (upd_proc me (\<lambda>r. r\<lparr>p_ofile := (p_ofile r)(fd := None)\<rparr>) s))"

definition sys_dup :: "nat \<Rightarrow> 'a ftab_scheme \<Rightarrow> (int \<times> 'a ftab_scheme) outcome" where
  "sys_dup c s =
     bnd (argfd c 0 s) (\<lambda>r.
     case r of
       None \<Rightarrow> Ok (- 1, s)
     | Some (_, f) \<Rightarrow>
         bnd (fdalloc c f s) (\<lambda>(fd, s).
         case fd of
           None \<Rightarrow> Ok (- 1, s)
         | Some fd \<Rightarrow> bnd (filedup c f s) (\<lambda>(_, s). Ok (int fd, s))))"

text \<open>The arguments of \<^verbatim>\<open>read\<close> and \<^verbatim>\<open>write\<close>: the file, the buffer and its length.\<close>

definition rw_args :: "nat \<Rightarrow> 'a kmem_scheme \<Rightarrow> (nat \<times> uint32 \<times> int) option outcome" where
  "rw_args c s =
     bnd (argfd c 0 s) (\<lambda>r.
     case r of
       None \<Rightarrow> Ok None
     | Some (_, f) \<Rightarrow>
         bnd (argint c 2 s) (\<lambda>n.
         case n of
           None \<Rightarrow> Ok None
         | Some n \<Rightarrow> bnd (argptr c 1 (sint n) s) (\<lambda>p. Ok (case p of None \<Rightarrow> None | Some p \<Rightarrow> Some (f, p, sint n)))))"

definition sys_read :: "nat \<Rightarrow> 'a ftab_scheme \<Rightarrow> (int \<times> 'a ftab_scheme) outcome" where
  "sys_read c s =
     bnd (rw_args c s) (\<lambda>r. case r of None \<Rightarrow> Ok (- 1, s) | Some (f, p, n) \<Rightarrow> fileread c f p n s)"

definition sys_write :: "nat \<Rightarrow> 'a ftab_scheme \<Rightarrow> (int \<times> 'a ftab_scheme) outcome" where
  "sys_write c s =
     bnd (rw_args c s) (\<lambda>r. case r of None \<Rightarrow> Ok (- 1, s) | Some (f, p, n) \<Rightarrow> filewrite c f p n s)"

definition sys_close :: "nat \<Rightarrow> 'a ftab_scheme \<Rightarrow> (int \<times> 'a ftab_scheme) outcome" where
  "sys_close c s =
     bnd (argfd c 0 s) (\<lambda>r.
     case r of
       None \<Rightarrow> Ok (- 1, s)
     | Some (fd, f) \<Rightarrow>
         bnd (fdclear c fd s) (\<lambda>s.
         bnd (fileclose c f s) (\<lambda>s. Ok (0, s))))"

definition sys_fstat :: "nat \<Rightarrow> 'a ftab_scheme \<Rightarrow> (int \<times> 'a ftab_scheme) outcome" where
  "sys_fstat c s =
     bnd (argfd c 0 s) (\<lambda>r.
     case r of
       None \<Rightarrow> Ok (- 1, s)
     | Some (_, f) \<Rightarrow>
         bnd (argptr c 1 28 s) (\<lambda>p. case p of None \<Rightarrow> Ok (- 1, s) | Some a \<Rightarrow> filestat c f a s))"

section \<open>Names\<close>

text \<open>\<open>fail\<close> ends a transaction and returns -1.\<close>

definition fail :: "nat \<Rightarrow> 'a logst_scheme \<Rightarrow> (int \<times> 'a logst_scheme) outcome" where
  "fail c s = bnd (end_op c s) (\<lambda>s. Ok (- 1, s))"

definition add_nlink :: "ushort \<Rightarrow> dinode \<Rightarrow> dinode" where
  "add_nlink k r = r\<lparr>d_nlink := d_nlink r + k\<rparr>"

text \<open>The label \<^verbatim>\<open>bad\<close> of \<^verbatim>\<open>sys_link\<close>.\<close>

definition link_bad :: "nat \<Rightarrow> nat \<Rightarrow> 'a ftab_scheme \<Rightarrow> (int \<times> 'a ftab_scheme) outcome" where
  "link_bad c ip s =
     bnd (ilock c (Some ip) s) (\<lambda>s.
     bnd (iupdate c ip (upd_dinode ip (add_nlink (- 1)) s)) (\<lambda>s.
     bnd (iunlockput c ip s) (fail c)))"

definition sys_link :: "nat \<Rightarrow> 'a ftab_scheme \<Rightarrow> (int \<times> 'a ftab_scheme) outcome" where
  "sys_link c s =
     bnd (argstr c 0 s) (\<lambda>old.
     case old of None \<Rightarrow> Ok (- 1, s) | Some old \<Rightarrow>
     bnd (argstr c 1 s) (\<lambda>new.
     case new of None \<Rightarrow> Ok (- 1, s) | Some new \<Rightarrow>
     bnd (begin_op c s) (\<lambda>s.
     bnd (user_str c old s) (\<lambda>ob.
     bnd (namei c ob s) (\<lambda>(r, s).
     case r of None \<Rightarrow> fail c s | Some ip \<Rightarrow>
     bnd (ilock c (Some ip) s) (\<lambda>s.
     if d_type (i_d (inodes s ip)) = T_DIR then bnd (iunlockput c ip s) (fail c)
     else
       bnd (iupdate c ip (upd_dinode ip (add_nlink 1) s)) (\<lambda>s.
       bnd (iunlock c (Some ip) s) (\<lambda>s.
       bnd (user_str c new s) (\<lambda>nb.
       bnd (nameiparent c nb s) (\<lambda>(r, s).
       case r of None \<Rightarrow> link_bad c ip s | Some (dp, nm) \<Rightarrow>
       bnd (ilock c (Some dp) s) (\<lambda>s.
       bnd (if i_dev (inodes s dp) \<noteq> i_dev (inodes s ip) then Ok (- 1, s)
            else dirlink c dp nm (i_inum (inodes s ip)) s) (\<lambda>(r, s).
       if r < 0 then bnd (iunlockput c dp s) (link_bad c ip)
       else
         bnd (iunlockput c dp s) (\<lambda>s.
         bnd (iput c ip s) (\<lambda>s.
         bnd (end_op c s) (\<lambda>s. Ok (0, s))))))))))))))))"

fun isdirempty_from :: "nat \<Rightarrow> nat \<Rightarrow> nat \<Rightarrow> uint32 \<Rightarrow> 'a conss_scheme \<Rightarrow> (bool \<times> 'a conss_scheme) outcome" where
  "isdirempty_from 0 c dp off s = Spin"
| "isdirempty_from (Suc k) c dp off s =
     (if off < d_size (i_d (inodes s dp))
      then
        bnd (readi c dp off 16 s) (\<lambda>(r, bs, s).
        if r \<noteq> 16 then Panic ''isdirempty: readi''
        else if de_inum (dirent_of bs) \<noteq> 0 then Ok (False, s)
        else isdirempty_from k c dp (off + 16) s)
      else Ok (True, s))"

definition isdirempty :: "nat \<Rightarrow> nat \<Rightarrow> 'a conss_scheme \<Rightarrow> (bool \<times> 'a conss_scheme) outcome" where
  "isdirempty c dp s = isdirempty_from (unat (d_size (i_d (inodes s dp))) div 16 + 2) c dp 32 s"

text \<open>The label \<^verbatim>\<open>bad\<close> of \<^verbatim>\<open>sys_unlink\<close>, and its removal of the entry at \<open>off\<close>.\<close>

definition unlink_bad :: "nat \<Rightarrow> nat \<Rightarrow> 'a ftab_scheme \<Rightarrow> (int \<times> 'a ftab_scheme) outcome" where
  "unlink_bad c dp s = bnd (iunlockput c dp s) (fail c)"

definition unlink_entry :: "nat \<Rightarrow> nat \<Rightarrow> nat \<Rightarrow> uint32 \<Rightarrow> 'a ftab_scheme \<Rightarrow> (int \<times> 'a ftab_scheme) outcome" where
  "unlink_entry c dp ip off s =
     bnd (writei c dp (replicate 16 0) off s) (\<lambda>(r, s).
     if r \<noteq> 16 then Panic ''unlink: writei''
     else
       bnd (if d_type (i_d (inodes s ip)) = T_DIR
            then iupdate c dp (upd_dinode dp (add_nlink (- 1)) s)
            else Ok s) (\<lambda>s.
       bnd (iunlockput c dp s) (\<lambda>s.
       bnd (iupdate c ip (upd_dinode ip (add_nlink (- 1)) s)) (\<lambda>s.
       bnd (iunlockput c ip s) (\<lambda>s.
       bnd (end_op c s) (\<lambda>s. Ok (0, s)))))))"

definition sys_unlink :: "nat \<Rightarrow> 'a ftab_scheme \<Rightarrow> (int \<times> 'a ftab_scheme) outcome" where
  "sys_unlink c s =
     bnd (argstr c 0 s) (\<lambda>path.
     case path of None \<Rightarrow> Ok (- 1, s) | Some path \<Rightarrow>
     bnd (begin_op c s) (\<lambda>s.
     bnd (user_str c path s) (\<lambda>bs.
     bnd (nameiparent c bs s) (\<lambda>(r, s).
     case r of None \<Rightarrow> fail c s | Some (dp, nm) \<Rightarrow>
     bnd (ilock c (Some dp) s) (\<lambda>s.
     if namecmp nm (bytes ''.'') = 0 \<or> namecmp nm (bytes ''..'') = 0 then unlink_bad c dp s
     else
       bnd (dirlookup c dp nm s) (\<lambda>(r, s).
       case r of None \<Rightarrow> unlink_bad c dp s | Some (ip, off) \<Rightarrow>
       bnd (ilock c (Some ip) s) (\<lambda>s.
       if sint (d_nlink (i_d (inodes s ip))) < 1 then Panic ''unlink: nlink < 1''
       else
         bnd (if d_type (i_d (inodes s ip)) = T_DIR then isdirempty c ip s else Ok (True, s)) (\<lambda>(empty, s).
         if \<not> empty then bnd (iunlockput c ip s) (unlink_bad c dp)
         else unlink_entry c dp ip off s))))))))"

definition FILE_MODE :: uint32 where "FILE_MODE = 0x1ED"

text \<open>\<^verbatim>\<open>create\<close> from line 257 on, when the name is not in the directory yet.\<close>

definition create_new :: "nat \<Rightarrow> nat \<Rightarrow> uchar list \<Rightarrow> ushort \<Rightarrow> ushort \<Rightarrow> ushort \<Rightarrow> 'a ftab_scheme \<Rightarrow> (ptr \<times> 'a ftab_scheme) outcome" where
  "create_new c dp nm ty major minor s =
     bnd (ialloc c (i_dev (inodes s dp)) ty s) (\<lambda>(ip, s).
     bnd (ilock c (Some ip) s) (\<lambda>s.
     bnd (iupdate c ip (upd_dinode ip (\<lambda>r. r\<lparr>d_major := major, d_minor := minor, d_nlink := 1,
            d_uid := 0, d_gid := 0, d_mode := FILE_MODE\<rparr>) s)) (\<lambda>s.
     bnd (if ty = T_DIR
          then
            bnd (iupdate c dp (upd_dinode dp (add_nlink 1) s)) (\<lambda>s.
            bnd (dirlink c ip (bytes ''.'') (i_inum (inodes s ip)) s) (\<lambda>(r, s).
            if r < 0 then Panic ''create dots''
            else
              bnd (dirlink c ip (bytes ''..'') (i_inum (inodes s dp)) s) (\<lambda>(r, s).
              if r < 0 then Panic ''create dots'' else Ok s)))
          else Ok s) (\<lambda>s.
     bnd (dirlink c dp nm (i_inum (inodes s ip)) s) (\<lambda>(r, s).
     if r < 0 then Panic ''create: dirlink''
     else bnd (iunlockput c dp s) (\<lambda>s. Ok (Some ip, s)))))))"

definition create :: "nat \<Rightarrow> uint32 \<Rightarrow> ushort \<Rightarrow> ushort \<Rightarrow> ushort \<Rightarrow> 'a ftab_scheme \<Rightarrow> (ptr \<times> 'a ftab_scheme) outcome" where
  "create c path ty major minor s =
     bnd (user_str c path s) (\<lambda>bs.
     bnd (nameiparent c bs s) (\<lambda>(r, s).
     case r of None \<Rightarrow> Ok (None, s) | Some (dp, nm) \<Rightarrow>
     bnd (ilock c (Some dp) s) (\<lambda>s.
     bnd (dirlookup c dp nm s) (\<lambda>(r, s).
     case r of
       Some (ip, _) \<Rightarrow>
         bnd (iunlockput c dp s) (\<lambda>s.
         bnd (ilock c (Some ip) s) (\<lambda>s.
         if ty = T_FILE \<and> d_type (i_d (inodes s ip)) = T_FILE then Ok (Some ip, s)
         else bnd (iunlockput c ip s) (\<lambda>s. Ok (None, s))))
     | None \<Rightarrow> create_new c dp nm ty major minor s))))"

text \<open>\<^verbatim>\<open>sys_open\<close> from line 321 on: \<open>ip\<close> is locked.\<close>

definition open_inode :: "nat \<Rightarrow> nat \<Rightarrow> uint32 \<Rightarrow> 'a ftab_scheme \<Rightarrow> (int \<times> 'a ftab_scheme) outcome" where
  "open_inode c ip omode s =
     bnd (filealloc c s) (\<lambda>(f, s).
     case f of
       None \<Rightarrow> bnd (iunlockput c ip s) (fail c)
     | Some f \<Rightarrow>
         bnd (fdalloc c f s) (\<lambda>(fd, s).
         case fd of
           None \<Rightarrow> bnd (fileclose c f s) (\<lambda>s. bnd (iunlockput c ip s) (fail c))
         | Some fd \<Rightarrow>
             bnd (iunlock c (Some ip) s) (\<lambda>s.
             bnd (end_op c s) (\<lambda>s.
             Ok (int fd, upd_file f (\<lambda>r. r\<lparr>f_type := FD_INODE, f_ip := Some ip, f_off := 0,
               f_readable := (omode AND O_WRONLY = 0),
               f_writable := (omode AND O_WRONLY \<noteq> 0 \<or> omode AND O_RDWR \<noteq> 0)\<rparr>) s)))))"

definition sys_open :: "nat \<Rightarrow> 'a ftab_scheme \<Rightarrow> (int \<times> 'a ftab_scheme) outcome" where
  "sys_open c s =
     bnd (argstr c 0 s) (\<lambda>path.
     case path of None \<Rightarrow> Ok (- 1, s) | Some path \<Rightarrow>
     bnd (argint c 1 s) (\<lambda>omode.
     case omode of None \<Rightarrow> Ok (- 1, s) | Some omode \<Rightarrow>
     bnd (begin_op c s) (\<lambda>s.
     if omode AND O_CREATE \<noteq> 0
     then
       bnd (create c path T_FILE 0 0 s) (\<lambda>(r, s).
       case r of None \<Rightarrow> fail c s | Some ip \<Rightarrow> open_inode c ip omode s)
     else
       bnd (user_str c path s) (\<lambda>bs.
       bnd (namei c bs s) (\<lambda>(r, s).
       case r of
         None \<Rightarrow> fail c s
       | Some ip \<Rightarrow>
           bnd (ilock c (Some ip) s) (\<lambda>s.
           if d_type (i_d (inodes s ip)) = T_DIR \<and> omode \<noteq> O_RDONLY
           then bnd (iunlockput c ip s) (fail c)
           else open_inode c ip omode s))))))"

text \<open>What \<^verbatim>\<open>sys_mkdir\<close> and \<^verbatim>\<open>sys_mknod\<close> do with what \<^verbatim>\<open>create\<close> returns.\<close>

definition made :: "nat \<Rightarrow> ptr \<times> 'a ftab_scheme \<Rightarrow> (int \<times> 'a ftab_scheme) outcome" where
  "made c rs =
     (let (r, s) = rs
      in case r of
           None \<Rightarrow> fail c s
         | Some ip \<Rightarrow> bnd (iunlockput c ip s) (\<lambda>s. bnd (end_op c s) (\<lambda>s. Ok (0, s))))"

definition sys_mkdir :: "nat \<Rightarrow> 'a ftab_scheme \<Rightarrow> (int \<times> 'a ftab_scheme) outcome" where
  "sys_mkdir c s =
     bnd (begin_op c s) (\<lambda>s.
     bnd (argstr c 0 s) (\<lambda>path.
     case path of None \<Rightarrow> fail c s | Some path \<Rightarrow> bnd (create c path T_DIR 0 0 s) (made c)))"

definition sys_mknod :: "nat \<Rightarrow> 'a ftab_scheme \<Rightarrow> (int \<times> 'a ftab_scheme) outcome" where
  "sys_mknod c s =
     bnd (begin_op c s) (\<lambda>s.
     bnd (argstr c 0 s) (\<lambda>path.
     case path of None \<Rightarrow> fail c s | Some path \<Rightarrow>
     bnd (argint c 1 s) (\<lambda>major.
     case major of None \<Rightarrow> fail c s | Some major \<Rightarrow>
     bnd (argint c 2 s) (\<lambda>minor.
     case minor of None \<Rightarrow> fail c s | Some minor \<Rightarrow>
     bnd (create c path T_DEV (ucast major) (ucast minor) s) (made c)))))"

definition sys_chdir :: "nat \<Rightarrow> 'a ftab_scheme \<Rightarrow> (int \<times> 'a ftab_scheme) outcome" where
  "sys_chdir c s =
     bnd (begin_op c s) (\<lambda>s.
     bnd (argstr c 0 s) (\<lambda>path.
     case path of None \<Rightarrow> fail c s | Some path \<Rightarrow>
     bnd (user_str c path s) (\<lambda>bs.
     bnd (namei c bs s) (\<lambda>(r, s).
     case r of None \<Rightarrow> fail c s | Some ip \<Rightarrow>
     bnd (ilock c (Some ip) s) (\<lambda>s.
     if d_type (i_d (inodes s ip)) \<noteq> T_DIR then bnd (iunlockput c ip s) (fail c)
     else
       bnd (iunlock c (Some ip) s) (\<lambda>s.
       bnd (deref (cur c s)) (\<lambda>me.
       bnd (deref (p_cwd (procs s me))) (\<lambda>cwd.
       bnd (iput c cwd s) (\<lambda>s.
       bnd (end_op c s) (\<lambda>s.
       Ok (0, upd_proc me (\<lambda>r. r\<lparr>p_cwd := Some ip\<rparr>) s)))))))))))"

text \<open>The loop of \<^verbatim>\<open>sys_exec\<close> over the argument vector, from its entry \<open>i\<close>.\<close>

fun exec_args :: "nat \<Rightarrow> nat \<Rightarrow> uint32 \<Rightarrow> nat \<Rightarrow> 'a kmem_scheme \<Rightarrow> uint32 list option outcome" where
  "exec_args 0 c uargv i s = Ok None"
| "exec_args (Suc k) c uargv i s =
     bnd (fetchint c (uargv + 4 * of_nat i) s) (\<lambda>r.
     case r of None \<Rightarrow> Ok None | Some uarg \<Rightarrow>
     if uarg = 0 then Ok (Some [])
     else
       bnd (fetchstr c uarg s) (\<lambda>l.
       case l of None \<Rightarrow> Ok None | Some _ \<Rightarrow>
       bnd (exec_args k c uargv (Suc i) s) (\<lambda>r. Ok (map_option ((#) uarg) r))))"

definition sys_exec :: "uchar list \<Rightarrow> nat \<Rightarrow> 'a ftab_scheme \<Rightarrow> (int \<times> 'a ftab_scheme) outcome" where
  "sys_exec junk c s =
     bnd (argstr c 0 s) (\<lambda>path.
     case path of None \<Rightarrow> Ok (- 1, s) | Some path \<Rightarrow>
     bnd (argint c 1 s) (\<lambda>uargv.
     case uargv of None \<Rightarrow> Ok (- 1, s) | Some uargv \<Rightarrow>
     bnd (exec_args MAXARG c uargv 0 s) (\<lambda>argv.
     case argv of None \<Rightarrow> Ok (- 1, s) | Some argv \<Rightarrow> exec c junk path argv s)))"

definition sys_pipe :: "nat \<Rightarrow> 'a ftab_scheme \<Rightarrow> (int \<times> 'a ftab_scheme) outcome" where
  "sys_pipe c s =
     bnd (argptr c 0 8 s) (\<lambda>fdp.
     case fdp of None \<Rightarrow> Ok (- 1, s) | Some fdp \<Rightarrow>
     bnd (pipealloc c s) (\<lambda>(r, s).
     case r of None \<Rightarrow> Ok (- 1, s) | Some (rfl, wfl) \<Rightarrow>
     bnd (fdalloc c rfl s) (\<lambda>(fd0, s).
     case fd0 of
       None \<Rightarrow> bnd (fileclose c rfl s) (\<lambda>s. bnd (fileclose c wfl s) (\<lambda>s. Ok (- 1, s)))
     | Some fd0 \<Rightarrow>
         bnd (fdalloc c wfl s) (\<lambda>(fd1, s).
         case fd1 of
           None \<Rightarrow>
             bnd (fdclear c fd0 s) (\<lambda>s.
             bnd (fileclose c rfl s) (\<lambda>s. bnd (fileclose c wfl s) (\<lambda>s. Ok (- 1, s))))
         | Some fd1 \<Rightarrow>
             bnd (uwrites c fdp (le32 (of_nat fd0)) s) (\<lambda>s.
             bnd (uwrites c (fdp + 4) (le32 (of_nat fd1)) s) (\<lambda>s. Ok (0, s)))))))"

text \<open>The three calls that change an inode ignore whether the change succeeded.\<close>

definition sys_chattr :: "(nat \<Rightarrow> uchar list \<Rightarrow> uint32 \<Rightarrow> 'a ftab_scheme \<Rightarrow> (int \<times> 'a ftab_scheme) outcome) \<Rightarrow> (uint32 \<Rightarrow> bool)
    \<Rightarrow> nat \<Rightarrow> 'a ftab_scheme \<Rightarrow> (int \<times> 'a ftab_scheme) outcome" where
  "sys_chattr f good c s =
     bnd (argint c 1 s) (\<lambda>w.
     case w of None \<Rightarrow> Ok (- 1, s) | Some w \<Rightarrow>
     bnd (argstr c 0 s) (\<lambda>path.
     case path of None \<Rightarrow> Ok (- 1, s) | Some path \<Rightarrow>
     if \<not> good w then Ok (- 1, s)
     else
       bnd (user_str c path s) (\<lambda>bs.
       bnd (f c bs w s) (\<lambda>(_, s). Ok (0, s)))))"

definition sys_chmod :: "nat \<Rightarrow> 'a ftab_scheme \<Rightarrow> (int \<times> 'a ftab_scheme) outcome" where
  "sys_chmod = sys_chattr chmod (\<lambda>mode. \<not> (sint mode > 3361 \<or> sint mode < 0))"

definition sys_chown :: "nat \<Rightarrow> 'a ftab_scheme \<Rightarrow> (int \<times> 'a ftab_scheme) outcome" where
  "sys_chown = sys_chattr chown (\<lambda>_. True)"

definition sys_chgrp :: "nat \<Rightarrow> 'a ftab_scheme \<Rightarrow> (int \<times> 'a ftab_scheme) outcome" where
  "sys_chgrp = sys_chattr chgrp (\<lambda>_. True)"

end
