(* ===== verification/Trap.thy ===== *)
theory Trap
  imports Sysproc Sysfile
begin

text \<open>
  The keyboard (\<^verbatim>\<open>src/kbd.c\<close>, \<^verbatim>\<open>src/kbd.h\<close>), the system-call table (\<^verbatim>\<open>src/syscall.c\<close>) and the trap handler
  (\<^verbatim>\<open>src/trap.c\<close>). What the devices deliver is an argument: the successive values of the clock registers, the scan
  codes in the keyboard buffer, the bytes on the serial line, the faulting address, and the former content of
  the kernel stack.
\<close>

section \<open>Keyboard\<close>

definition SHIFT :: uint32 where "SHIFT = 1"
definition CTL :: uint32 where "CTL = 2"
definition ALT :: uint32 where "ALT = 4"
definition CAPSLOCK :: uint32 where "CAPSLOCK = 8"
definition NUMLOCK :: uint32 where "NUMLOCK = 16"
definition SCROLLLOCK :: uint32 where "SCROLLLOCK = 32"
definition E0ESC :: uint32 where "E0ESC = 64"

definition shiftcode :: "nat \<Rightarrow> uint32" where
  "shiftcode i = (case map_of [(0x1D, CTL), (0x2A, SHIFT), (0x36, SHIFT), (0x38, ALT), (0x9D, CTL), (0xB8, ALT)] i of
     None \<Rightarrow> 0 | Some w \<Rightarrow> w)"

definition togglecode :: "nat \<Rightarrow> uint32" where
  "togglecode i = (case map_of [(0x3A, CAPSLOCK), (0x45, NUMLOCK), (0x46, SCROLLLOCK)] i of None \<Rightarrow> 0 | Some w \<Rightarrow> w)"

text \<open>A key table: its first entries in order, then the entries given by index; the others are zero.\<close>

definition key_table :: "uchar list \<Rightarrow> (nat \<times> uchar) list \<Rightarrow> nat \<Rightarrow> uchar" where
  "key_table xs ext i =
     (if i < length xs then xs ! i else case map_of ext i of None \<Rightarrow> 0 | Some b \<Rightarrow> b)"

definition arrows :: "(nat \<times> uchar) list" where
  "arrows = [(0xC8, 0xE2), (0xD0, 0xE3), (0xC9, 0xE6), (0xD1, 0xE7), (0xCB, 0xE4), (0xCD, 0xE5), (0x97, 0xE0),
     (0xCF, 0xE1), (0xD2, 0xE8), (0xD3, 0xE9)]"

definition normalmap :: "nat \<Rightarrow> uchar" where
  "normalmap = key_table
     ([0, 0x1B] @ bytes ''1234567890-='' @ [8, 9] @ bytes ''qwertyuiop[]'' @ [10, 0] @ bytes ''asdfghjkl;''
      @ [39, 96, 0, 92] @ bytes ''zxcvbnm,./'' @ [0] @ bytes ''*'' @ [0] @ bytes '' '' @ replicate 13 0
      @ bytes ''789-456+1230.'' @ replicate 4 0)
     ([(0x9C, 10), (0xB5, 47)] @ arrows)"

definition shiftmap :: "nat \<Rightarrow> uchar" where
  "shiftmap = key_table
     ([0, 0x1B] @ bytes ''!@#$%^&*()_+'' @ [8, 9] @ bytes ''QWERTYUIOP{}'' @ [10, 0] @ bytes ''ASDFGHJKL:''
      @ [34, 126, 0, 124] @ bytes ''ZXCVBNM<>?'' @ [0] @ bytes ''*'' @ [0] @ bytes '' '' @ replicate 13 0
      @ bytes ''789-456+1230.'' @ replicate 4 0)
     ([(0x9C, 10), (0xB5, 47)] @ arrows)"

definition ctl_keys :: "string \<Rightarrow> uchar list" where
  "ctl_keys cs = map (\<lambda>x. of_int (ctrl x)) cs"

definition ctlmap :: "nat \<Rightarrow> uchar" where
  "ctlmap = key_table
     (replicate 16 0 @ ctl_keys ''QWERTYUIOP'' @ [0, 0, 13, 0] @ ctl_keys ''ASDFGHJKL'' @ [0, 0, 0, 0]
      @ ctl_keys [CHR 0x5C] @ ctl_keys ''ZXCVBNM'' @ [0, 0] @ ctl_keys ''/'' @ [0, 0])
     ([(0x9C, 13), (0xB5, 0xEF)] @ arrows)"

definition charcode :: "uint32 \<Rightarrow> nat \<Rightarrow> uchar" where
  "charcode k = (if k = 0 then normalmap else if k = 1 then shiftmap else ctlmap)"

text \<open>One scan code: the character and the new value of the static variable \<^verbatim>\<open>shift\<close>. Without data in the
  keyboard buffer the C function returns -1.\<close>

definition kbdgetc :: "uint32 \<Rightarrow> uchar \<Rightarrow> uint32 \<times> uint32" where
  "kbdgetc shift code =
     (let dat = ucast code :: uint32
      in if dat = 0xE0 then (0, shift OR E0ESC)
         else if dat AND 0x80 \<noteq> 0
         then
           let dat = (if shift AND E0ESC \<noteq> 0 then dat else dat AND 0x7F)
           in (0, shift AND NOT (shiftcode (unat dat) OR E0ESC))
         else
           let (dat, shift) = (if shift AND E0ESC \<noteq> 0 then (dat OR 0x80, shift AND NOT E0ESC) else (dat, shift));
               shift = shift OR shiftcode (unat dat);
               shift = shift XOR togglecode (unat dat);
               ch = ucast (charcode (shift AND (CTL OR SHIFT)) (unat dat)) :: uint32;
               ch = (if shift AND CAPSLOCK \<noteq> 0
                     then if 97 \<le> ch \<and> ch \<le> 122 then ch - 32 else if 65 \<le> ch \<and> ch \<le> 90 then ch + 32 else ch
                     else ch)
           in (ch, shift))"

fun kbd_chars :: "uint32 \<Rightarrow> uchar list \<Rightarrow> int list \<times> uint32" where
  "kbd_chars shift [] = ([], shift)"
| "kbd_chars shift (x # xs) =
     (let (ch, shift) = kbdgetc shift x; (chs, shift) = kbd_chars shift xs in (uint ch # chs, shift))"

record machine = ftab +
  kbd_shift :: uint32

definition kbdintr :: "nat \<Rightarrow> uchar list \<Rightarrow> 'a machine_scheme \<Rightarrow> 'a machine_scheme outcome" where
  "kbdintr c codes s =
     (let (chs, shift) = kbd_chars (kbd_shift s) codes in consoleintr c chs (s\<lparr>kbd_shift := shift\<rparr>))"

definition uartintr :: "nat \<Rightarrow> uchar list \<Rightarrow> 'a machine_scheme \<Rightarrow> 'a machine_scheme outcome" where
  "uartintr c bs s = consoleintr c (if uart s then map uint bs else []) s"

section \<open>System calls\<close>

record devices =
  dv_rtc :: rtc
  dv_kbd :: "uchar list"
  dv_uart :: "uchar list"
  dv_cr2 :: uint32
  dv_stack :: "uchar list"

definition syscalls :: "devices \<Rightarrow> (int \<times> (nat \<Rightarrow> 'a ftab_scheme \<Rightarrow> (sysret \<times> 'a ftab_scheme) outcome)) list" where
  "syscalls dv =
     [(1, sys_fork), (2, sys_exit), (3, sys_wait), (4, \<lambda>c s. ret (sys_pipe c s)), (5, \<lambda>c s. ret (sys_read c s)),
      (6, sys_kill), (7, \<lambda>c s. ret (sys_exec (dv_stack dv) c s)), (8, \<lambda>c s. ret (sys_fstat c s)),
      (9, \<lambda>c s. ret (sys_chdir c s)), (10, \<lambda>c s. ret (sys_dup c s)), (11, sys_getpid), (12, sys_sbrk),
      (13, sys_sleep), (14, sys_uptime), (15, \<lambda>c s. ret (sys_open c s)), (16, \<lambda>c s. ret (sys_write c s)),
      (17, \<lambda>c s. ret (sys_mknod c s)), (18, \<lambda>c s. ret (sys_unlink c s)), (19, \<lambda>c s. ret (sys_link c s)),
      (20, \<lambda>c s. ret (sys_mkdir c s)), (21, \<lambda>c s. ret (sys_close c s)), (22, sys_halt), (23, sys_date (dv_rtc dv)),
      (24, sys_getuid), (25, sys_getgid), (26, sys_getppid), (27, sys_setuid), (28, sys_setgid), (29, sys_getprocs),
      (30, sys_getPriority), (31, sys_setPriority), (32, \<lambda>c s. ret (sys_chmod c s)), (33, \<lambda>c s. ret (sys_chown c s)),
      (34, \<lambda>c s. ret (sys_chgrp c s))]"

definition set_eax :: "nat \<Rightarrow> int \<Rightarrow> 'a ptab_scheme \<Rightarrow> 'a ptab_scheme" where
  "set_eax me v s = upd_proc me (\<lambda>r. r\<lparr>p_tf := (p_tf r)\<lparr>tf_eax := of_int v\<rparr>\<rparr>) s"

definition syscall :: "devices \<Rightarrow> nat \<Rightarrow> 'a ftab_scheme \<Rightarrow> (sysret \<times> 'a ftab_scheme) outcome" where
  "syscall dv c s =
     bnd (deref (cur c s)) (\<lambda>me.
     let r = procs s me; num = tf_eax (p_tf r)
     in case map_of (syscalls dv) (sint num) of
          Some h \<Rightarrow>
            bnd (h c s) (\<lambda>(r, s). case r of Ret v \<Rightarrow> Ok (Ret v, set_eax me v s) | Left ie \<Rightarrow> Ok (Left ie, s))
        | None \<Rightarrow>
            bnd (cprintf c (bytes ''%d %s: unknown sys call %d'' @ [10])
                   [AInt (p_pid r), AStr (Some (bytes (p_name r))), AInt num] s) (\<lambda>s.
            Ok (Ret (- 1), set_eax me (- 1) s)))"

section \<open>Traps\<close>

definition T_SYSCALL :: uint32 where "T_SYSCALL = 64"
definition T_IRQ0 :: uint32 where "T_IRQ0 = 32"
definition SCHED_INTERVAL :: uint32 where "SCHED_INTERVAL = 1000 div 100"

definition leave :: "(bool \<times> 's) outcome \<Rightarrow> (sysret \<times> 's) outcome" where
  "leave m = bnd m (\<lambda>(ie, s). Ok (Left ie, s))"

text \<open>The \<^verbatim>\<open>switch\<close> of \<^verbatim>\<open>trap\<close>. Acknowledging the interrupt controller changes nothing here.\<close>

definition trap_event :: "devices \<Rightarrow> nat \<Rightarrow> trapframe \<Rightarrow> 'a machine_scheme \<Rightarrow> 'a machine_scheme outcome" where
  "trap_event dv c tf s =
     (let no = tf_trapno tf; id = AInt (ucast (c_id (cpus s c)))
      in if no = T_IRQ0
         then if c_id (cpus s c) = 0 then wakeup c Chan_ticks (s\<lparr>ticks := ticks s + 1\<rparr>) else Ok s
         else if no = T_IRQ0 + 14 then ideintr c s
         else if no = T_IRQ0 + 15 then Ok s
         else if no = T_IRQ0 + 1 then kbdintr c (dv_kbd dv) s
         else if no = T_IRQ0 + 4 then uartintr c (dv_uart dv) s
         else if no = T_IRQ0 + 7 \<or> no = T_IRQ0 + 31
         then cprintf c (bytes ''cpu%d: spurious interrupt at %x:%x'' @ [10]) [id, AInt (ucast (tf_cs tf)), AInt (tf_eip tf)] s
         else case cur c s of
           None \<Rightarrow> Panic ''trap''
         | Some me \<Rightarrow>
             if tf_cs tf AND 3 = 0 then Panic ''trap''
             else
               let r = procs s me
               in bnd (cprintf c (bytes ''pid %d %s: trap %d err %d on cpu %d eip 0x%x addr 0x%x--kill proc'' @ [10])
                         [AInt (p_pid r), AStr (Some (bytes (p_name r))), AInt no, AInt (tf_err tf), id, AInt (tf_eip tf),
                          AInt (dv_cr2 dv)] s) (\<lambda>s.
                  Ok (upd_proc me (\<lambda>r. r\<lparr>p_killed := True\<rparr>) s)))"

text \<open>The tests at the end of \<^verbatim>\<open>trap\<close>: a process killed in user space exits.\<close>

definition exit_if_killed :: "nat \<Rightarrow> trapframe \<Rightarrow> ('a ftab_scheme \<Rightarrow> (sysret \<times> 'a ftab_scheme) outcome) \<Rightarrow> 'a ftab_scheme
    \<Rightarrow> (sysret \<times> 'a ftab_scheme) outcome" where
  "exit_if_killed c tf k s =
     (case cur c s of
        None \<Rightarrow> k s
      | Some me \<Rightarrow> if p_killed (procs s me) \<and> tf_cs tf AND 3 = 3 then leave (exit c s) else k s)"

definition trap_end :: "nat \<Rightarrow> trapframe \<Rightarrow> 'a ftab_scheme \<Rightarrow> (sysret \<times> 'a ftab_scheme) outcome" where
  "trap_end c tf = exit_if_killed c tf (\<lambda>s. Ok (Ret 0, s))"

definition trap_resume :: "nat \<Rightarrow> bool \<Rightarrow> trapframe \<Rightarrow> 'a ftab_scheme \<Rightarrow> (sysret \<times> 'a ftab_scheme) outcome" where
  "trap_resume c ie tf s = bnd (yield_resume c ie s) (trap_end c tf)"

definition trap_syscall :: "devices \<Rightarrow> nat \<Rightarrow> trapframe \<Rightarrow> 'a machine_scheme \<Rightarrow> (sysret \<times> 'a machine_scheme) outcome" where
  "trap_syscall dv c tf s =
     bnd (deref (cur c s)) (\<lambda>me.
     if p_killed (procs s me) then leave (exit c s)
     else
       bnd (syscall dv c (upd_proc me (\<lambda>r. r\<lparr>p_tf := tf\<rparr>) s)) (\<lambda>(r, s).
       case r of
         Left ie \<Rightarrow> Ok (Left ie, s)
       | Ret _ \<Rightarrow> bnd (cur_killed c s) (\<lambda>kl. if kl then leave (exit c s) else Ok (r, s))))"

definition trap :: "devices \<Rightarrow> nat \<Rightarrow> trapframe \<Rightarrow> 'a machine_scheme \<Rightarrow> (sysret \<times> 'a machine_scheme) outcome" where
  "trap dv c tf s =
     (if tf_trapno tf = T_SYSCALL then trap_syscall dv c tf s
      else
        bnd (trap_event dv c tf s)
          (exit_if_killed c tf (\<lambda>s.
             case cur c s of
               None \<Rightarrow> trap_end c tf s
             | Some me \<Rightarrow>
                 if p_state (procs s me) = RUNNING \<and> tf_trapno tf = T_IRQ0 \<and> ticks s mod SCHED_INTERVAL = 0
                 then leave (yield c s)
                 else trap_end c tf s)))"

end
