(* ===== verification/User.thy ===== *)
theory User
  imports Sysproc
begin

text \<open>
  User programs: what a program asks of the kernel and how it goes on with the answer, the library routines of
  \<^verbatim>\<open>src/printf.c\<close> and \<^verbatim>\<open>src/ulib.c\<close> that make system calls, and the small programs of the system. A program is a
  tree: the next system call, and the rest of the program for every answer of the kernel. \<^verbatim>\<open>fork\<close> is a call
  like the others: the child gets the answer 0. A loop whose length the kernel decides runs on fuel and ends in
  \<open>Cut\<close> when it is used up; \<open>Undef\<close> is behaviour that C leaves undefined. Strings are the characters before the
  terminating null character.
\<close>

section \<open>System calls\<close>

datatype sysreq =
    Rq_fork | Rq_wait | Rq_pipe | Rq_write int string | Rq_read int nat | Rq_close int | Rq_kill int
  | Rq_exec string "string list" | Rq_open string int | Rq_mknod string int int | Rq_unlink string | Rq_fstat int
  | Rq_link string string | Rq_mkdir string | Rq_chdir string | Rq_dup int | Rq_getpid | Rq_sbrk int | Rq_sleep int
  | Rq_uptime | Rq_halt | Rq_date | Rq_getuid | Rq_getgid | Rq_getppid | Rq_setuid int | Rq_setgid int
  | Rq_getprocs nat | Rq_setPriority int int | Rq_getPriority int | Rq_chmod string int | Rq_chown string int
  | Rq_chgrp string int

text \<open>A row of the process listing, as the caller reads it.\<close>

record uproc_row =
  up_pid :: uint32
  up_uid :: uint32
  up_gid :: uint32
  up_ppid :: uint32
  up_prio :: int
  up_elapsed :: uint32
  up_cpu :: uint32
  up_state :: string
  up_size :: uint32
  up_name :: string

text \<open>The value a call returns, and what it has stored through the pointers of the caller.\<close>

record answer =
  a_ret :: int
  a_data :: string
  a_fds :: "int \<times> int"
  a_stat :: stat
  a_date :: rtcdate
  a_procs :: "uproc_row list"

datatype prog = Exit | Undef | Cut | Call sysreq "answer \<Rightarrow> prog"

section \<open>Formatted output\<close>

datatype uarg = U_int uint32 | U_str "string option"

definition u_digit :: "nat \<Rightarrow> char" where
  "u_digit d = ''0123456789ABCDEF'' ! d"

fun u_digits :: "nat \<Rightarrow> nat \<Rightarrow> nat \<Rightarrow> string" where
  "u_digits 0 base x = []"
| "u_digits (Suc n) base x =
     u_digit (x mod base) # (if x div base \<noteq> 0 then u_digits n base (x div base) else [])"

text \<open>The characters that \<^verbatim>\<open>printint\<close> writes; its buffer holds 16.\<close>

definition u_printint :: "uint32 \<Rightarrow> nat \<Rightarrow> bool \<Rightarrow> string" where
  "u_printint xx base sg =
     (let neg = sg \<and> sint xx < 0;
          x = (if neg then - xx else xx);
          buf = u_digits 16 base (unat x)
      in rev (if neg then buf @ ''-'' else buf))"

text \<open>The loop of \<^verbatim>\<open>printf\<close>; the truth value is its state, set after a percent sign. There is no output without the
  argument that a directive needs.\<close>

fun u_format :: "bool \<Rightarrow> string \<Rightarrow> uarg list \<Rightarrow> string option" where
  "u_format pc [] as = Some []"
| "u_format False (ch # cs) as =
     (if ch = CHR ''%'' then u_format True cs as else map_option ((#) ch) (u_format False cs as))"
| "u_format True (ch # cs) as =
     (if ch = CHR ''d''
      then case as of U_int x # as \<Rightarrow> map_option ((@) (u_printint x 10 True)) (u_format False cs as) | _ \<Rightarrow> None
      else if ch = CHR ''x'' \<or> ch = CHR ''p''
      then case as of U_int x # as \<Rightarrow> map_option ((@) (u_printint x 16 False)) (u_format False cs as) | _ \<Rightarrow> None
      else if ch = CHR ''s''
      then case as of
          U_str p # as \<Rightarrow>
            map_option ((@) (case p of None \<Rightarrow> ''(null)'' | Some t \<Rightarrow> t)) (u_format False cs as)
        | _ \<Rightarrow> None
      else if ch = CHR ''c''
      then case as of U_int x # as \<Rightarrow> map_option ((#) (char_of (unat x))) (u_format False cs as) | _ \<Rightarrow> None
      else if ch = CHR ''%'' then map_option ((#) ch) (u_format False cs as)
      else map_option ((@) [CHR ''%'', ch]) (u_format False cs as))"

definition u_putc :: "int \<Rightarrow> char \<Rightarrow> prog \<Rightarrow> prog" where
  "u_putc fd ch k = Call (Rq_write fd [ch]) (\<lambda>_. k)"

definition u_printf :: "int \<Rightarrow> string \<Rightarrow> uarg list \<Rightarrow> prog \<Rightarrow> prog" where
  "u_printf fd fmt as k = (case u_format False fmt as of None \<Rightarrow> Undef | Some t \<Rightarrow> foldr (u_putc fd) t k)"

abbreviation nl :: string where "nl \<equiv> [CHR 0x0A]"
abbreviation tab_char :: string where "tab_char \<equiv> [CHR 0x09]"

section \<open>Library routines\<close>

text \<open>The bytes of a string at address 0, and the numbers that \<^verbatim>\<open>atoi\<close> and \<^verbatim>\<open>atoo\<close> read from it.\<close>

definition mem_of :: "string \<Rightarrow> memory" where
  "mem_of t a = (if unat a < length t then of_char (t ! unat a) else 0)"

definition str_atoi :: "string \<Rightarrow> int" where
  "str_atoi t = (case atoi 0 (mem_of t) of None \<Rightarrow> 0 | Some n \<Rightarrow> sint n)"

definition str_atoo :: "string \<Rightarrow> int" where
  "str_atoo t = (case atoo 0 (mem_of t) of None \<Rightarrow> 0 | Some n \<Rightarrow> sint n)"

text \<open>\<^verbatim>\<open>gets\<close> with room for \<open>n\<close> more characters before the null character; \<open>acc\<close> is what it has read.\<close>

fun gets_loop :: "nat \<Rightarrow> string \<Rightarrow> (string \<Rightarrow> prog) \<Rightarrow> prog" where
  "gets_loop 0 acc k = k acc"
| "gets_loop (Suc n) acc k =
     Call (Rq_read 0 1) (\<lambda>a.
       if a_ret a < 1 then k acc
       else
         let ch = hd (a_data a)
         in if ch = CHR 0x0A \<or> ch = CHR 0x0D then k (acc @ [ch]) else gets_loop n (acc @ [ch]) k)"

definition gets :: "nat \<Rightarrow> (string \<Rightarrow> prog) \<Rightarrow> prog" where
  "gets maxi k = gets_loop (maxi - 1) [] k"

definition u_stat :: "string \<Rightarrow> (int \<Rightarrow> stat \<Rightarrow> prog) \<Rightarrow> prog" where
  "u_stat n k =
     Call (Rq_open n 0) (\<lambda>fd.
       if a_ret fd < 0 then k (- 1) (a_stat fd)
       else
         Call (Rq_fstat (a_ret fd)) (\<lambda>r.
         Call (Rq_close (a_ret fd)) (\<lambda>_. k (a_ret r) (a_stat r))))"

section \<open>Programs\<close>

text \<open>The main routines take \<^verbatim>\<open>argv\<close> with the name of the program as its first element.\<close>

definition main_echo :: "string list \<Rightarrow> prog" where
  "main_echo argv =
     foldr (\<lambda>i k. u_printf 1 ''%s%s'' [U_str (Some (argv ! i)), U_str (Some (if i + 1 < length argv then '' '' else nl))] k)
       [1..<length argv] Exit"

definition main_kill :: "string list \<Rightarrow> prog" where
  "main_kill argv =
     (if length argv < 2 then u_printf 2 (''usage: kill pid...'' @ nl) [] Exit
      else foldr (\<lambda>t k. Call (Rq_kill (str_atoi t)) (\<lambda>_. k)) (tl argv) Exit)"

definition main_ln :: "string list \<Rightarrow> prog" where
  "main_ln argv =
     (if length argv \<noteq> 3 then u_printf 2 (''Usage: ln old new'' @ nl) [] Exit
      else
        Call (Rq_link (argv ! 1) (argv ! 2)) (\<lambda>a.
          if a_ret a < 0
          then u_printf 2 (''link %s %s: failed'' @ nl) [U_str (Some (argv ! 1)), U_str (Some (argv ! 2))] Exit
          else Exit))"

definition main_mkdir :: "string list \<Rightarrow> prog" where
  "main_mkdir argv =
     (if length argv < 2 then u_printf 2 (''Usage: mkdir files...'' @ nl) [] Exit
      else
        foldr (\<lambda>t k. Call (Rq_mkdir t) (\<lambda>a.
            if a_ret a < 0 then u_printf 2 (''mkdir: %s failed to create'' @ nl) [U_str (Some t)] Exit else k))
          (tl argv) Exit)"

definition main_rm :: "string list \<Rightarrow> prog" where
  "main_rm argv =
     (if length argv < 2 then u_printf 2 (''Usage: rm files...'' @ nl) [] Exit
      else
        foldr (\<lambda>t k. Call (Rq_unlink t) (\<lambda>a.
            if a_ret a < 0 then u_printf 2 (''rm: %s failed to delete'' @ nl) [U_str (Some t)] Exit else k))
          (tl argv) Exit)"

definition main_zombie :: prog where
  "main_zombie = Call Rq_fork (\<lambda>a. if a_ret a > 0 then Call (Rq_sleep 5) (\<lambda>_. Exit) else Exit)"

definition main_chmod :: "string list \<Rightarrow> prog" where
  "main_chmod argv =
     (if length argv \<noteq> 3 then u_printf 1 (''chmod - usage '' @ [CHR 0x27] @ ''chmod mode path'' @ [CHR 0x27] @ nl) [] Exit
      else
        let v = str_atoi (argv ! 1); mode = str_atoo (argv ! 1)
        in if v > 1777 \<or> v < 0 then u_printf 1 (''chmod - mode should be inbetween 0000 and 1777'' @ nl) [] Exit
           else
             Call (Rq_chmod (argv ! 2) mode) (\<lambda>a.
               if a_ret a < 0 then u_printf 1 (''chmod - chmod failed'' @ nl) [] Exit else Exit))"

definition main_chown :: "string list \<Rightarrow> prog" where
  "main_chown argv =
     (if length argv \<noteq> 3 then u_printf 1 (''chown - usage '' @ [CHR 0x27] @ ''chown uid path'' @ [CHR 0x27] @ nl) [] Exit
      else
        let uid = str_atoi (argv ! 1)
        in if uid > 32767 \<or> uid < 0
           then u_printf 1 (''chown - user id value needs to be in between 0 and 32767'' @ nl) [] Exit
           else
             Call (Rq_chown (argv ! 2) uid) (\<lambda>a.
               if a_ret a < 0 then u_printf 1 (''chown - chmod failed'' @ nl) [] Exit else Exit))"

definition main_chgrp :: "string list \<Rightarrow> prog" where
  "main_chgrp argv =
     (if length argv \<noteq> 3 then u_printf 1 (''chgrp - usage '' @ [CHR 0x27] @ ''chgrp gid path'' @ [CHR 0x27] @ nl) [] Exit
      else
        let gid = str_atoi (argv ! 1)
        in if gid > 32767 \<or> gid < 0
           then u_printf 1 (''chgrp - group id value needs to be in between 0 and 32767'' @ nl) [] Exit
           else
             Call (Rq_chgrp (argv ! 2) gid) (\<lambda>a.
               if a_ret a < 0 then u_printf 1 (''chgrp - chgrp failed'' @ nl) [] Exit else Exit))"

subsection \<open>Files\<close>

text \<open>\<^verbatim>\<open>cat\<close>: copy a file to standard output.\<close>

fun cat_loop :: "nat \<Rightarrow> int \<Rightarrow> prog \<Rightarrow> prog" where
  "cat_loop 0 fd k = Cut"
| "cat_loop (Suc n) fd k =
     Call (Rq_read fd 512) (\<lambda>a.
       if a_ret a > 0 then Call (Rq_write 1 (take (nat (a_ret a)) (a_data a))) (\<lambda>_. cat_loop n fd k)
       else if a_ret a < 0 then u_printf 1 (''cat: read error'' @ nl) [] Exit
       else k)"

text \<open>The loop over file names that \<^verbatim>\<open>cat\<close>, \<^verbatim>\<open>wc\<close> and \<^verbatim>\<open>grep\<close> share; \<open>who\<close> is the name in the message.\<close>

fun each_file :: "string \<Rightarrow> (int \<Rightarrow> string \<Rightarrow> prog \<Rightarrow> prog) \<Rightarrow> string list \<Rightarrow> prog" where
  "each_file who body [] = Exit"
| "each_file who body (t # ts) =
     Call (Rq_open t 0) (\<lambda>a.
       if a_ret a < 0 then u_printf 1 (who @ '': cannot open %s'' @ nl) [U_str (Some t)] Exit
       else body (a_ret a) t (Call (Rq_close (a_ret a)) (\<lambda>_. each_file who body ts)))"

definition main_cat :: "nat \<Rightarrow> string list \<Rightarrow> prog" where
  "main_cat n argv =
     (if length argv \<le> 1 then cat_loop n 0 Exit else each_file ''cat'' (\<lambda>fd t k. cat_loop n fd k) (tl argv))"

text \<open>\<^verbatim>\<open>wc\<close>: lines, words, characters and whether the last character was in a word. The counters are of type
  \<^verbatim>\<open>int\<close>.\<close>

definition wc_char :: "char \<Rightarrow> uint32 \<times> uint32 \<times> uint32 \<times> bool \<Rightarrow> uint32 \<times> uint32 \<times> uint32 \<times> bool" where
  "wc_char ch = (\<lambda>(l, w, n, inword).
     let n = n + 1;
         l = (if ch = CHR 0x0A then l + 1 else l)
     in if ch \<in> {CHR '' '', CHR 0x0D, CHR 0x09, CHR 0x0A, CHR 0x0B} then (l, w, n, False)
        else if \<not> inword then (l, w + 1, n, True)
        else (l, w, n, inword))"

fun wc_loop :: "nat \<Rightarrow> int \<Rightarrow> string \<Rightarrow> uint32 \<times> uint32 \<times> uint32 \<times> bool \<Rightarrow> prog \<Rightarrow> prog" where
  "wc_loop 0 fd t cnt k = Cut"
| "wc_loop (Suc m) fd t cnt k =
     Call (Rq_read fd 512) (\<lambda>a.
       if a_ret a > 0 then wc_loop m fd t (fold wc_char (take (nat (a_ret a)) (a_data a)) cnt) k
       else if a_ret a < 0 then u_printf 1 (''wc: read error'' @ nl) [] Exit
       else
         case cnt of (l, w, n, _) \<Rightarrow>
           u_printf 1 (''%d %d %d %s'' @ nl) [U_int l, U_int w, U_int n, U_str (Some t)] k)"

definition main_wc :: "nat \<Rightarrow> string list \<Rightarrow> prog" where
  "main_wc n argv =
     (if length argv \<le> 1 then wc_loop n 0 [] (0, 0, 0, False) Exit
      else each_file ''wc'' (\<lambda>fd t k. wc_loop n fd t (0, 0, 0, False) k) (tl argv))"

subsection \<open>The directory listing\<close>

text \<open>\<^verbatim>\<open>fmtname\<close>: the last component of a path, padded with blanks to the length of a directory entry's name.\<close>

definition fmtname :: "string \<Rightarrow> string" where
  "fmtname path =
     (let p = rev (takeWhile (\<lambda>ch. ch \<noteq> CHR ''/'') (rev path))
      in if length p \<ge> DIRSIZ then p else p @ replicate (DIRSIZ - length p) (CHR '' ''))"

text \<open>A bit of the mode, counted from the least: others x, w, r, group x, w, r, user x, w, r, setuid.\<close>

definition mode_flag :: "uint32 \<Rightarrow> nat \<Rightarrow> bool" where
  "mode_flag m i = bit m i"

definition printMode :: "ushort \<Rightarrow> uint32 \<Rightarrow> prog \<Rightarrow> prog" where
  "printMode ty m k =
     (let x = (if mode_flag m 9 then CHR ''S'' else CHR ''x'');
          one = (\<lambda>i ch. u_printf 1 [if mode_flag m i then ch else CHR ''-''] []);
          ex = (\<lambda>i k. if mode_flag m i then u_printf 1 ''%c'' [U_int (of_char x)] k else u_printf 1 ''-'' [] k);
          ty_c = (\<lambda>v ch k. if ty = v then u_printf 1 [ch] [] k else k)
      in ty_c 1 (CHR ''d'') (ty_c 2 (CHR ''-'') (ty_c 3 (CHR ''c'')
         (one 8 (CHR ''r'') (one 7 (CHR ''w'') (ex 6
         (one 5 (CHR ''r'') (one 4 (CHR ''w'') (ex 3
         (one 2 (CHR ''r'') (one 1 (CHR ''w'')
           (if mode_flag m 0 then u_printf 1 (''%c'' @ tab_char) [U_int (of_char x)] k
            else u_printf 1 (''-'' @ tab_char) [] k))))))))))))"

definition ls_line :: "string \<Rightarrow> stat \<Rightarrow> prog \<Rightarrow> prog" where
  "ls_line path sb k =
     printMode (st_type sb) (st_mode sb)
       (u_printf 1 (''%s'' @ tab_char @ tab_char @ ''%d'' @ tab_char @ ''%d'' @ tab_char @ ''%d'' @ tab_char @ ''%d'' @ nl)
         [U_str (Some (fmtname path)), U_int (ucast (st_uid sb)), U_int (ucast (st_gid sb)), U_int (st_ino sb),
          U_int (st_size sb)] k)"

text \<open>One directory entry of 16 bytes: the inode number, low byte first, and the name.\<close>

definition ude_inum :: "string \<Rightarrow> nat" where
  "ude_inum d = of_char (d ! 0) + 256 * of_char (d ! 1)"

definition ude_name :: "string \<Rightarrow> string" where
  "ude_name d = takeWhile (\<lambda>ch. ch \<noteq> CHR 0x00) (take DIRSIZ (drop 2 d))"

fun ls_dir :: "nat \<Rightarrow> int \<Rightarrow> string \<Rightarrow> prog \<Rightarrow> prog" where
  "ls_dir 0 fd path k = Cut"
| "ls_dir (Suc n) fd path k =
     Call (Rq_read fd 16) (\<lambda>a.
       if a_ret a \<noteq> 16 then k
       else if ude_inum (a_data a) = 0 then ls_dir n fd path k
       else
         let f = path @ ''/'' @ ude_name (a_data a)
         in u_stat f (\<lambda>r sb.
              if r < 0 then u_printf 1 (''ls: cannot stat %s'' @ nl) [U_str (Some f)] (ls_dir n fd path k)
              else ls_line f sb (ls_dir n fd path k)))"

definition ls :: "nat \<Rightarrow> string \<Rightarrow> prog \<Rightarrow> prog" where
  "ls n path k =
     Call (Rq_open path 0) (\<lambda>fd.
       if a_ret fd < 0 then u_printf 2 (''ls: cannot open %s'' @ nl) [U_str (Some path)] k
       else
         Call (Rq_fstat (a_ret fd)) (\<lambda>a.
           let sb = a_stat a; fin = Call (Rq_close (a_ret fd)) (\<lambda>_. k)
           in if a_ret a < 0 then u_printf 2 (''ls: cannot stat %s'' @ nl) [U_str (Some path)] fin
              else if st_type sb = 2 \<or> st_type sb = 3 then ls_line path sb fin
              else if st_type sb = 1
              then if length path + 1 + DIRSIZ + 1 > 512 then u_printf 1 (''ls: path too long'' @ nl) [] fin
                   else ls_dir n (a_ret fd) path fin
              else fin))"

definition main_ls :: "nat \<Rightarrow> string list \<Rightarrow> prog" where
  "main_ls n argv =
     u_printf 1 (''mode'' @ tab_char @ tab_char @ ''name'' @ tab_char @ tab_char @ tab_char @ ''uid'' @ tab_char @ ''gid'' @
         tab_char @ ''inode'' @ tab_char @ ''size'' @ nl) []
       (if length argv < 2 then ls n ''.'' Exit else foldr (ls n) (tl argv) Exit)"

subsection \<open>Processes and time\<close>

text \<open>A time in ticks as seconds with three digits behind the point; \<^verbatim>\<open>time\<close> is an \<^verbatim>\<open>int\<close>, and division rounds towards
  zero.\<close>

definition u_print_ticks :: "string \<Rightarrow> uint32 \<Rightarrow> prog \<Rightarrow> prog" where
  "u_print_ticks unit_str tm k =
     (let v = sint tm; num = (\<lambda>i. [U_int (of_int i)])
      in u_printf 1 ''%d.'' (num (v sdiv 1000))
         (u_printf 1 ''%d'' (num (v smod 1000 sdiv 100))
         (u_printf 1 ''%d'' (num (v smod 100 sdiv 10))
         (u_printf 1 ''%d'' (num (v smod 10 sdiv 1))
         (u_printf 1 unit_str [] k)))))"

text \<open>\<^verbatim>\<open>ps\<close>: the one \<^verbatim>\<open>malloc\<close> of the program asks the kernel for 4096 units of 8 bytes.\<close>

definition ps_row :: "uproc_row \<Rightarrow> prog \<Rightarrow> prog" where
  "ps_row r k =
     u_printf 1 (''%d'' @ tab_char @ ''%s'' @ tab_char @ ''%d'' @ tab_char @ ''%d'' @ tab_char @ ''%d'' @ tab_char @
         ''%d'' @ tab_char)
       [U_int (up_pid r), U_str (Some (up_name r)), U_int (up_uid r), U_int (up_gid r), U_int (up_ppid r),
        U_int (of_int (up_prio r))]
     (u_print_ticks (''s'' @ tab_char) (up_elapsed r)
     (u_print_ticks (''s'' @ tab_char) (up_cpu r)
     (u_printf 1 (''%s'' @ tab_char @ ''%d'' @ nl) [U_str (Some (up_state r)), U_int (up_size r)] k)))"

definition main_ps :: prog where
  "main_ps =
     Call (Rq_sbrk 32768) (\<lambda>m.
     if a_ret m = - 1 then Undef
     else
       Call (Rq_getprocs 20) (\<lambda>a.
       let rest =
             u_printf 1 (nl @ ''PID'' @ tab_char @ ''Name'' @ tab_char @ ''UID'' @ tab_char @ ''GID'' @ tab_char @ ''PPID'' @
                 tab_char @ ''Prio'' @ tab_char @ ''ETime'' @ tab_char @ ''CPU'' @ tab_char @ ''State'' @ tab_char @ ''Size'' @ nl) []
               (foldr ps_row (take (nat (a_ret a)) (a_procs a)) Exit)
       in if a_ret a < 0 then u_printf 2 ''ps: getprocs failed'' [] rest else rest))"

definition main_time :: "string list \<Rightarrow> prog" where
  "main_time argv =
     Call Rq_uptime (\<lambda>t0.
     Call Rq_fork (\<lambda>rc.
       if a_ret rc = 0
       then if length argv < 2 then Undef
            else Call (Rq_exec (argv ! 1) (tl argv)) (\<lambda>_. u_printf 1 (''time: exec failed, returning'' @ nl) [] Exit)
       else
         Call Rq_wait (\<lambda>_.
         u_printf 1 ''%s ran in '' [U_str (if length argv < 2 then None else Some (argv ! 1))]
         (Call Rq_uptime (\<lambda>t1.
          u_print_ticks ('' seconds.'' @ tab_char) (of_int (a_ret t1) - of_int (a_ret t0)) (u_printf 1 nl [] Exit))))))"

definition dayofweek :: "int \<Rightarrow> int \<Rightarrow> int \<Rightarrow> int" where
  "dayofweek y m d =
     (let (d, y) = (if m < 3 then (d + y, y - 1) else (d + (y - 2), y))
      in ((23 * m) sdiv 9 + d + 4 + y sdiv 4 - y sdiv 100 + y sdiv 400) smod 7)"

definition day_names :: "string list" where
  "day_names = [''Sun'', ''Mon'', ''Tue'', ''Wed'', ''Thu'', ''Fri'', ''Sat'']"

definition month_names :: "string list" where
  "month_names = [''NULL'', ''Jan'', ''Feb'', ''Mar'', ''Apr'', ''May'', ''Jun'', ''Jul'', ''Aug'', ''Sep'', ''Oct'', ''Nov'', ''Dec'']"

text \<open>A number of the clock with two digits.\<close>

definition two_digits :: "uint32 \<Rightarrow> string \<Rightarrow> uarg list \<Rightarrow> prog \<Rightarrow> prog" where
  "two_digits v fmt as k = (if v < 10 then u_printf 1 ''0'' [] (u_printf 1 fmt as k) else u_printf 1 fmt as k)"

definition main_date :: prog where
  "main_date =
     Call Rq_date (\<lambda>a.
     if a_ret a \<noteq> 0
     then u_printf 2 (''Error: date call failed. %s at line %d'' @ nl) [U_str (Some ''date.c''), U_int 28] Exit
     else
       let r = a_date a; w = dayofweek (sint (year r)) (sint (month r)) (sint (day r))
       in if w < 0 \<or> unat (month r) \<ge> length month_names then Undef
          else
            u_printf 1 ''%s %s %d'' [U_str (Some (day_names ! nat w)), U_str (Some (month_names ! unat (month r))), U_int (day r)]
            (u_printf 1 '' '' []
            (two_digits (hour r) ''%d:'' [U_int (hour r)]
            (two_digits (minute r) ''%d:'' [U_int (minute r)]
            (two_digits (second r) (''%d UTC %d'' @ nl) [U_int (second r), U_int (year r)] Exit)))))"

subsection \<open>The first program\<close>

fun init_wait :: "nat \<Rightarrow> int \<Rightarrow> prog \<Rightarrow> prog" where
  "init_wait 0 pid k = Cut"
| "init_wait (Suc n) pid k =
     Call Rq_wait (\<lambda>a.
       if a_ret a \<ge> 0 \<and> a_ret a \<noteq> pid then u_printf 1 (''zombie!'' @ nl) [] (init_wait n pid k) else k)"

fun init_loop :: "nat \<Rightarrow> nat \<Rightarrow> prog" where
  "init_loop 0 n = Cut"
| "init_loop (Suc m) n =
     u_printf 1 (''init: starting sh'' @ nl) []
     (Call Rq_fork (\<lambda>a.
       if a_ret a < 0 then u_printf 1 (''init: fork failed'' @ nl) [] Exit
       else if a_ret a = 0
       then Call (Rq_exec ''sh'' [''sh'']) (\<lambda>_. u_printf 1 (''init: exec sh failed'' @ nl) [] Exit)
       else init_wait n (a_ret a) (init_loop m n)))"

definition main_init :: "nat \<Rightarrow> nat \<Rightarrow> prog" where
  "main_init m n =
     (let rest = Call (Rq_dup 0) (\<lambda>_. Call (Rq_dup 0) (\<lambda>_. init_loop m n))
      in Call (Rq_open ''console'' 2) (\<lambda>a.
           if a_ret a < 0
           then Call (Rq_mknod ''console'' 1 1) (\<lambda>_. Call (Rq_open ''console'' 2) (\<lambda>_. rest))
           else rest))"

end
