(* ===== verification/Shell.thy ===== *)
theory Shell
  imports User
begin

text \<open>
  The shell, \<^verbatim>\<open>src/sh.c\<close>: its parser, and the system calls that a command and the main loop make. A command line is the text of its buffer up to the terminating null
  character; pointers into it (\<^verbatim>\<open>s\<close>, \<^verbatim>\<open>q\<close>, \<^verbatim>\<open>eq\<close>) are positions. Commands are values: \<^verbatim>\<open>malloc\<close> is taken
  to succeed, and the one structure that is changed after it has been linked, the \<^verbatim>\<open>execcmd\<close> of \<^verbatim>\<open>parseexec\<close>,
  is updated at the bottom of the redirections around it. The routines that call each other without a
  structural argument run on fuel, which the theorem on termination shows to be enough. \<open>Panic m\<close> is a call of
  \<^verbatim>\<open>panic\<close>, with everything that has been printed.
\<close>

section \<open>Commands\<close>

definition MAXARGS :: nat where "MAXARGS = 10"

datatype cmd = Exec "(nat \<times> nat) list" | Redir cmd nat nat int int | Pipe cmd cmd | Lst cmd cmd | Back cmd

definition execcmd :: cmd where "execcmd = Exec []"

definition redircmd :: "cmd \<Rightarrow> nat \<Rightarrow> nat \<Rightarrow> int \<Rightarrow> int \<Rightarrow> cmd" where
  "redircmd subcmd q eq mode fd = Redir subcmd q eq mode fd"

definition pipecmd :: "cmd \<Rightarrow> cmd \<Rightarrow> cmd" where "pipecmd l r = Pipe l r"

definition listcmd :: "cmd \<Rightarrow> cmd \<Rightarrow> cmd" where "listcmd l r = Lst l r"

definition backcmd :: "cmd \<Rightarrow> cmd" where "backcmd subcmd = Back subcmd"

lemmas cmd_simps [simp] = execcmd_def redircmd_def pipecmd_def listcmd_def backcmd_def

definition NUL :: char where "NUL = CHR 0x00"

definition O_WRONLY_CREATE :: int where "O_WRONLY_CREATE = 0x201"

definition upanic :: "string \<Rightarrow> 'a outcome" where
  "upanic m = Panic (m @ [CHR 0x0A])"

section \<open>Tokens\<close>

definition whitespace :: string where
  "whitespace = [CHR '' '', CHR 0x09, CHR 0x0D, CHR 0x0A, CHR 0x0B]"

definition symbols :: string where "symbols = ''<|>&;()''"

definition at :: "string \<Rightarrow> nat \<Rightarrow> char" where
  "at buf i = (if i < length buf then buf ! i else NUL)"

definition skip_white :: "string \<Rightarrow> nat \<Rightarrow> nat" where
  "skip_white buf i = i + length (takeWhile (\<lambda>c. c \<in> set whitespace) (drop i buf))"

text \<open>The kind of the token, its two ends, and the position behind it and the white space that follows.\<close>

definition gettoken :: "string \<Rightarrow> nat \<Rightarrow> char \<times> nat \<times> nat \<times> nat" where
  "gettoken buf i =
     (let q = skip_white buf i; ch = at buf q;
          (ret, s) =
            (if ch = NUL then (ch, q)
             else if ch \<in> set ''|();&<'' then (ch, q + 1)
             else if ch = CHR ''>''
             then (if at buf (q + 1) = CHR ''>'' then (CHR ''+'', q + 2) else (ch, q + 1))
             else (CHR ''a'', q + length (takeWhile (\<lambda>c. c \<notin> set whitespace \<and> c \<notin> set symbols) (drop q buf))))
      in (ret, q, s, skip_white buf s))"

definition peek :: "string \<Rightarrow> nat \<Rightarrow> string \<Rightarrow> bool \<times> nat" where
  "peek buf i toks =
     (let s = skip_white buf i in (at buf s \<noteq> NUL \<and> at buf s \<in> set toks, s))"

section \<open>The parser\<close>

text \<open>The redirection that \<^verbatim>\<open>parseredirs\<close> builds for an operator.\<close>

definition redir :: "char \<Rightarrow> nat \<Rightarrow> nat \<Rightarrow> cmd \<Rightarrow> cmd" where
  "redir tok q eq c =
     (if tok = CHR ''<'' then redircmd c q eq 0 0
      else if tok = CHR ''>'' \<or> tok = CHR ''+'' then redircmd c q eq O_WRONLY_CREATE 1
      else c)"

fun parseredirs :: "nat \<Rightarrow> cmd \<Rightarrow> string \<Rightarrow> nat \<Rightarrow> (cmd \<times> nat) outcome" where
  "parseredirs 0 c buf i = Spin"
| "parseredirs (Suc n) c buf i =
     (let (io, i) = peek buf i ''<>''
      in if \<not> io then Ok (c, i)
         else
           let (tok, _, _, i) = gettoken buf i;
               (w, q, eq, i) = gettoken buf i
           in if w \<noteq> CHR ''a'' then upanic ''missing file for redirection''
              else parseredirs n (redir tok q eq c) buf i)"

text \<open>Assignment to \<^verbatim>\<open>cmd->argv[argc]\<close> and \<^verbatim>\<open>cmd->eargv[argc]\<close>: the structure is the innermost command of \<^verbatim>\<open>ret\<close>.\<close>

fun add_arg :: "nat \<times> nat \<Rightarrow> cmd \<Rightarrow> cmd" where
  "add_arg a (Exec as) = Exec (as @ [a])"
| "add_arg a (Redir c q eq m fd) = Redir (add_arg a c) q eq m fd"
| "add_arg a c = c"

fun parseargs :: "nat \<Rightarrow> nat \<Rightarrow> cmd \<Rightarrow> string \<Rightarrow> nat \<Rightarrow> (cmd \<times> nat) outcome" where
  "parseargs 0 argc c buf i = Spin"
| "parseargs (Suc n) argc c buf i =
     (let (stop, i) = peek buf i ''|)&;''
      in if stop then Ok (c, i)
         else
           let (tok, q, eq, i) = gettoken buf i
           in if tok = NUL then Ok (c, i)
              else if tok \<noteq> CHR ''a'' then upanic ''syntax''
              else if argc + 1 \<ge> MAXARGS then upanic ''too many args''
              else bnd (parseredirs n (add_arg (q, eq) c) buf i) (\<lambda>(c, i). parseargs n (argc + 1) c buf i))"

text \<open>The loop of \<^verbatim>\<open>parseline\<close> over ampersands.\<close>

fun parsebacks :: "nat \<Rightarrow> cmd \<Rightarrow> string \<Rightarrow> nat \<Rightarrow> (cmd \<times> nat) outcome" where
  "parsebacks 0 c buf i = Spin"
| "parsebacks (Suc n) c buf i =
     (let (amp, i) = peek buf i ''&''
      in if \<not> amp then Ok (c, i)
         else let (_, _, _, i) = gettoken buf i in parsebacks n (backcmd c) buf i)"

text \<open>The routines of the grammar call each other; each takes the parser with less fuel as an argument.\<close>

datatype nonterm = N_line | N_pipe | N_block | N_exec

definition parseline :: "nat \<Rightarrow> (nonterm \<Rightarrow> string \<Rightarrow> nat \<Rightarrow> (cmd \<times> nat) outcome) \<Rightarrow> string \<Rightarrow> nat \<Rightarrow> (cmd \<times> nat) outcome" where
  "parseline n P buf i =
     bnd (P N_pipe buf i) (\<lambda>(c, i).
     bnd (parsebacks n c buf i) (\<lambda>(c, i).
     let (semi, i) = peek buf i '';''
     in if \<not> semi then Ok (c, i)
        else
          let (_, _, _, i) = gettoken buf i
          in bnd (P N_line buf i) (\<lambda>(d, i). Ok (listcmd c d, i))))"

definition parsepipe :: "(nonterm \<Rightarrow> string \<Rightarrow> nat \<Rightarrow> (cmd \<times> nat) outcome) \<Rightarrow> string \<Rightarrow> nat \<Rightarrow> (cmd \<times> nat) outcome" where
  "parsepipe P buf i =
     bnd (P N_exec buf i) (\<lambda>(c, i).
     let (bar, i) = peek buf i ''|''
     in if \<not> bar then Ok (c, i)
        else
          let (_, _, _, i) = gettoken buf i
          in bnd (P N_pipe buf i) (\<lambda>(d, i). Ok (pipecmd c d, i)))"

definition parseblock :: "nat \<Rightarrow> (nonterm \<Rightarrow> string \<Rightarrow> nat \<Rightarrow> (cmd \<times> nat) outcome) \<Rightarrow> string \<Rightarrow> nat \<Rightarrow> (cmd \<times> nat) outcome" where
  "parseblock n P buf i =
     (let (lpar, i) = peek buf i ''(''
      in if \<not> lpar then upanic ''parseblock''
         else
           let (_, _, _, i) = gettoken buf i
           in bnd (P N_line buf i) (\<lambda>(c, i).
              let (rpar, i) = peek buf i '')''
              in if \<not> rpar then upanic ''syntax - missing )''
                 else let (_, _, _, i) = gettoken buf i in parseredirs n c buf i))"

definition parseexec :: "nat \<Rightarrow> (nonterm \<Rightarrow> string \<Rightarrow> nat \<Rightarrow> (cmd \<times> nat) outcome) \<Rightarrow> string \<Rightarrow> nat \<Rightarrow> (cmd \<times> nat) outcome" where
  "parseexec n P buf i =
     (let (lpar, i) = peek buf i ''(''
      in if lpar then P N_block buf i
         else
           bnd (parseredirs n execcmd buf i) (\<lambda>(c, i).
           parseargs n 0 c buf i))"

primrec parse :: "nat \<Rightarrow> nonterm \<Rightarrow> string \<Rightarrow> nat \<Rightarrow> (cmd \<times> nat) outcome" where
  "parse 0 nt = (\<lambda>buf i. Spin)"
| "parse (Suc n) nt =
     (case nt of
        N_line \<Rightarrow> parseline n (parse n)
      | N_pipe \<Rightarrow> parsepipe (parse n)
      | N_block \<Rightarrow> parseblock n (parse n)
      | N_exec \<Rightarrow> parseexec n (parse n))"

text \<open>\<^verbatim>\<open>nulterminate\<close> writes a null character behind every word; at the end of the text there already is one.\<close>

fun nulterminate :: "cmd \<Rightarrow> string \<Rightarrow> string" where
  "nulterminate (Exec as) buf = fold (\<lambda>(q, eq) buf. buf[eq := NUL]) as buf"
| "nulterminate (Redir c q eq m fd) buf = (nulterminate c buf)[eq := NUL]"
| "nulterminate (Pipe c d) buf = nulterminate d (nulterminate c buf)"
| "nulterminate (Lst c d) buf = nulterminate d (nulterminate c buf)"
| "nulterminate (Back c) buf = nulterminate c buf"

definition cstr_at :: "string \<Rightarrow> nat \<Rightarrow> string" where
  "cstr_at buf i = takeWhile (\<lambda>c. c \<noteq> NUL) (drop i buf)"

definition fuel_for :: "string \<Rightarrow> nat" where
  "fuel_for buf = 4 * length buf + 4"

definition parsecmd :: "string \<Rightarrow> (cmd \<times> string) outcome" where
  "parsecmd b =
     (let buf = cstr_at b 0
      in bnd (parse (fuel_for buf) N_line buf 0) (\<lambda>(c, i).
         let (_, i) = peek buf i []
         in if i \<noteq> length buf
            then Panic (''leftovers: '' @ drop i buf @ [CHR 0x0A] @ ''syntax'' @ [CHR 0x0A])
            else Ok (c, nulterminate c buf)))"

section \<open>Running commands\<close>

text \<open>\<^verbatim>\<open>panic\<close> and \<^verbatim>\<open>fork1\<close>: a failed fork ends the process.\<close>

definition sh_panic :: "string \<Rightarrow> prog" where
  "sh_panic m = u_printf 2 (''%s'' @ nl) [U_str (Some m)] Exit"

definition fork1 :: "prog \<Rightarrow> prog \<Rightarrow> prog" where
  "fork1 child parent =
     Call Rq_fork (\<lambda>a. if a_ret a = - 1 then sh_panic ''fork'' else if a_ret a = 0 then child else parent)"

text \<open>The strings of a command are read from the buffer \<open>t\<close> that \<^verbatim>\<open>nulterminate\<close> has left.\<close>

fun runcmd :: "string \<Rightarrow> cmd \<Rightarrow> prog" where
  "runcmd t (Exec as) =
     (case as of
        [] \<Rightarrow> Exit
      | (q, eq) # _ \<Rightarrow>
          Call (Rq_exec (cstr_at t q) (map (\<lambda>(q, eq). cstr_at t q) as)) (\<lambda>_.
          u_printf 2 (''exec %s failed'' @ nl) [U_str (Some (cstr_at t q))] Exit))"
| "runcmd t (Redir c q eq m fd) =
     Call (Rq_close fd) (\<lambda>_.
     Call (Rq_open (cstr_at t q) m) (\<lambda>a.
       if a_ret a < 0 then u_printf 2 (''open %s failed'' @ nl) [U_str (Some (cstr_at t q))] Exit
       else runcmd t c))"
| "runcmd t (Lst c d) = fork1 (runcmd t c) (Call Rq_wait (\<lambda>_. runcmd t d))"
| "runcmd t (Pipe c d) =
     Call Rq_pipe (\<lambda>a.
       if a_ret a < 0 then sh_panic ''pipe''
       else
         let (p0, p1) = a_fds a
         in fork1 (Call (Rq_close 1) (\<lambda>_. Call (Rq_dup p1) (\<lambda>_. Call (Rq_close p0) (\<lambda>_. Call (Rq_close p1) (\<lambda>_. runcmd t c)))))
           (fork1 (Call (Rq_close 0) (\<lambda>_. Call (Rq_dup p0) (\<lambda>_. Call (Rq_close p0) (\<lambda>_. Call (Rq_close p1) (\<lambda>_. runcmd t d)))))
              (Call (Rq_close p0) (\<lambda>_. Call (Rq_close p1) (\<lambda>_. Call Rq_wait (\<lambda>_. Call Rq_wait (\<lambda>_. Exit)))))))"
| "runcmd t (Back c) = fork1 (runcmd t c) Exit"

definition getcmd :: "nat \<Rightarrow> (int \<Rightarrow> string \<Rightarrow> prog) \<Rightarrow> prog" where
  "getcmd nbuf k = u_printf 2 ''$ '' [] (gets nbuf (\<lambda>b. k (if cstr_at b 0 = [] then - 1 else 0) (cstr_at b 0)))"

text \<open>The commands that the shell carries out itself. Comparing a prefix is what \<^verbatim>\<open>strncmp\<close> is used for.\<close>

definition has_prefix :: "string \<Rightarrow> string \<Rightarrow> bool" where
  "has_prefix w p \<longleftrightarrow> take (length w) p = w"

definition chomp :: "string \<Rightarrow> string" where
  "chomp p = dropWhile (\<lambda>ch. ch = CHR '' '') p"

definition makeint :: "string \<Rightarrow> uint32" where
  "makeint p =
     fold (\<lambda>ch v. 10 * v + (of_char ch - 48)) (takeWhile (\<lambda>ch. of_char ch \<ge> (48::nat) \<and> of_char ch \<le> (57::nat)) p) 0"

definition setbuiltin :: "string \<Rightarrow> prog \<Rightarrow> prog" where
  "setbuiltin p k =
     (let p = chomp (drop 4 p)
      in if has_prefix ''uid'' p then Call (Rq_setuid (sint (makeint (chomp (drop 3 p))))) (\<lambda>_. k)
         else if has_prefix ''gid'' p then Call (Rq_setgid (sint (makeint (chomp (drop 3 p))))) (\<lambda>_. k)
         else u_printf 2 (''Invalid _set parameter'' @ nl) [] k)"

definition getbuiltin :: "string \<Rightarrow> prog \<Rightarrow> prog" where
  "getbuiltin p k =
     (let p = chomp (drop 4 p)
      in if has_prefix ''uid'' p then Call Rq_getuid (\<lambda>a. u_printf 2 (''%d'' @ nl) [U_int (of_int (a_ret a))] k)
         else if has_prefix ''gid'' p then Call Rq_getgid (\<lambda>a. u_printf 2 (''%d'' @ nl) [U_int (of_int (a_ret a))] k)
         else u_printf 2 (''Invalid _get parameter'' @ nl) [] k)"

definition dobuiltin :: "string \<Rightarrow> prog \<Rightarrow> prog" where
  "dobuiltin b k =
     foldr (\<lambda>(w, f) k. if has_prefix w b then f b k else k) [(''_set'', setbuiltin), (''_get'', getbuiltin)] k"

definition sh_child :: "string \<Rightarrow> prog" where
  "sh_child b =
     (case parsecmd b of
        Ok (c, t) \<Rightarrow> runcmd t c
      | Panic m \<Rightarrow> foldr (u_putc 2) m Exit
      | Fault \<Rightarrow> Undef
      | Spin \<Rightarrow> Cut)"

fun sh_loop :: "nat \<Rightarrow> prog" where
  "sh_loop 0 = Cut"
| "sh_loop (Suc n) =
     getcmd 100 (\<lambda>r b.
       if r < 0 then Exit
       else if has_prefix ''cd '' b
       then
         let d = drop 3 (butlast b)
         in Call (Rq_chdir d) (\<lambda>a.
              if a_ret a < 0 then u_printf 2 (''cannot cd %s'' @ nl) [U_str (Some d)] (sh_loop n) else sh_loop n)
       else if has_prefix ''_'' b then dobuiltin b (sh_loop n)
       else fork1 (sh_child b) (Call Rq_wait (\<lambda>_. sh_loop n)))"

fun open_console :: "nat \<Rightarrow> prog \<Rightarrow> prog" where
  "open_console 0 k = Cut"
| "open_console (Suc n) k =
     Call (Rq_open ''console'' 2) (\<lambda>a.
       if a_ret a < 0 then k
       else if a_ret a \<ge> 3 then Call (Rq_close (a_ret a)) (\<lambda>_. k)
       else open_console n k)"

definition main_sh :: "nat \<Rightarrow> nat \<Rightarrow> prog" where
  "main_sh n m = open_console n (sh_loop m)"

end
