(* ===== verification/ShellProps.thy ===== *)
theory ShellProps
  imports Shell
begin

text \<open>
  Correctness of the parser of the shell: it returns on every input, it accepts exactly a grammar over tokens, and the
  words of a command are strings of their own when it has been parsed. The parser on positions is first shown to
  do what the same parser does on the list of tokens; the rest is about lists.
\<close>

section \<open>Lexical analysis\<close>

type_synonym token = "char \<times> nat \<times> nat"

lemma skip_white_le: "i \<le> skip_white buf i" "i \<le> length buf \<Longrightarrow> skip_white buf i \<le> length buf"
proof -
  show "i \<le> skip_white buf i" by (simp add: skip_white_def)
  show "i \<le> length buf \<Longrightarrow> skip_white buf i \<le> length buf"
    using length_takeWhile_le [of "\<lambda>c. c \<in> set whitespace" "drop i buf"] by (simp add: skip_white_def)
qed

lemma at_skip_white: "at buf (skip_white buf i) \<notin> set whitespace"
proof (cases "skip_white buf i < length buf")
  case True
  let ?w = "takeWhile (\<lambda>c. c \<in> set whitespace) (drop i buf)"
  have "length ?w < length (drop i buf)" using True by (simp add: skip_white_def)
  then show ?thesis using True nth_length_takeWhile [of "\<lambda>c. c \<in> set whitespace" "drop i buf"]
    by (simp add: at_def skip_white_def)
next
  case False
  then show ?thesis by (simp add: at_def NUL_def whitespace_def)
qed

lemma skip_white_idem [simp]: "skip_white buf (skip_white buf i) = skip_white buf i"
proof (cases "skip_white buf i < length buf")
  case True
  then have "drop (skip_white buf i) buf = at buf (skip_white buf i) # drop (Suc (skip_white buf i)) buf"
    by (simp add: at_def Cons_nth_drop_Suc)
  then show ?thesis using at_skip_white [of buf i] by (simp add: skip_white_def [of buf "skip_white buf i"])
qed (simp add: skip_white_def [of buf "skip_white buf i"])

lemma gettoken_skip [simp]: "gettoken buf (skip_white buf i) = gettoken buf i"
  by (simp add: gettoken_def)

lemma gettoken_progress:
  assumes "gettoken buf i = (t, q, eq, j)" and "t \<noteq> NUL"
  shows "i \<le> q \<and> q < length buf \<and> q < eq \<and> eq \<le> j"
proof -
  have q: "q = skip_white buf i" and j: "j = skip_white buf eq"
    using assms(1) by (auto simp: gettoken_def Let_def split: prod.splits)
  have n: "at buf q \<noteq> NUL" using assms by (auto simp: gettoken_def Let_def split: if_splits)
  then have len: "q < length buf" by (auto simp: at_def split: if_splits)
  have "q < eq"
  proof (cases "at buf q \<in> set symbols")
    case True
    then show ?thesis using assms(1) n by (auto simp: gettoken_def Let_def symbols_def split: if_splits)
  next
    case False
    have "drop q buf = at buf q # drop (Suc q) buf" using len by (simp add: at_def Cons_nth_drop_Suc)
    then have "takeWhile (\<lambda>c. c \<notin> set whitespace \<and> c \<notin> set symbols) (drop q buf) \<noteq> []"
      using at_skip_white [of buf i] False q by simp
    moreover have "eq = q + length (takeWhile (\<lambda>c. c \<notin> set whitespace \<and> c \<notin> set symbols) (drop q buf))"
      using assms(1) n False by (auto simp: gettoken_def Let_def symbols_def split: if_splits)
    ultimately show ?thesis by simp
  qed
  then show ?thesis using len q j skip_white_le(1) by auto
qed

text \<open>All tokens from a position on: the kind and the two ends of each.\<close>

function tokens :: "string \<Rightarrow> nat \<Rightarrow> token list" where
  "tokens buf i =
     (case gettoken buf i of (t, q, eq, j) \<Rightarrow> if t = NUL then [] else (t, q, eq) # tokens buf j)"
  by pat_completeness auto
termination
  by (relation "measure (\<lambda>(buf, i). length buf - i)") (auto dest!: gettoken_progress [OF sym])

declare tokens.simps [simp del]

lemma tokens_skip [simp]: "tokens buf (skip_white buf i) = tokens buf i"
  by (subst (1 2) tokens.simps) simp

text \<open>The first character of a token of a kind that is not a word.\<close>

definition lead :: "char \<Rightarrow> char" where
  "lead t = (if t = CHR ''+'' then CHR ''>'' else t)"

definition next_in :: "string \<Rightarrow> token list \<Rightarrow> bool" where
  "next_in toks ts = (case ts of [] \<Rightarrow> False | (t, _) # _ \<Rightarrow> lead t \<in> set toks)"

lemma peek_tokens:
  assumes "set toks \<subseteq> set symbols"
  shows "peek buf i toks = (next_in toks (tokens buf i), skip_white buf i)"
proof -
  let ?q = "skip_white buf i"
  obtain t q eq j where g: "gettoken buf i = (t, q, eq, j)" by (cases "gettoken buf i") auto
  have k: "t = NUL \<longleftrightarrow> at buf ?q = NUL" "at buf ?q \<noteq> NUL \<Longrightarrow> at buf ?q \<in> set symbols \<Longrightarrow> lead t = at buf ?q"
    "at buf ?q \<noteq> NUL \<Longrightarrow> at buf ?q \<notin> set symbols \<Longrightarrow> lead t \<notin> set symbols"
    using g by (auto simp: gettoken_def Let_def lead_def symbols_def NUL_def split: if_splits)
  have "next_in toks (tokens buf i) \<longleftrightarrow> t \<noteq> NUL \<and> lead t \<in> set toks"
    by (subst tokens.simps) (simp add: next_in_def g)
  then show ?thesis using k assms by (cases "at buf ?q \<in> set symbols") (auto simp: peek_def Let_def)
qed

lemma gettoken_tokens:
  assumes "gettoken buf i = (t, q, eq, j)"
  shows "tokens buf i = (if t = NUL then [] else (t, q, eq) # tokens buf j)"
  by (subst tokens.simps) (simp add: assms)

text \<open>A text without null characters has been read completely when no token is left.\<close>

lemma tokens_Nil:
  assumes "NUL \<notin> set buf" and "i \<le> length buf"
  shows "tokens buf i = [] \<longleftrightarrow> skip_white buf i = length buf"
proof -
  obtain t q eq j where g: "gettoken buf i = (t, q, eq, j)" by (cases "gettoken buf i") auto
  have "t = NUL \<longleftrightarrow> at buf (skip_white buf i) = NUL"
    using g by (auto simp: gettoken_def Let_def NUL_def split: if_splits)
  also have "\<dots> \<longleftrightarrow> \<not> skip_white buf i < length buf"
    using assms(1) nth_mem by (fastforce simp: at_def)
  finally show ?thesis using gettoken_tokens [OF g] skip_white_le(2) [OF assms(2)] by auto
qed

lemma gettoken_bound:
  assumes "gettoken buf i = (t, q, eq, j)" and "i \<le> length buf"
  shows "j \<le> length buf"
proof -
  have le: "q + length (takeWhile P (drop q buf)) \<le> length buf" if "q \<le> length buf" for P
    using length_takeWhile_le [of P "drop q buf"] that by simp
  have q: "q = skip_white buf i" "q \<le> length buf" and j: "j = skip_white buf eq"
    using assms skip_white_le(2) by (auto simp: gettoken_def Let_def split: prod.splits)
  have "eq \<le> length buf"
    using assms(1) q le [OF q(2)] by (auto simp: gettoken_def Let_def at_def NUL_def split: if_splits)
  then show ?thesis using j skip_white_le(2) by simp
qed

section \<open>The parser on tokens\<close>

text \<open>The same parser with the list of remaining tokens in place of the position.\<close>

fun p_redirs :: "nat \<Rightarrow> cmd \<Rightarrow> token list \<Rightarrow> (cmd \<times> token list) outcome" where
  "p_redirs 0 c ts = Spin"
| "p_redirs (Suc n) c ts =
     (if \<not> next_in ''<>'' ts then Ok (c, ts)
      else case tl ts of
        [] \<Rightarrow> upanic ''missing file for redirection''
      | (w, q, eq) # us \<Rightarrow>
          if w \<noteq> CHR ''a'' then upanic ''missing file for redirection''
          else p_redirs n (redir (fst (hd ts)) q eq c) us)"

fun p_args :: "nat \<Rightarrow> nat \<Rightarrow> cmd \<Rightarrow> token list \<Rightarrow> (cmd \<times> token list) outcome" where
  "p_args 0 argc c ts = Spin"
| "p_args (Suc n) argc c ts =
     (if next_in ''|)&;'' ts then Ok (c, ts)
      else case ts of
        [] \<Rightarrow> Ok (c, [])
      | (w, q, eq) # us \<Rightarrow>
          if w \<noteq> CHR ''a'' then upanic ''syntax''
          else if argc + 1 \<ge> MAXARGS then upanic ''too many args''
          else bnd (p_redirs n (add_arg (q, eq) c) us) (\<lambda>(c, us). p_args n (argc + 1) c us))"

fun p_backs :: "nat \<Rightarrow> cmd \<Rightarrow> token list \<Rightarrow> (cmd \<times> token list) outcome" where
  "p_backs 0 c ts = Spin"
| "p_backs (Suc n) c ts = (if \<not> next_in ''&'' ts then Ok (c, ts) else p_backs n (Back c) (tl ts))"

primrec p_parse :: "nat \<Rightarrow> nonterm \<Rightarrow> token list \<Rightarrow> (cmd \<times> token list) outcome" where
  "p_parse 0 nt = (\<lambda>ts. Spin)"
| "p_parse (Suc n) nt = (\<lambda>ts.
     case nt of
       N_line \<Rightarrow>
         bnd (p_parse n N_pipe ts) (\<lambda>(c, ts).
         bnd (p_backs n c ts) (\<lambda>(c, ts).
         if \<not> next_in '';'' ts then Ok (c, ts)
         else bnd (p_parse n N_line (tl ts)) (\<lambda>(d, ts). Ok (Lst c d, ts))))
     | N_pipe \<Rightarrow>
         bnd (p_parse n N_exec ts) (\<lambda>(c, ts).
         if \<not> next_in ''|'' ts then Ok (c, ts)
         else bnd (p_parse n N_pipe (tl ts)) (\<lambda>(d, ts). Ok (Pipe c d, ts)))
     | N_block \<Rightarrow>
         if \<not> next_in ''('' ts then upanic ''parseblock''
         else
           bnd (p_parse n N_line (tl ts)) (\<lambda>(c, ts).
           if \<not> next_in '')'' ts then upanic ''syntax - missing )''
           else p_redirs n c (tl ts))
     | N_exec \<Rightarrow>
         if next_in ''('' ts then p_parse n N_block ts
         else bnd (p_redirs n (Exec []) ts) (\<lambda>(c, ts). p_args n 0 c ts))"

text \<open>The result of the parser with the remaining text as tokens; a position past the end would be a fault.\<close>

definition lexed :: "string \<Rightarrow> (cmd \<times> nat) outcome \<Rightarrow> (cmd \<times> token list) outcome" where
  "lexed buf r = bnd r (\<lambda>(c, i). if i \<le> length buf then Ok (c, tokens buf i) else Fault)"

lemma lexed_simps [simp]:
  "i \<le> length buf \<Longrightarrow> lexed buf (Ok (c, i)) = Ok (c, tokens buf i)" "lexed buf (upanic m) = upanic m" "lexed buf Spin = Spin"
  by (simp_all add: lexed_def upanic_def)

lemma lexed_bnd:
  assumes "lexed buf m = m'" and "m' \<noteq> Fault" and "\<And>c i. i \<le> length buf \<Longrightarrow> lexed buf (f c i) = f' c (tokens buf i)"
  shows "lexed buf (bnd m (\<lambda>(c, i). f c i)) = bnd m' (\<lambda>(c, ts). f' c ts)"
  using assms by (cases m) (auto simp: lexed_def split: if_splits)

text \<open>Taking a token.\<close>

lemma take_token:
  assumes "next_in toks (tokens buf i)" and "i \<le> length buf"
  obtains t q eq j where "gettoken buf i = (t, q, eq, j)" "tokens buf i = (t, q, eq) # tokens buf j" "j \<le> length buf"
proof -
  obtain t q eq j where g: "gettoken buf i = (t, q, eq, j)" by (cases "gettoken buf i") auto
  have "t \<noteq> NUL" using assms(1) gettoken_tokens [OF g] by (auto simp: next_in_def)
  then show thesis using that g gettoken_tokens [OF g] gettoken_bound [OF g assms(2)] by simp
qed

lemma bnd_Fault: "bnd m f = Fault \<longleftrightarrow> m = Fault \<or> (\<exists>x. m = Ok x \<and> f x = Fault)"
  by (cases m) auto

lemma p_redirs_no_fault: "p_redirs n c ts \<noteq> Fault"
  by (induction n arbitrary: c ts) (auto simp: upanic_def split: list.splits)

lemma p_args_no_fault: "p_args n k c ts \<noteq> Fault"
  by (induction n arbitrary: k c ts) (auto simp: upanic_def bnd_Fault p_redirs_no_fault split: list.splits)

lemma p_backs_no_fault: "p_backs n c ts \<noteq> Fault"
  by (induction n arbitrary: c ts) auto

lemma p_no_fault: "p_parse n nt ts \<noteq> Fault"
  by (induction n arbitrary: nt ts)
    (auto simp: upanic_def bnd_Fault p_redirs_no_fault p_args_no_fault p_backs_no_fault split: if_splits nonterm.splits)

lemma lexed_peek:
  assumes "i \<le> length buf" and "set toks \<subseteq> set symbols"
    and "\<And>j. j \<le> length buf \<Longrightarrow> lexed buf (f j) = f' (tokens buf j)"
  shows "lexed buf (let (b, i) = peek buf i toks in if \<not> b then Ok (c, i) else let (_, _, _, i) = gettoken buf i in f i) =
    (if \<not> next_in toks (tokens buf i) then Ok (c, tokens buf i) else f' (tl (tokens buf i)))"
proof (cases "next_in toks (tokens buf i)")
  case True
  from take_token [OF this assms(1)] obtain t q eq j where
    g: "gettoken buf i = (t, q, eq, j)" "tokens buf i = (t, q, eq) # tokens buf j" "j \<le> length buf" .
  then show ?thesis using True assms(2,3) by (simp add: peek_tokens)
next
  case False
  then show ?thesis using assms skip_white_le(2) by (simp add: peek_tokens)
qed

lemma parseredirs_tokens:
  "i \<le> length buf \<Longrightarrow> lexed buf (parseredirs n c buf i) = p_redirs n c (tokens buf i)"
proof (induction n arbitrary: c i)
  case (Suc n)
  have s: "set ''<>'' \<subseteq> set symbols" by (simp add: symbols_def)
  show ?case
  proof (cases "next_in ''<>'' (tokens buf i)")
    case True
    from take_token [OF this Suc.prems] obtain t q eq j where
      g: "gettoken buf i = (t, q, eq, j)" "tokens buf i = (t, q, eq) # tokens buf j" "j \<le> length buf" .
    obtain w q2 eq2 k where h: "gettoken buf j = (w, q2, eq2, k)" by (cases "gettoken buf j") auto
    show ?thesis using True g h gettoken_tokens [OF h] Suc.IH [OF gettoken_bound [OF h g(3)]]
      by (auto simp: peek_tokens [OF s] NUL_def)
  next
    case False
    then show ?thesis using Suc.prems skip_white_le(2) by (simp add: peek_tokens [OF s])
  qed
qed simp

lemma gettoken_end: "gettoken buf i = (t, q, eq, j) \<Longrightarrow> t = NUL \<Longrightarrow> tokens buf j = []"
proof -
  assume g: "gettoken buf i = (t, q, eq, j)" and t: "t = NUL"
  then have "j = skip_white buf i" by (auto simp: gettoken_def Let_def NUL_def split: if_splits)
  then show ?thesis using gettoken_tokens [OF g] t by simp
qed

lemma parseargs_tokens:
  "i \<le> length buf \<Longrightarrow> lexed buf (parseargs n k c buf i) = p_args n k c (tokens buf i)"
proof (induction n arbitrary: k c i)
  case (Suc n)
  have s: "set ''|)&;'' \<subseteq> set symbols" by (simp add: symbols_def)
  obtain w q eq j where g: "gettoken buf i = (w, q, eq, j)" by (cases "gettoken buf i") auto
  have j: "j \<le> length buf" by (rule gettoken_bound [OF g Suc.prems])
  have "lexed buf (bnd (parseredirs n c' buf j) (\<lambda>(c, i). parseargs n (Suc k) c buf i)) =
      bnd (p_redirs n c' (tokens buf j)) (\<lambda>(c, us). p_args n (Suc k) c us)" for c'
    by (rule lexed_bnd [OF parseredirs_tokens [OF j] p_redirs_no_fault]) (rule Suc.IH)
  then show ?case using Suc.prems skip_white_le(2) [OF Suc.prems] j gettoken_end [OF g]
    by (auto simp: peek_tokens [OF s] g gettoken_tokens [OF g] next_in_def)
qed simp

lemma parsebacks_tokens:
  "i \<le> length buf \<Longrightarrow> lexed buf (parsebacks n c buf i) = p_backs n c (tokens buf i)"
proof (induction n arbitrary: c i)
  case (Suc n)
  show ?case unfolding parsebacks.simps p_backs.simps cmd_simps
    by (rule lexed_peek [OF Suc.prems]) (simp_all add: Suc.IH symbols_def)
qed simp

text \<open>The symbols that the parser looks for.\<close>

lemma peek_sets:
  "set ''<>'' \<subseteq> set symbols" "set ''|)&;'' \<subseteq> set symbols" "set ''&'' \<subseteq> set symbols" "set '';'' \<subseteq> set symbols"
  "set ''|'' \<subseteq> set symbols" "set ''('' \<subseteq> set symbols" "set '')'' \<subseteq> set symbols"
  by (simp_all add: symbols_def)

lemma parser_tokens:
  "i \<le> length buf \<Longrightarrow> lexed buf (parse n nt buf i) = p_parse n nt (tokens buf i)"
proof (induction n arbitrary: nt i)
  case (Suc n)
  note i = Suc.prems
  have sub: "lexed buf (bnd (parse n m buf j) (\<lambda>(d, i). Ok (f d, i))) =
      bnd (p_parse n m (tokens buf j)) (\<lambda>(d, ts). Ok (f d, ts))" if "j \<le> length buf" for j f m
    by (rule lexed_bnd [OF Suc.IH [OF that] p_no_fault]) simp
  show ?case
  proof (cases nt)
    case N_line
    show ?thesis unfolding N_line parse.simps p_parse.simps nonterm.case parseline_def cmd_simps
      by (rule lexed_bnd [OF Suc.IH [OF i] p_no_fault], rule lexed_bnd [OF parsebacks_tokens p_backs_no_fault], assumption,
        rule lexed_peek [OF _ peek_sets(4)], assumption) (rule sub)
  next
    case N_pipe
    show ?thesis unfolding N_pipe parse.simps p_parse.simps nonterm.case parsepipe_def cmd_simps
      by (rule lexed_bnd [OF Suc.IH [OF i] p_no_fault], rule lexed_peek [OF _ peek_sets(5)], assumption) (rule sub)
  next
    case N_exec
    have s: "skip_white buf i \<le> length buf" by (rule skip_white_le(2) [OF i])
    have "lexed buf (bnd (parseredirs n (Exec []) buf (skip_white buf i)) (\<lambda>(c, i). parseargs n 0 c buf i)) =
        bnd (p_redirs n (Exec []) (tokens buf i)) (\<lambda>(c, ts). p_args n 0 c ts)"
      using lexed_bnd [OF parseredirs_tokens [OF s] p_redirs_no_fault, where f' = "p_args n 0"] parseargs_tokens by simp
    then show ?thesis using Suc.IH [OF s] by (simp add: N_exec parseexec_def peek_tokens [OF peek_sets(6)])
  next
    case N_block
    show ?thesis
    proof (cases "next_in ''('' (tokens buf i)")
      case True
      from take_token [OF this i] obtain t q eq j where
        g: "gettoken buf i = (t, q, eq, j)" "tokens buf i = (t, q, eq) # tokens buf j" "j \<le> length buf" .
      have blk: "lexed buf (let (rpar, i) = peek buf k '')'' in if \<not> rpar then upanic ''syntax - missing )''
            else let (_, _, _, i) = gettoken buf i in parseredirs n c buf i) =
          (if \<not> next_in '')'' (tokens buf k) then upanic ''syntax - missing )'' else p_redirs n c (tl (tokens buf k)))"
        if k: "k \<le> length buf" for c k
      proof (cases "next_in '')'' (tokens buf k)")
        case True
        from take_token [OF this k] obtain t q eq j where
          g: "gettoken buf k = (t, q, eq, j)" "tokens buf k = (t, q, eq) # tokens buf j" "j \<le> length buf" .
        then show ?thesis using True by (simp add: peek_tokens [OF peek_sets(7)] parseredirs_tokens)
      qed (simp add: peek_tokens [OF peek_sets(7)])
      have "lexed buf (bnd (parse n N_line buf j) (\<lambda>(c, i). let (rpar, i) = peek buf i '')''
            in if \<not> rpar then upanic ''syntax - missing )'' else let (_, _, _, i) = gettoken buf i in parseredirs n c buf i)) =
          bnd (p_parse n N_line (tokens buf j)) (\<lambda>(c, ts). if \<not> next_in '')'' ts then upanic ''syntax - missing )''
            else p_redirs n c (tl ts))"
        by (rule lexed_bnd [OF Suc.IH [OF g(3)] p_no_fault]) (rule blk)
      then show ?thesis using True g by (simp add: N_block parseblock_def peek_tokens [OF peek_sets(6)])
    qed (simp add: N_block parseblock_def peek_tokens [OF peek_sets(6)])
  qed
qed simp

section \<open>The grammar\<close>

text \<open>
  What the parser is meant to accept, as a grammar over tokens with the command each phrase denotes. A word is a token
  of kind \<open>a\<close>, an operator one of its own kind; \<open>+\<close> stands for two greater-than signs.
\<close>

inductive g_redirs :: "token list \<Rightarrow> cmd \<Rightarrow> cmd \<Rightarrow> bool" where
  g_redirs_Nil: "g_redirs [] c c"
| g_redirs_Cons: "op \<in> set ''<>+'' \<Longrightarrow> g_redirs ts (redir op q eq c) d \<Longrightarrow>
    g_redirs ((op, p) # (CHR ''a'', q, eq) # ts) c d"

inductive g_args :: "token list \<Rightarrow> nat \<Rightarrow> cmd \<Rightarrow> cmd \<Rightarrow> bool" where
  g_args_Nil: "g_args [] k c c"
| g_args_Cons: "k + 1 < MAXARGS \<Longrightarrow> g_redirs rs (add_arg (q, eq) c) d \<Longrightarrow> g_args ts (k + 1) d e \<Longrightarrow>
    g_args ((CHR ''a'', q, eq) # rs @ ts) k c e"

inductive g_backs :: "token list \<Rightarrow> cmd \<Rightarrow> cmd \<Rightarrow> bool" where
  g_backs_Nil: "g_backs [] c c"
| g_backs_Cons: "g_backs ts (Back c) d \<Longrightarrow> g_backs ((CHR ''&'', p) # ts) c d"

inductive g :: "nonterm \<Rightarrow> token list \<Rightarrow> cmd \<Rightarrow> bool" where
  g_line: "g N_pipe ts c \<Longrightarrow> g_backs bs c d \<Longrightarrow> g N_line (ts @ bs) d"
| g_list: "g N_pipe ts c \<Longrightarrow> g_backs bs c d \<Longrightarrow> g N_line us e \<Longrightarrow> g N_line (ts @ bs @ (CHR '';'', p) # us) (Lst d e)"
| g_pipe: "g N_exec ts c \<Longrightarrow> g N_pipe ts c"
| g_bar: "g N_exec ts c \<Longrightarrow> g N_pipe us d \<Longrightarrow> g N_pipe (ts @ (CHR ''|'', p) # us) (Pipe c d)"
| g_block: "g N_line ts c \<Longrightarrow> g_redirs rs c d \<Longrightarrow> g N_block ((CHR ''('', p) # ts @ (CHR '')'', p') # rs) d"
| g_paren: "g N_block ts c \<Longrightarrow> g N_exec ts c"
| g_exec: "g_redirs rs (Exec []) c \<Longrightarrow> g_args ts 0 c d \<Longrightarrow> g N_exec (rs @ ts) d"

lemma next_in_Cons [simp]: "next_in toks ((t, p) # ts) = (lead t \<in> set toks)" "\<not> next_in toks []"
  by (simp_all add: next_in_def)

lemma next_in_D:
  assumes "next_in toks ts"
  obtains t p us where "ts = (t, p) # us" "lead t \<in> set toks"
  using assms by (cases ts) (auto simp: next_in_def)

lemma lead_sym: "lead t = ch \<Longrightarrow> ch \<noteq> CHR ''>'' \<Longrightarrow> t = ch" "lead t = CHR ''>'' \<Longrightarrow> t = CHR ''>'' \<or> t = CHR ''+''"
  by (auto simp: lead_def split: if_splits)

subsection \<open>Soundness\<close>

lemma p_redirs_sound:
  "p_redirs n c ts = Ok (d, us) \<Longrightarrow> \<exists>vs. ts = vs @ us \<and> g_redirs vs c d"
proof (induction n arbitrary: c ts)
  case (Suc n)
  show ?case
  proof (cases "next_in ''<>'' ts")
    case True
    then obtain t p ts' where ts: "ts = (t, p) # ts'" "lead t \<in> set ''<>''" by (rule next_in_D)
    have t: "t \<in> set ''<>+''" using ts(2) lead_sym [of t] by auto
    obtain q eq vs where v: "ts' = (CHR ''a'', q, eq) # vs" "p_redirs n (redir t q eq c) vs = Ok (d, us)"
      using Suc.prems True ts by (auto simp: upanic_def split: list.splits if_splits)
    then obtain ws where "vs = ws @ us" "g_redirs ws (redir t q eq c) d" using Suc.IH by blast
    then show ?thesis using g_redirs_Cons [OF t] ts v by (intro exI [of _ "(t, p) # (CHR ''a'', q, eq) # ws"]) simp
  next
    case False
    then show ?thesis using Suc.prems g_redirs_Nil by auto
  qed
qed simp

lemma p_args_sound:
  "p_args n k c ts = Ok (d, us) \<Longrightarrow> \<exists>vs. ts = vs @ us \<and> g_args vs k c d"
proof (induction n arbitrary: k c ts)
  case (Suc n)
  show ?case
  proof (cases "next_in ''|)&;'' ts \<or> ts = []")
    case True
    then show ?thesis using Suc.prems g_args_Nil by auto
  next
    case False
    then obtain q eq ts' e vs where v: "ts = (CHR ''a'', q, eq) # ts'" "k + 1 < MAXARGS"
      "p_redirs n (add_arg (q, eq) c) ts' = Ok (e, vs)" "p_args n (k + 1) e vs = Ok (d, us)"
      using Suc.prems by (auto simp: upanic_def bnd_eq_Ok_iff split: list.splits if_splits)
    obtain rs ws where "ts' = rs @ vs" "g_redirs rs (add_arg (q, eq) c) e" "vs = ws @ us" "g_args ws (k + 1) e d"
      using p_redirs_sound [OF v(3)] Suc.IH [OF v(4)] by blast
    then show ?thesis using g_args_Cons [OF v(2)] v(1) by (intro exI [of _ "(CHR ''a'', q, eq) # rs @ ws"]) simp
  qed
qed simp

lemma p_backs_sound:
  "p_backs n c ts = Ok (d, us) \<Longrightarrow> \<exists>vs. ts = vs @ us \<and> g_backs vs c d"
proof (induction n arbitrary: c ts)
  case (Suc n)
  show ?case
  proof (cases "next_in ''&'' ts")
    case True
    then obtain t p ts' where ts: "ts = (t, p) # ts'" "lead t \<in> set ''&''" by (rule next_in_D)
    then have "p_backs n (Back c) ts' = Ok (d, us)" "t = CHR ''&''" using Suc.prems True lead_sym(1) [of t] by auto
    then obtain vs where "ts' = vs @ us" "g_backs vs (Back c) d" using Suc.IH by blast
    then show ?thesis using g_backs_Cons ts \<open>t = _\<close> by (intro exI [of _ "(t, p) # vs"]) simp
  next
    case False
    then show ?thesis using Suc.prems g_backs_Nil by auto
  qed
qed simp

lemma p_sound: "p_parse n nt ts = Ok (d, us) \<Longrightarrow> \<exists>vs. ts = vs @ us \<and> g nt vs d"
proof (induction n arbitrary: nt ts d us)
  case (Suc n)
  have tok: "\<exists>p. ts = (t, p) # tl ts" if "next_in [t] ts" "t \<noteq> CHR ''>''" for t ts
    using that lead_sym(1) by (elim next_in_D) auto
  show ?case
  proof (cases nt)
    case N_line
    then obtain c t1 e t2 where p: "p_parse n N_pipe ts = Ok (c, t1)" "p_backs n c t1 = Ok (e, t2)"
      "(if \<not> next_in '';'' t2 then Ok (e, t2) else bnd (p_parse n N_line (tl t2)) (\<lambda>(d, ts). Ok (Lst e d, ts))) = Ok (d, us)"
      using Suc.prems by (auto simp: bnd_eq_Ok_iff split: if_splits)
    obtain v1 v2 where v: "ts = v1 @ t1" "g N_pipe v1 c" "t1 = v2 @ t2" "g_backs v2 c e"
      using Suc.IH [OF p(1)] p_backs_sound [OF p(2)] by blast
    show ?thesis
    proof (cases "next_in '';'' t2")
      case True
      obtain q where q: "t2 = (CHR '';'', q) # tl t2" using tok [OF True] by auto
      obtain f where f: "p_parse n N_line (tl t2) = Ok (f, us)" "d = Lst e f" using p(3) True by (auto simp: bnd_eq_Ok_iff)
      from Suc.IH [OF f(1)] obtain v3 where v3: "tl t2 = v3 @ us" "g N_line v3 f" by blast
      have "ts = (v1 @ v2 @ (CHR '';'', q) # v3) @ us" using v(1,3) q v3(1) by simp
      then show ?thesis using g_list [OF v(2,4) v3(2)] f(2) N_line by blast
    next
      case False
      then show ?thesis using p(3) v g_line [OF v(2,4)] N_line by (intro exI [of _ "v1 @ v2"]) simp
    qed
  next
    case N_pipe
    then obtain c t1 where p: "p_parse n N_exec ts = Ok (c, t1)"
      "(if \<not> next_in ''|'' t1 then Ok (c, t1) else bnd (p_parse n N_pipe (tl t1)) (\<lambda>(d, ts). Ok (Pipe c d, ts))) = Ok (d, us)"
      using Suc.prems by (auto simp: bnd_eq_Ok_iff split: if_splits)
    obtain v1 where v: "ts = v1 @ t1" "g N_exec v1 c" using Suc.IH [OF p(1)] by blast
    show ?thesis
    proof (cases "next_in ''|'' t1")
      case True
      obtain q where q: "t1 = (CHR ''|'', q) # tl t1" using tok [OF True] by auto
      obtain f where f: "p_parse n N_pipe (tl t1) = Ok (f, us)" "d = Pipe c f" using p(2) True by (auto simp: bnd_eq_Ok_iff)
      from Suc.IH [OF f(1)] obtain v3 where v3: "tl t1 = v3 @ us" "g N_pipe v3 f" by blast
      have "ts = (v1 @ (CHR ''|'', q) # v3) @ us" using v(1) q v3(1) by simp
      then show ?thesis using g_bar [OF v(2) v3(2)] f(2) N_pipe by blast
    next
      case False
      then show ?thesis using p(2) v g_pipe [OF v(2)] N_pipe by auto
    qed
  next
    case N_block
    then have l: "next_in ''('' ts" using Suc.prems by (auto simp: upanic_def split: if_splits)
    then obtain c t1 where p: "p_parse n N_line (tl ts) = Ok (c, t1)" "next_in '')'' t1" "p_redirs n c (tl t1) = Ok (d, us)"
      using Suc.prems N_block by (auto simp: upanic_def bnd_eq_Ok_iff split: if_splits)
    obtain v1 v2 where v: "tl ts = v1 @ t1" "g N_line v1 c" "tl t1 = v2 @ us" "g_redirs v2 c d"
      using Suc.IH [OF p(1)] p_redirs_sound [OF p(3)] by blast
    obtain q q' where q: "ts = (CHR ''('', q) # tl ts" "t1 = (CHR '')'', q') # tl t1"
      using tok [OF l] tok [OF p(2)] by auto
    have "ts = ((CHR ''('', q) # v1 @ (CHR '')'', q') # v2) @ us" using v(1,3) q by simp
    then show ?thesis using g_block [OF v(2,4)] N_block by blast
  next
    case N_exec
    show ?thesis
    proof (cases "next_in ''('' ts")
      case True
      then show ?thesis using Suc.prems Suc.IH [of N_block ts] N_exec g_paren by auto
    next
      case False
      then obtain c t1 where p: "p_redirs n (Exec []) ts = Ok (c, t1)" "p_args n 0 c t1 = Ok (d, us)"
        using Suc.prems N_exec by (auto simp: bnd_eq_Ok_iff)
      obtain v1 v2 where v: "ts = v1 @ t1" "g_redirs v1 (Exec []) c" "t1 = v2 @ us" "g_args v2 0 c d"
        using p_redirs_sound [OF p(1)] p_args_sound [OF p(2)] by blast
      have "ts = (v1 @ v2) @ us" using v(1,3) by simp
      then show ?thesis using g_exec [OF v(2,4)] N_exec by blast
    qed
  qed
qed simp

subsection \<open>Termination\<close>

lemma bnd_Spin: "bnd m f = Spin \<longleftrightarrow> m = Spin \<or> (\<exists>x. m = Ok x \<and> f x = Spin)"
  by (cases m) auto

lemma p_redirs_ends: "length ts < n \<Longrightarrow> p_redirs n c ts \<noteq> Spin"
  by (induction n arbitrary: c ts) (auto simp: upanic_def elim!: next_in_D split: list.splits)

lemma p_backs_ends: "length ts < n \<Longrightarrow> p_backs n c ts \<noteq> Spin"
  by (induction n arbitrary: c ts) (auto elim!: next_in_D)

lemma p_redirs_rest: "p_redirs n c ts = Ok (d, us) \<Longrightarrow> length us \<le> length ts"
  using p_redirs_sound by fastforce

lemma p_backs_rest: "p_backs n c ts = Ok (d, us) \<Longrightarrow> length us \<le> length ts"
  using p_backs_sound by fastforce

lemma p_parse_rest: "p_parse n nt ts = Ok (d, us) \<Longrightarrow> length us \<le> length ts"
  using p_sound by fastforce

lemma p_args_ends: "length ts < n \<Longrightarrow> p_args n k c ts \<noteq> Spin"
proof (induction n arbitrary: k c ts)
  case (Suc n)
  have "p_args n k' e us \<noteq> Spin" if "p_redirs n d (tl ts) = Ok (e, us)" "ts \<noteq> []" for k' d e us
    using Suc p_redirs_rest [OF that(1)] that(2) by (cases ts) auto
  then show ?case using Suc.prems p_redirs_ends [of "tl ts" n]
    by (auto simp: upanic_def bnd_Spin split: list.splits)
qed simp

fun level :: "nonterm \<Rightarrow> nat" where
  "level N_block = 1" | "level N_exec = 2" | "level N_pipe = 3" | "level N_line = 4"

lemma p_parse_ends: "4 * length ts + level nt \<le> n \<Longrightarrow> p_parse n nt ts \<noteq> Spin"
proof (induction n arbitrary: nt ts)
  case 0
  then show ?case by (cases nt) auto
next
  case (Suc n)
  have sub: "p_parse n m us \<noteq> Spin" if "4 * length us + level m \<le> n" for m us
    using Suc.IH that by blast
  have tl: "length (tl us) < length us" if "next_in toks us" for toks and us :: "token list"
    using that by (elim next_in_D) simp
  show ?case
  proof (cases nt)
    case N_line
    have "p_parse n N_pipe ts \<noteq> Spin" using Suc.prems N_line by (intro sub) simp
    moreover have "p_backs n c us \<noteq> Spin" if "p_parse n N_pipe ts = Ok (c, us)" for c us
      using p_parse_rest [OF that] Suc.prems N_line by (intro p_backs_ends) simp
    moreover have "p_parse n N_line (tl vs) \<noteq> Spin"
      if "p_parse n N_pipe ts = Ok (c, us)" "p_backs n c us = Ok (d, vs)" "next_in '';'' vs" for c d us vs
      using p_parse_rest [OF that(1)] p_backs_rest [OF that(2)] tl [OF that(3)] Suc.prems N_line by (intro sub) simp
    ultimately show ?thesis using N_line by (auto simp: bnd_Spin split: if_splits)
  next
    case N_pipe
    have "p_parse n N_exec ts \<noteq> Spin" using Suc.prems N_pipe by (intro sub) simp
    moreover have "p_parse n N_pipe (tl us) \<noteq> Spin" if "p_parse n N_exec ts = Ok (c, us)" "next_in ''|'' us" for c us
      using p_parse_rest [OF that(1)] tl [OF that(2)] Suc.prems N_pipe by (intro sub) simp
    ultimately show ?thesis using N_pipe by (auto simp: bnd_Spin split: if_splits)
  next
    case N_block
    have "p_parse n N_line (tl ts) \<noteq> Spin" if "next_in ''('' ts" using tl [OF that] Suc.prems N_block by (intro sub) simp
    moreover have "p_redirs n c (tl us) \<noteq> Spin" if "p_parse n N_line (tl ts) = Ok (c, us)" "next_in ''('' ts" for c us
      using p_parse_rest [OF that(1)] tl [OF that(2)] Suc.prems N_block by (intro p_redirs_ends) simp
    ultimately show ?thesis using N_block by (auto simp: bnd_Spin upanic_def split: if_splits)
  next
    case N_exec
    have "p_parse n N_block ts \<noteq> Spin" using Suc.prems N_exec by (intro sub) simp
    moreover have "p_redirs n (Exec []) ts \<noteq> Spin" using Suc.prems N_exec by (intro p_redirs_ends) simp
    moreover have "p_args n 0 c us \<noteq> Spin" if "p_redirs n (Exec []) ts = Ok (c, us)" for c us
      using p_redirs_rest [OF that] Suc.prems N_exec by (intro p_args_ends) simp
    ultimately show ?thesis using N_exec by (auto simp: bnd_Spin)
  qed
qed

subsection \<open>Completeness\<close>

text \<open>What may follow a phrase, and that the parser stops there unless its fuel has run out.\<close>

definition follow :: "nonterm \<Rightarrow> token list \<Rightarrow> bool" where
  "follow nt us \<longleftrightarrow> us = [] \<or>
     next_in (case nt of N_line \<Rightarrow> '')'' | N_pipe \<Rightarrow> '')&;'' | N_exec \<Rightarrow> '')&;|'' | N_block \<Rightarrow> '')&;|'') us"

definition stops :: "(cmd \<times> token list) outcome \<Rightarrow> cmd \<Rightarrow> token list \<Rightarrow> bool" where
  "stops r c us \<longleftrightarrow> r = Spin \<or> r = Ok (c, us)"

lemma stops_bnd: "stops m c us \<Longrightarrow> stops (f c us) d vs \<Longrightarrow> stops (bnd m (\<lambda>(c, us). f c us)) d vs"
  by (auto simp: stops_def)

lemma stops_map: "stops m c us \<Longrightarrow> stops (bnd m (\<lambda>(d, ts). Ok (f d, ts))) (f c) us"
  by (auto simp: stops_def)

lemma p_redirs_complete: "g_redirs rs c d \<Longrightarrow> \<not> next_in ''<>'' us \<Longrightarrow> stops (p_redirs n c (rs @ us)) d us"
proof (induction arbitrary: n rule: g_redirs.induct)
  case (g_redirs_Nil c)
  then show ?case by (cases n) (simp_all add: stops_def)
next
  case (g_redirs_Cons op ts q eq c d p)
  have "lead op \<in> set ''<>''" using g_redirs_Cons.hyps(1) by (auto simp: lead_def)
  then show ?case using g_redirs_Cons by (cases n) (simp_all add: stops_def)
qed

lemma g_args_starts: "g_args ts k c d \<Longrightarrow> toks \<in> {''<>'', ''(''} \<Longrightarrow> \<not> next_in toks us \<Longrightarrow> \<not> next_in toks (ts @ us)"
  by (erule g_args.cases) (auto simp: lead_def)

lemma p_args_complete: "g_args ts k c d \<Longrightarrow> follow N_exec us \<Longrightarrow> stops (p_args n k c (ts @ us)) d us"
proof (induction arbitrary: n rule: g_args.induct)
  case (g_args_Nil k c)
  then show ?case by (cases n; cases us) (auto simp: stops_def follow_def)
next
  case (g_args_Cons k rs q eq c d ts e)
  have "\<not> next_in ''<>'' us" using g_args_Cons.prems by (cases us) (auto simp: follow_def)
  then have "\<not> next_in ''<>'' (ts @ us)" using g_args_starts [OF g_args_Cons.hyps(3)] by simp
  then have "stops (p_redirs m (add_arg (q, eq) c) (rs @ ts @ us)) d (ts @ us)" for m
    by (rule p_redirs_complete [OF g_args_Cons.hyps(2)])
  then show ?case using g_args_Cons by (cases n) (auto simp: stops_def [of Spin] lead_def intro!: stops_bnd)
qed

lemma p_backs_complete: "g_backs bs c d \<Longrightarrow> \<not> next_in ''&'' us \<Longrightarrow> stops (p_backs n c (bs @ us)) d us"
proof (induction arbitrary: n rule: g_backs.induct)
  case (g_backs_Nil c)
  then show ?case by (cases n) (simp_all add: stops_def)
next
  case (g_backs_Cons ts c d p)
  then show ?case by (cases n) (simp_all add: stops_def lead_def)
qed

lemma follow_backs: "g_backs bs c d \<Longrightarrow> us = [] \<or> next_in '');'' us \<Longrightarrow> follow N_pipe (bs @ us)"
  by (erule g_backs.cases; cases us) (auto simp: follow_def lead_def)

lemma follow_pipe: "follow N_pipe us \<Longrightarrow> follow N_exec us \<and> \<not> next_in ''|'' us"
  by (cases us) (auto simp: follow_def)

lemma p_complete: "g nt ts c \<Longrightarrow> follow nt us \<Longrightarrow> stops (p_parse n nt (ts @ us)) c us"
proof (induction arbitrary: n us rule: g.induct)
  case (g_line ts c bs d)
  have f: "us = [] \<or> next_in '');'' us" "\<not> next_in ''&'' us" "\<not> next_in '';'' us"
    using g_line.prems by (cases us; auto simp: follow_def)+
  have "stops (p_parse m N_pipe (ts @ bs @ us)) c (bs @ us)" for m
    by (rule g_line.IH [OF follow_backs [OF g_line.hyps(2) f(1)]])
  then show ?case using p_backs_complete [OF g_line.hyps(2) f(2)] f(3)
    by (cases n) (auto simp: stops_def [of Spin] stops_def [of "Ok _"] intro!: stops_bnd)
next
  case (g_list ts c bs d us' e p)
  let ?r = "(CHR '';'', p) # us' @ us"
  have f: "next_in '');'' ?r" "\<not> next_in ''&'' ?r" by (simp_all add: lead_def)
  have "stops (p_parse m N_pipe (ts @ bs @ ?r)) c (bs @ ?r)" for m
    by (rule g_list.IH(1) [OF follow_backs [OF g_list.hyps(2)]]) (simp add: lead_def)
  then show ?case using p_backs_complete [OF g_list.hyps(2) f(2)] stops_map [OF g_list.IH(2) [OF g_list.prems], of _ "Lst d"]
    by (cases n) (auto simp: stops_def [of Spin] lead_def intro!: stops_bnd)
next
  case (g_pipe ts c)
  note f = follow_pipe [OF g_pipe.prems]
  show ?case using g_pipe.IH [OF conjunct1 [OF f]] f
    by (cases n) (auto simp: stops_def [of Spin] stops_def [of "Ok _"] intro!: stops_bnd)
next
  case (g_bar ts c us' d p)
  have "follow N_exec ((CHR ''|'', p) # us' @ us)" by (simp add: follow_def lead_def)
  then show ?case using g_bar.IH(1) stops_map [OF g_bar.IH(2) [OF g_bar.prems], of _ "Pipe c"]
    by (cases n) (auto simp: stops_def [of Spin] lead_def intro!: stops_bnd)
next
  case (g_block ts c rs d p p')
  have "follow N_line ((CHR '')'', p') # rs @ us)" by (simp add: follow_def lead_def)
  moreover have "\<not> next_in ''<>'' us" using g_block.prems by (cases us) (auto simp: follow_def)
  ultimately show ?case using g_block.IH p_redirs_complete [OF g_block.hyps(2)]
    by (cases n) (auto simp: stops_def [of Spin] lead_def intro!: stops_bnd)
next
  case (g_paren ts c)
  then have "next_in ''('' (ts @ us)" by (auto simp: lead_def elim: g.cases)
  then show ?case using g_paren.IH [of us] g_paren.prems by (cases n) (auto simp: stops_def [of Spin] follow_def)
next
  case (g_exec rs c ts d)
  have f: "\<not> next_in ''<>'' us" "\<not> next_in ''('' us" using g_exec.prems by (cases us; auto simp: follow_def)+
  then have a: "\<not> next_in ''<>'' (ts @ us)" "\<not> next_in ''('' (ts @ us)" using g_args_starts [OF g_exec.hyps(2)] by simp_all
  have "\<not> next_in ''('' (rs @ ts @ us)"
    using g_exec.hyps(1) a(2) by (cases rule: g_redirs.cases) (auto simp: lead_def)
  then show ?case using p_redirs_complete [OF g_exec.hyps(1) a(1)] p_args_complete [OF g_exec.hyps(2) g_exec.prems]
    by (cases n) (auto simp: stops_def [of Spin] intro!: stops_bnd)
qed

section \<open>Words\<close>

text \<open>The two ends of every word that a command refers to.\<close>

fun words :: "cmd \<Rightarrow> (nat \<times> nat) set" where
  "words (Exec as) = set as"
| "words (Redir c q eq m fd) = insert (q, eq) (words c)"
| "words (Pipe c d) = words c \<union> words d"
| "words (Lst c d) = words c \<union> words d"
| "words (Back c) = words c"

definition word_tokens :: "token list \<Rightarrow> (nat \<times> nat) set" where
  "word_tokens ts = {(q, eq). (CHR ''a'', q, eq) \<in> set ts}"

lemma word_tokens_simps [simp]:
  "word_tokens [] = {}" "word_tokens (ts @ us) = word_tokens ts \<union> word_tokens us"
  "word_tokens ((CHR ''a'', q, eq) # ts) = insert (q, eq) (word_tokens ts)"
  "t \<noteq> CHR ''a'' \<Longrightarrow> word_tokens ((t, p) # ts) = word_tokens ts"
  by (auto simp: word_tokens_def)

lemma words_redir: "op \<in> set ''<>+'' \<Longrightarrow> words (redir op q eq c) = insert (q, eq) (words c)"
  by (auto simp: redir_def)

lemma words_add_arg: "words (add_arg a c) \<subseteq> insert a (words c)"
  by (induction c) auto

lemma g_redirs_words: "g_redirs ts c d \<Longrightarrow> words d \<subseteq> words c \<union> word_tokens ts"
  by (induction rule: g_redirs.induct) (auto simp: words_redir)

lemma g_args_words: "g_args ts k c d \<Longrightarrow> words d \<subseteq> words c \<union> word_tokens ts"
proof (induction rule: g_args.induct)
  case (g_args_Cons k rs q eq c d ts e)
  then show ?case using g_redirs_words [of rs "add_arg (q, eq) c" d] words_add_arg [of "(q, eq)" c] by auto
qed simp

lemma g_backs_words: "g_backs ts c d \<Longrightarrow> words d = words c"
  by (induction rule: g_backs.induct) auto

lemma g_words: "g nt ts c \<Longrightarrow> words c \<subseteq> word_tokens ts"
proof (induction rule: g.induct)
  case (g_exec rs c ts d)
  then show ?case using g_redirs_words [of rs "Exec []" c] g_args_words [of ts 0 c d] by auto
next
  case (g_block ts c rs d p p')
  then show ?case using g_redirs_words [of rs c d] by auto
qed (auto dest: g_backs_words)

text \<open>A word is a maximal run of characters that are neither white space nor symbols.\<close>

definition plain :: "char \<Rightarrow> bool" where
  "plain ch \<longleftrightarrow> ch \<noteq> NUL \<and> ch \<notin> set whitespace \<and> ch \<notin> set symbols"

definition is_word :: "string \<Rightarrow> nat \<Rightarrow> nat \<Rightarrow> bool" where
  "is_word buf q eq \<longleftrightarrow> q < eq \<and> eq \<le> length buf \<and> (\<forall>i. q \<le> i \<longrightarrow> i < eq \<longrightarrow> plain (buf ! i)) \<and> \<not> plain (at buf eq)"

lemma gettoken_word:
  assumes g: "gettoken buf i = (CHR ''a'', q, eq, j)" and n: "NUL \<notin> set buf"
  shows "is_word buf q eq"
proof -
  let ?P = "\<lambda>c. c \<notin> set whitespace \<and> c \<notin> set symbols"
  let ?w = "takeWhile ?P (drop q buf)"
  have b: "q < length buf" "q < eq" using gettoken_progress [OF g] by (auto simp: NUL_def)
  have eq: "eq = q + length ?w" using g by (auto simp: gettoken_def Let_def NUL_def split: if_splits)
  have le: "length ?w \<le> length buf - q" using length_takeWhile_le [of ?P "drop q buf"] by simp
  have "plain (buf ! i)" if "q \<le> i" "i < eq" for i
  proof -
    have "i - q < length ?w" using that eq by simp
    then have "?w ! (i - q) \<in> set ?w" and "?w ! (i - q) = buf ! i"
      using that takeWhile_nth [of "i - q" ?P "drop q buf"] le nth_mem [of "i - q" ?w] by auto
    then have "?P (buf ! i)" using set_takeWhileD [of "buf ! i" ?P "drop q buf"] by simp
    moreover have "i < length buf" using that eq le b(1) by simp
    then have "buf ! i \<noteq> NUL" using n nth_mem by metis
    ultimately show ?thesis by (simp add: plain_def)
  qed
  moreover have "\<not> plain (at buf eq)"
  proof (cases "eq < length buf")
    case True
    then have "length ?w < length (drop q buf)" using eq by simp
    from nth_length_takeWhile [OF this] show ?thesis using True eq by (auto simp: plain_def at_def)
  qed (simp add: at_def plain_def)
  ultimately show ?thesis using b eq le by (simp add: is_word_def)
qed

lemma tokens_words:
  "NUL \<notin> set buf \<Longrightarrow> (q, eq) \<in> word_tokens (tokens buf i) \<Longrightarrow> is_word buf q eq"
proof (induction buf i rule: tokens.induct)
  case (1 buf i)
  obtain t q' eq' j where g: "gettoken buf i = (t, q', eq', j)" by (cases "gettoken buf i") auto
  show ?case
  proof (cases "t = NUL")
    case True
    then show ?thesis using 1 gettoken_tokens [OF g] by simp
  next
    case False
    then show ?thesis using 1 g gettoken_tokens [OF g] gettoken_word [of buf i q' eq' j] by (auto simp: word_tokens_def)
  qed
qed

lemma length_nulterminate [simp]: "length (nulterminate c buf) = length buf"
proof (induction c arbitrary: buf)
  case (Exec as)
  show ?case by simp (induction as arbitrary: buf, auto)
qed auto

lemma fold_nul_nth:
  "i < length buf \<Longrightarrow> fold (\<lambda>(q, eq) buf. buf[eq := NUL]) as buf ! i = (if i \<in> snd ` set as then NUL else buf ! i)"
proof (induction as arbitrary: buf)
  case (Cons a as)
  then show ?case using Cons.IH [of "buf[snd a := NUL]"] by (cases a) (auto simp: nth_list_update)
qed simp

lemma nulterminate_nth:
  "i < length buf \<Longrightarrow> nulterminate c buf ! i = (if i \<in> snd ` words c then NUL else buf ! i)"
proof (induction c arbitrary: buf)
  case (Redir c q eq m fd)
  then show ?case by (cases "i = eq") simp_all
qed (simp_all add: fold_nul_nth image_Un)

lemma cstr_nulterminate:
  assumes w: "\<forall>(q, eq) \<in> words c. is_word buf q eq" and q: "(q, eq) \<in> words c"
  shows "cstr_at (nulterminate c buf) q = take (eq - q) (drop q buf)"
proof -
  let ?t = "nulterminate c buf"
  have b: "is_word buf q eq" using w q by auto
  have keep: "?t ! i = buf ! i \<and> plain (buf ! i)" if i: "q \<le> i" "i < eq" for i
  proof -
    have "i \<notin> snd ` words c"
    proof
      assume "i \<in> snd ` words c"
      then obtain q' where "is_word buf q' i" using w by auto
      then show False using b i by (auto simp: is_word_def at_def)
    qed
    then show ?thesis using b i nulterminate_nth [of i buf c] by (auto simp: is_word_def)
  qed
  have "takeWhile (\<lambda>c. c \<noteq> NUL) (drop q ?t) = take (eq - q) (drop q ?t)"
  proof (rule takeWhile_eq_take_P_nth)
    show "drop q ?t ! i \<noteq> NUL" if "i < eq - q" "i < length (drop q ?t)" for i
      using keep [of "q + i"] that by (auto simp: plain_def)
    show "\<not> drop q ?t ! (eq - q) \<noteq> NUL" if "eq - q < length (drop q ?t)"
    proof -
      have "eq < length buf" "drop q ?t ! (eq - q) = ?t ! eq" using that b by (auto simp: is_word_def)
      moreover have "eq \<in> snd ` words c" using q by force
      ultimately show ?thesis using nulterminate_nth [of eq buf c] by simp
    qed
  qed
  also have "\<dots> = take (eq - q) (drop q buf)"
    using keep b by (intro nth_equalityI) (auto simp: is_word_def)
  finally show ?thesis by (simp add: cstr_at_def)
qed

section \<open>Properties\<close>

lemma tokens_length: "i \<le> length buf \<Longrightarrow> length (tokens buf i) \<le> length buf - i"
proof (induction buf i rule: tokens.induct)
  case (1 buf i)
  obtain t q eq j where g: "gettoken buf i = (t, q, eq, j)" by (cases "gettoken buf i") auto
  show ?case
  proof (cases "t = NUL")
    case False
    then show ?thesis using 1 g gettoken_tokens [OF g] gettoken_progress [OF g] gettoken_bound [OF g] by fastforce
  qed (simp add: gettoken_tokens [OF g])
qed

lemma cstr_no_nul: "NUL \<notin> set (cstr_at b i)"
  by (auto simp: cstr_at_def dest: set_takeWhileD)

text \<open>The parser with the fuel of \<^verbatim>\<open>parsecmd\<close>, by the parser on tokens.\<close>

lemma parse_line:
  fixes b :: string
  defines "buf \<equiv> cstr_at b 0"
  shows "lexed buf (parse (fuel_for buf) N_line buf 0) = p_parse (fuel_for buf) N_line (tokens buf 0)"
    and "p_parse (fuel_for buf) N_line (tokens buf 0) \<noteq> Spin"
proof -
  show "lexed buf (parse (fuel_for buf) N_line buf 0) = p_parse (fuel_for buf) N_line (tokens buf 0)"
    by (rule parser_tokens) simp
  show "p_parse (fuel_for buf) N_line (tokens buf 0) \<noteq> Spin"
    using tokens_length [of 0 buf] by (intro p_parse_ends) (simp add: fuel_for_def)
qed


lemma parsecmd_iff:
  "parsecmd b = Ok (c, t) \<longleftrightarrow> g N_line (tokens (cstr_at b 0) 0) c \<and> t = nulterminate c (cstr_at b 0)"
proof -
  let ?buf = "cstr_at b 0"
  let ?r = "parse (fuel_for ?buf) N_line ?buf 0" and ?p = "p_parse (fuel_for ?buf) N_line (tokens ?buf 0)"
  have nil: "i \<le> length ?buf \<Longrightarrow> tokens ?buf i = [] \<longleftrightarrow> skip_white ?buf i = length ?buf" for i
    by (rule tokens_Nil [OF cstr_no_nul])
  have "(\<exists>i. ?r = Ok (c, i) \<and> i \<le> length ?buf \<and> tokens ?buf i = []) \<longleftrightarrow> ?p = Ok (c, [])"
    using parse_line(1) [of b] p_no_fault [of "fuel_for ?buf" N_line "tokens ?buf 0"]
    by (cases ?r) (auto simp: lexed_def split: if_splits)
  also have "\<dots> \<longleftrightarrow> g N_line (tokens ?buf 0) c"
    using p_sound [of "fuel_for ?buf" N_line "tokens ?buf 0" c "[]"]
      p_complete [of N_line "tokens ?buf 0" c "[]" "fuel_for ?buf"] parse_line(2) [of b]
    by (auto simp: stops_def follow_def)
  finally have "g N_line (tokens ?buf 0) c \<longleftrightarrow> (\<exists>i. ?r = Ok (c, i) \<and> i \<le> length ?buf \<and> tokens ?buf i = [])" ..
  moreover have "i \<le> length ?buf" if "?r = Ok (d, i)" for d i
    using parse_line(1) [of b] p_no_fault [of "fuel_for ?buf" N_line "tokens ?buf 0"] that
    by (auto simp: lexed_def split: if_splits)
  ultimately show ?thesis using nil
    by (cases ?r) (auto simp: parsecmd_def peek_def Let_def split: if_splits)
qed

text \<open>C8: \<^verbatim>\<open>parsecmd\<close> accepts exactly the command lines of the grammar, with at most nine words in a simple command, and
  builds the command that the grammar assigns to the line.\<close>

theorem parsecmd_accepts_grammar:
  "parsecmd b = Ok (c, t) \<longleftrightarrow> g N_line (tokens (cstr_at b 0) 0) c \<and> t = nulterminate c (cstr_at b 0)"
  by (rule parsecmd_iff)

text \<open>After \<^verbatim>\<open>parsecmd\<close> every argument and file name of the command is a string of its own in the buffer: reading at its
  start up to the null character behind it gives exactly the word of the command line, which is not empty and
  has no white space and no operator in it.\<close>

theorem parsecmd_terminates_words:
  assumes "parsecmd b = Ok (c, t)" and "(q, eq) \<in> words c"
  shows "cstr_at t q = take (eq - q) (drop q (cstr_at b 0)) \<and> is_word (cstr_at b 0) q eq"
proof -
  let ?buf = "cstr_at b 0"
  have g: "g N_line (tokens ?buf 0) c" "t = nulterminate c ?buf" using assms(1) by (simp_all add: parsecmd_iff)
  then have "\<forall>(q, eq) \<in> words c. is_word ?buf q eq"
    using g_words [OF g(1)] tokens_words [OF cstr_no_nul] by blast
  then show ?thesis using cstr_nulterminate assms(2) g(2) by blast
qed

text \<open>A pipeline with a redirection, in the background.\<close>

definition demo_line :: string where
  "demo_line = ''cat <f|wc &'' @ [CHR 0x0A]"

theorem parsecmd_terminates_words_witness:
  "\<exists>c t. parsecmd demo_line = Ok (c, t) \<and> c = Back (Pipe (Redir (Exec [(0, 3)]) 5 6 0 0) (Exec [(7, 9)])) \<and>
    cstr_at t 5 = ''f''"
proof -
  let ?c = "Back (Pipe (Redir (Exec [(0, 3)]) 5 6 0 0) (Exec [(7, 9)]))"
  have p: "parsecmd demo_line = Ok (?c, nulterminate ?c demo_line)" by code_simp
  have "cstr_at (nulterminate ?c demo_line) 5 = take (6 - 5) (drop 5 (cstr_at demo_line 0))"
    using parsecmd_terminates_words [OF p, of 5 6] by simp
  also have "\<dots> = ''f''" by code_simp
  finally show ?thesis using p by blast
qed

end
