(* ===== verification/Grep.thy ===== *)
theory Grep
  imports User
begin

text \<open>
  \<^verbatim>\<open>src/grep.c\<close>: the matcher for patterns with the operators caret, dot, star and dollar, the loop that cuts the
  input into lines, and its correctness. The matcher is compared with the usual meaning of a pattern as a
  sequence of items. The loop is run against a kernel that delivers the file in given pieces.
\<close>

section \<open>The matcher\<close>

fun matchhere :: "string \<Rightarrow> string \<Rightarrow> bool" and matchstar :: "char \<Rightarrow> string \<Rightarrow> string \<Rightarrow> bool" where
  "matchhere [] line = True"
| "matchhere (c # re) line =
     (if re \<noteq> [] \<and> hd re = CHR ''*'' then matchstar c (tl re) line
      else if c = CHR ''$'' \<and> re = [] then line = []
      else case line of [] \<Rightarrow> False | t # ts \<Rightarrow> (c = CHR ''.'' \<or> c = t) \<and> matchhere re ts)"
| "matchstar c re line =
     (matchhere re line \<or> (case line of [] \<Rightarrow> False | t # ts \<Rightarrow> (t = c \<or> c = CHR ''.'') \<and> matchstar c re ts))"

text \<open>The loop of \<^verbatim>\<open>match\<close> over the places where a match may begin.\<close>

fun match_any :: "string \<Rightarrow> string \<Rightarrow> bool" where
  "match_any re [] = matchhere re []"
| "match_any re (t # ts) = (matchhere re (t # ts) \<or> match_any re ts)"

definition match :: "string \<Rightarrow> string \<Rightarrow> bool" where
  "match re line = (if re \<noteq> [] \<and> hd re = CHR ''^'' then matchhere (tl re) line else match_any re line)"

section \<open>The loop\<close>

text \<open>The inner loop of \<^verbatim>\<open>grep\<close> over the lines in the buffer: what it writes, and what is left behind the last newline.
  \<^verbatim>\<open>strchr\<close> does not look beyond a null character.\<close>

function grep_scan :: "string \<Rightarrow> string \<Rightarrow> string list \<times> string" where
  "grep_scan re p =
     (let t = takeWhile (\<lambda>ch. ch \<noteq> CHR 0x00) p
      in if CHR 0x0A \<notin> set t then ([], p)
         else
           let l = takeWhile (\<lambda>ch. ch \<noteq> CHR 0x0A) t;
               (out, rest) = grep_scan re (drop (length l + 1) p)
           in (if match re l then (l @ nl) # out else out, rest))"
  by pat_completeness auto
termination
proof (relation "measure (\<lambda>(re, p). length p)")
  fix re p t l
  assume "t = takeWhile (\<lambda>ch. ch \<noteq> CHR 0x00) p" "\<not> CHR 0x0A \<notin> set t"
  then have "p \<noteq> []" by (cases p) simp_all
  then show "((re, drop (length l + 1) p), re, p) \<in> measure (\<lambda>(re, p). length p)" by simp
qed simp

declare grep_scan.simps [simp del]

fun grep_loop :: "nat \<Rightarrow> string \<Rightarrow> int \<Rightarrow> string \<Rightarrow> prog \<Rightarrow> prog" where
  "grep_loop 0 re fd kept k = Cut"
| "grep_loop (Suc n) re fd kept k =
     Call (Rq_read fd (1024 - length kept - 1)) (\<lambda>a.
       if a_ret a > 0
       then
         let b = kept @ take (nat (a_ret a)) (a_data a);
             (out, rest) = grep_scan re b;
             kept = (if length rest = length b then [] else rest)
         in foldr (\<lambda>l k. Call (Rq_write 1 l) (\<lambda>_. k)) out (grep_loop n re fd kept k)
       else k)"

definition main_grep :: "nat \<Rightarrow> string list \<Rightarrow> prog" where
  "main_grep n argv =
     (if length argv \<le> 1 then u_printf 2 (''usage: grep pattern [file ...]'' @ nl) [] Exit
      else if length argv \<le> 2 then grep_loop n (argv ! 1) 0 [] Exit
      else each_file ''grep'' (\<lambda>fd t k. grep_loop n (argv ! 1) fd [] k) (drop 2 argv))"

section \<open>What a pattern means\<close>

datatype item = One char | Many char | End_of_line

fun items :: "string \<Rightarrow> item list" where
  "items [] = []"
| "items [c] = (if c = CHR ''$'' then [End_of_line] else [One c])"
| "items (c # d # re) = (if d = CHR ''*'' then Many c # items re else One c # items (d # re))"

definition fits :: "char \<Rightarrow> char \<Rightarrow> bool" where
  "fits c t \<longleftrightarrow> c = CHR ''.'' \<or> c = t"

text \<open>The items describe the text \<open>u\<close> when \<open>v\<close> is the rest of the line.\<close>

fun describes :: "item list \<Rightarrow> string \<Rightarrow> string \<Rightarrow> bool" where
  "describes [] u v \<longleftrightarrow> u = []"
| "describes (One c # its) u v \<longleftrightarrow> (\<exists>t w. u = t # w \<and> fits c t \<and> describes its w v)"
| "describes (Many c # its) u v \<longleftrightarrow> (\<exists>w x. u = w @ x \<and> (\<forall>t \<in> set w. fits c t) \<and> describes its x v)"
| "describes (End_of_line # its) u v \<longleftrightarrow> v = [] \<and> describes its u v"

definition at_front :: "item list \<Rightarrow> string \<Rightarrow> bool" where
  "at_front its line \<longleftrightarrow> (\<exists>u v. line = u @ v \<and> describes its u v)"

lemma at_frontI: "describes its u v \<Longrightarrow> at_front its (u @ v)"
  by (auto simp: at_front_def)

lemma at_frontE:
  assumes "at_front its line"
  obtains u v where "line = u @ v" "describes its u v"
  using assms by (auto simp: at_front_def)

lemma at_front_One: "at_front (One c # its) line \<longleftrightarrow> (\<exists>t ts. line = t # ts \<and> fits c t \<and> at_front its ts)"
proof
  assume "at_front (One c # its) line"
  then obtain t w v where t: "line = t # w @ v" "fits c t" "describes its w v" by (auto elim!: at_frontE)
  from at_frontI [OF t(3)] t(1,2) show "\<exists>t ts. line = t # ts \<and> fits c t \<and> at_front its ts" by blast
next
  assume "\<exists>t ts. line = t # ts \<and> fits c t \<and> at_front its ts"
  then obtain t u v where "line = (t # u) @ v" "fits c t" "describes its u v" by (auto elim!: at_frontE)
  then show "at_front (One c # its) line" using at_frontI [of "One c # its" "t # u" v] by simp
qed

lemma at_front_Many_iff:
  "at_front (Many c # its) line \<longleftrightarrow> (\<exists>w y. line = w @ y \<and> (\<forall>t \<in> set w. fits c t) \<and> at_front its y)"
proof
  assume "at_front (Many c # its) line"
  then obtain w x v where w: "line = w @ x @ v" "\<forall>t \<in> set w. fits c t" "describes its x v" by (auto elim!: at_frontE)
  then show "\<exists>w y. line = w @ y \<and> (\<forall>t \<in> set w. fits c t) \<and> at_front its y" using at_frontI by blast
next
  assume "\<exists>w y. line = w @ y \<and> (\<forall>t \<in> set w. fits c t) \<and> at_front its y"
  then obtain w u v where w: "line = (w @ u) @ v" "\<forall>t \<in> set w. fits c t" "describes its u v" by (auto elim!: at_frontE)
  then have "describes (Many c # its) (w @ u) v" by auto
  from at_frontI [OF this] show "at_front (Many c # its) line" by (simp only: w(1))
qed

lemma at_front_Many:
  "at_front (Many c # its) line \<longleftrightarrow> at_front its line \<or> (\<exists>t ts. line = t # ts \<and> fits c t \<and> at_front (Many c # its) ts)"
proof
  assume "at_front (Many c # its) line"
  then obtain w y where w: "line = w @ y" "\<forall>t \<in> set w. fits c t" "at_front its y" unfolding at_front_Many_iff by blast
  then show "at_front its line \<or> (\<exists>t ts. line = t # ts \<and> fits c t \<and> at_front (Many c # its) ts)"
    by (cases w) (auto simp: at_front_Many_iff)
next
  assume "at_front its line \<or> (\<exists>t ts. line = t # ts \<and> fits c t \<and> at_front (Many c # its) ts)"
  then show "at_front (Many c # its) line"
  proof
    assume "at_front its line"
    then show ?thesis unfolding at_front_Many_iff by (intro exI [of _ "[]"] exI [of _ line]) simp
  next
    assume "\<exists>t ts. line = t # ts \<and> fits c t \<and> at_front (Many c # its) ts"
    then obtain t w y where "line = (t # w) @ y" "\<forall>t \<in> set (t # w). fits c t" "at_front its y"
      by (auto simp: at_front_Many_iff)
    then show ?thesis unfolding at_front_Many_iff by blast
  qed
qed

lemma items_literal: "re = [] \<or> hd re \<noteq> CHR ''*'' \<Longrightarrow> \<not> (c = CHR ''$'' \<and> re = []) \<Longrightarrow> items (c # re) = One c # items re"
  by (cases re) auto

lemma items_star: "re \<noteq> [] \<Longrightarrow> hd re = CHR ''*'' \<Longrightarrow> items (c # re) = Many c # items (tl re)"
  by (cases re) auto

lemma matchhere_front:
  "matchhere re line \<longleftrightarrow> at_front (items re) line" "matchstar c re line \<longleftrightarrow> at_front (Many c # items re) line"
proof (induction re line and c re line rule: matchhere_matchstar.induct)
  case (1 line)
  then show ?case by (simp add: at_front_def)
next
  case (2 c re line)
  consider "re \<noteq> [] \<and> hd re = CHR ''*''" | "c = CHR ''$'' \<and> re = []"
    | "\<not> (re \<noteq> [] \<and> hd re = CHR ''*'')" "\<not> (c = CHR ''$'' \<and> re = [])" by blast
  then show ?case
  proof cases
    case 1
    then show ?thesis using 2(1) by (simp add: items_star)
  next
    case 2
    then show ?thesis by (auto simp: at_front_def)
  next
    case 3
    have "at_front (items (c # re)) line \<longleftrightarrow> (\<exists>t ts. line = t # ts \<and> fits c t \<and> at_front (items re) ts)"
      using 3 by (subst items_literal) (auto simp: at_front_One)
    then show ?thesis using 3 2(2) by (cases line) (auto simp: fits_def)
  qed
next
  case (3 c re line)
  show ?case
    by (subst at_front_Many) (use 3 in \<open>cases line; auto simp: fits_def\<close>)
qed

lemma match_any_front: "match_any re line \<longleftrightarrow> (\<exists>p q. line = p @ q \<and> at_front (items re) q)"
proof (induction line)
  case (Cons t ts)
  have "(\<exists>p q. t # ts = p @ q \<and> at_front (items re) q) \<longleftrightarrow>
      at_front (items re) (t # ts) \<or> (\<exists>p q. ts = p @ q \<and> at_front (items re) q)"
    by (subst Cons_eq_append_conv) blast
  then show ?case using Cons by (simp add: matchhere_front)
qed (simp add: matchhere_front)

text \<open>C22: The matcher of \<^verbatim>\<open>grep\<close> does what its comment says of the operators: a line matches if some part of it is described by
  the items of the pattern, a character, any character, or any number of a character; after a caret the part begins the line, and
  a dollar at the end of the pattern makes it end the line.\<close>

theorem match_correct:
  "match re line \<longleftrightarrow>
    (if re \<noteq> [] \<and> hd re = CHR ''^'' then \<exists>u v. line = u @ v \<and> describes (items (tl re)) u v
     else \<exists>p u v. line = p @ u @ v \<and> describes (items re) u v)"
  unfolding match_def matchhere_front match_any_front at_front_def by auto

section \<open>Lines\<close>

text \<open>The complete lines of a text, without their newlines, and what follows the last of them.\<close>

fun lines_of :: "string \<Rightarrow> string list \<times> string" where
  "lines_of [] = ([], [])"
| "lines_of (ch # cs) =
     (case lines_of cs of (lns, r) \<Rightarrow>
        if ch = CHR 0x0A then ([] # lns, r)
        else case lns of [] \<Rightarrow> ([], ch # r) | l # lns \<Rightarrow> ((ch # l) # lns, r))"

lemma lines_of_none: "CHR 0x0A \<notin> set p \<Longrightarrow> lines_of p = ([], p)"
  by (induction p) auto

lemma lines_of_line: "CHR 0x0A \<notin> set l \<Longrightarrow> lines_of (l @ CHR 0x0A # q) = (l # fst (lines_of q), snd (lines_of q))"
  by (induction l) (auto split: prod.splits)

lemma lines_of_append:
  "lines_of (p @ q) = (fst (lines_of p) @ fst (lines_of (snd (lines_of p) @ q)), snd (lines_of (snd (lines_of p) @ q)))"
  by (induction p) (auto split: prod.splits list.splits)

lemma lines_of_rest: "CHR 0x0A \<in> set p \<Longrightarrow> length (snd (lines_of p)) < length p"
proof (induction p)
  case (Cons ch cs)
  show ?case
  proof (cases "CHR 0x0A \<in> set cs")
    case True
    then show ?thesis using Cons.IH by (auto split: prod.splits list.splits)
  next
    case False
    then show ?thesis using Cons.prems lines_of_none [OF False] by auto
  qed
qed simp

lemma lines_of_rest_set: "set (snd (lines_of p)) \<subseteq> set p"
  by (induction p) (auto split: prod.splits list.splits)

lemma lines_of_rest_nl: "CHR 0x0A \<notin> set (snd (lines_of p))"
  by (induction p) (auto split: prod.splits list.splits)

lemma grep_scan_lines:
  "CHR 0x00 \<notin> set p \<Longrightarrow> grep_scan re p = (map (\<lambda>l. l @ nl) (filter (match re) (fst (lines_of p))), snd (lines_of p))"
proof (induction re p rule: grep_scan.induct)
  case (1 re p)
  have t: "takeWhile (\<lambda>ch. ch \<noteq> CHR 0x00) p = p" using 1(2) by (simp add: takeWhile_eq_all_conv) metis
  show ?case
  proof (cases "CHR 0x0A \<in> set p")
    case True
    let ?l = "takeWhile (\<lambda>ch. ch \<noteq> CHR 0x0A) p" and ?q = "drop (length (takeWhile (\<lambda>ch. ch \<noteq> CHR 0x0A) p) + 1) p"
    have l: "CHR 0x0A \<notin> set ?l" by (auto dest: set_takeWhileD)
    obtain a b where ab: "p = a @ CHR 0x0A # b" "CHR 0x0A \<notin> set a" using split_list_first [OF True] by blast
    have a: "?l = a" using ab by (auto simp: takeWhile_append)
    have q: "?q = b" by (simp add: a) (simp add: ab(1))
    have "CHR 0x00 \<notin> set ?q" using 1(2) ab(1) q by simp
    then have "grep_scan re ?q = (map (\<lambda>l. l @ nl) (filter (match re) (fst (lines_of ?q))), snd (lines_of ?q))"
      using 1(1) [OF refl] t True by simp
    then have "grep_scan re p = (map (\<lambda>l. l @ nl) (filter (match re) (?l # fst (lines_of ?q))), snd (lines_of ?q))"
      by (subst grep_scan.simps) (simp add: t True Let_def)
    then show ?thesis using lines_of_line [of a b] ab a q by simp
  next
    case False
    then show ?thesis by (subst grep_scan.simps) (simp add: t lines_of_none)
  qed
qed

section \<open>Running the loop\<close>

text \<open>A kernel that answers each \<^verbatim>\<open>read\<close> with the next piece of a file, 0 at its end, and collects what is written.\<close>

definition reply :: "int \<Rightarrow> string \<Rightarrow> answer" where
  "reply r t = \<lparr>a_ret = r, a_data = t, a_fds = (0, 0),
     a_stat = \<lparr>st_type = 0, st_dev = 0, st_ino = 0, st_nlink = 0, st_mode = 0, st_uid = 0, st_gid = 0, st_size = 0\<rparr>,
     a_date = \<lparr>second = 0, minute = 0, hour = 0, day = 0, month = 0, year = 0\<rparr>, a_procs = []\<rparr>"

lemma reply_sel [simp]: "a_ret (reply r t) = r" "a_data (reply r t) = t"
  by (simp_all add: reply_def)

primrec feed :: "prog \<Rightarrow> string list \<Rightarrow> string option" where
  "feed Exit = (\<lambda>cs. Some [])"
| "feed Undef = (\<lambda>cs. None)"
| "feed Cut = (\<lambda>cs. None)"
| "feed (Call r k) = (\<lambda>cs.
     case r of
       Rq_read fd n \<Rightarrow>
         (case cs of
            [] \<Rightarrow> feed (k (reply 0 [])) []
          | c # cs \<Rightarrow> if length c \<le> n then feed (k (reply (int (length c)) c)) cs else None)
     | Rq_write fd t \<Rightarrow> map_option ((@) t) (feed (k (reply (int (length t)) [])) cs)
     | _ \<Rightarrow> feed (k (reply 0 [])) cs)"

lemma feed_writes:
  "feed (foldr (\<lambda>l k. Call (Rq_write 1 l) (\<lambda>_. k)) lns k) cs = map_option ((@) (concat lns)) (feed k cs)"
  by (induction lns) (simp_all add: option.map_comp comp_def option.map_ident)

text \<open>Every \<^verbatim>\<open>read\<close> completes a line, and a line fits into the buffer.\<close>

fun flows :: "string \<Rightarrow> string list \<Rightarrow> bool" where
  "flows kept [] \<longleftrightarrow> True"
| "flows kept (c # cs) \<longleftrightarrow> c \<noteq> [] \<and> CHR 0x0A \<in> set (kept @ c) \<and> length (kept @ c) \<le> 1023 \<and> CHR 0x00 \<notin> set c \<and>
     flows (snd (lines_of (kept @ c))) cs"

lemma grep_loop_step:
  assumes "c \<noteq> []" and "length (kept @ c) \<le> 1023" and "CHR 0x00 \<notin> set (kept @ c)"
  shows "feed (grep_loop (Suc n) re fd kept k) (c # cs) =
    map_option ((@) (concat (map (\<lambda>l. l @ nl) (filter (match re) (fst (lines_of (kept @ c)))))))
      (feed (grep_loop n re fd (if CHR 0x0A \<in> set (kept @ c) then snd (lines_of (kept @ c)) else []) k) cs)"
proof -
  have "length (snd (lines_of (kept @ c))) = length (kept @ c) \<longleftrightarrow> CHR 0x0A \<notin> set (kept @ c)"
    using lines_of_rest [of "kept @ c"] lines_of_none [of "kept @ c"] by (metis less_irrefl snd_conv)
  then have k: "(if length (snd (lines_of (kept @ c))) = length (kept @ c) then [] else snd (lines_of (kept @ c))) =
      (if CHR 0x0A \<in> set (kept @ c) then snd (lines_of (kept @ c)) else [])" by simp
  have len: "length c \<le> 1024 - length kept - 1" "0 < length c" using assms(1,2) by simp_all
  show ?thesis
    unfolding grep_loop.simps feed.simps
    by (simp only: sysreq.case list.case len if_True reply_sel grep_scan_lines [OF assms(3)] take_all k feed_writes Let_def
      nat_int of_nat_0_less_iff order_refl prod.case)
qed

lemma grep_loop_flows:
  "flows kept cs \<Longrightarrow> CHR 0x00 \<notin> set kept \<Longrightarrow> CHR 0x0A \<notin> set kept \<Longrightarrow> length cs < n \<Longrightarrow>
    feed (grep_loop n re fd kept Exit) cs =
      Some (concat (map (\<lambda>l. l @ nl) (filter (match re) (fst (lines_of (kept @ concat cs))))))"
proof (induction cs arbitrary: kept n)
  case Nil
  then obtain m where "n = Suc m" by (cases n) auto
  then show ?case using Nil lines_of_none [of kept] by simp
next
  case (Cons c cs)
  then obtain m where m: "n = Suc m" "length cs < m" by (cases n) auto
  let ?r = "snd (lines_of (kept @ c))"
  have z: "CHR 0x00 \<notin> set (kept @ c)" using Cons.prems by simp
  then have "CHR 0x00 \<notin> set ?r" using lines_of_rest_set by blast
  then have IH: "feed (grep_loop m re fd ?r Exit) cs =
      Some (concat (map (\<lambda>l. l @ nl) (filter (match re) (fst (lines_of (?r @ concat cs))))))"
    using Cons.IH [of ?r m] Cons.prems(1) m(2) lines_of_rest_nl by simp
  have nl: "CHR 0x0A \<in> set (kept @ c)" and b: "c \<noteq> []" "length (kept @ c) \<le> 1023" using Cons.prems(1) by simp_all
  have "lines_of (kept @ concat (c # cs)) = (fst (lines_of (kept @ c)) @ fst (lines_of (?r @ concat cs)), snd (lines_of (?r @ concat cs)))"
    using lines_of_append [of "kept @ c" "concat cs"] by simp
  then show ?case using IH nl by (simp only: m(1) grep_loop_step [OF b z] if_True) simp
qed

text \<open>C23: On a file that comes in pieces each of which completes a line, and whose lines fit into the buffer, \<^verbatim>\<open>grep\<close> writes
  exactly the complete lines that match, in their order, and stops.\<close>

theorem grep_prints_matching_lines:
  assumes "flows [] cs" and "length cs < n"
  shows "feed (grep_loop n re fd [] Exit) cs =
    Some (concat (map (\<lambda>l. l @ nl) (filter (match re) (fst (lines_of (concat cs))))))"
  using grep_loop_flows [OF assms(1) _ _ assms(2)] by simp

text \<open>C38: A piece without a newline is thrown away: when a line arrives in two reads, \<^verbatim>\<open>grep\<close> matches and prints only its second
  part.\<close>

theorem grep_forgets_first_part:
  assumes "a \<noteq> []" and "CHR 0x0A \<notin> set a" and "CHR 0x00 \<notin> set a" and "length a \<le> 1023"
    and "CHR 0x0A \<notin> set b" and "CHR 0x00 \<notin> set b" and "length b < 1023"
  shows "feed (grep_loop 3 re fd [] Exit) [a, b @ nl] = Some (if match re b then b @ nl else [])"
proof -
  have e: "map_option ((@) []) x = x" for x :: "string option" by (cases x) auto
  have "feed (grep_loop 3 re fd [] Exit) [a, b @ nl] = feed (grep_loop 2 re fd [] Exit) [b @ nl]"
    using grep_loop_step [of a "[]" 2 re fd Exit "[b @ nl]"] assms(1-4) lines_of_none [OF assms(2)]
    by (simp add: numeral_3_eq_3 e del: grep_loop.simps feed.simps)
  also have "\<dots> = map_option ((@) (concat (map (\<lambda>l. l @ nl) (filter (match re) [b])))) (feed (grep_loop 1 re fd [] Exit) [])"
    using grep_loop_step [of "b @ nl" "[]" 1 re fd Exit "[]"] assms(5-7) lines_of_line [OF assms(5), of "[]"]
    by (simp add: numeral_2_eq_2 del: grep_loop.simps feed.simps)
  also have "feed (grep_loop 1 re fd [] Exit) [] = Some []" by simp
  finally show ?thesis by simp
qed

theorem grep_prints_matching_lines_witness:
  "feed (grep_loop 3 ''^a.*c$'' 0 [] Exit) [''abc'' @ nl @ ''ac'', ''d'' @ nl @ ''axxc'' @ nl] = Some (''abc'' @ nl @ ''axxc'' @ nl)"
  using grep_prints_matching_lines [of "[''abc'' @ nl @ ''ac'', ''d'' @ nl @ ''axxc'' @ nl]" 3 "''^a.*c$''" 0]
  by (simp add: match_def)

theorem grep_forgets_first_part_witness:
  "feed (grep_loop 3 ''ab'' 0 [] Exit) [''a'', ''bc'' @ nl] = Some [] \<and> match ''ab'' ''abc''"
  using grep_forgets_first_part [of "''a''" "''bc''" "''ab''" 0] by (simp add: match_def)

end
