(* ===== verification/UserProps.thy ===== *)
theory UserProps
  imports User
begin

text \<open>
  The day of the week that \<^verbatim>\<open>src/date.c\<close> computes, compared with counting the days of the Gregorian calendar one year
  and one month at a time.
\<close>

definition leap :: "nat \<Rightarrow> bool" where
  "leap y \<longleftrightarrow> 4 dvd y \<and> (\<not> 100 dvd y \<or> 400 dvd y)"

definition month_len :: "nat \<Rightarrow> nat \<Rightarrow> nat" where
  "month_len y m = (if m = 2 then if leap y then 29 else 28 else if m \<in> {4, 6, 9, 11} then 30 else 31)"

definition year_len :: "nat \<Rightarrow> nat" where
  "year_len y = (\<Sum>m = 1..<13. month_len y m)"

text \<open>The number of a day, counted from the first of January of the year 1, which was a Monday.\<close>

definition day_number :: "nat \<Rightarrow> nat \<Rightarrow> nat \<Rightarrow> nat" where
  "day_number y m d = (\<Sum>k = 1..<y. year_len k) + (\<Sum>j = 1..<m. month_len y j) + d"

lemma year_len_eq: "year_len y = 365 + of_bool (leap y)"
  by (simp add: year_len_def month_len_def numeral_eq_Suc)

definition leaps :: "nat \<Rightarrow> int" where
  "leaps n = int n div 4 - int n div 100 + int n div 400"

lemma int_div_Suc: "0 < k \<Longrightarrow> int (Suc n) div int k = int n div int k + of_bool (k dvd Suc n)"
  by (simp add: zdiv_int [symmetric] div_Suc dvd_eq_mod_eq_0 flip: of_nat_Suc)

lemma of_bool_leap:
  assumes "C \<Longrightarrow> B" and "B \<Longrightarrow> A"
  shows "of_bool (A \<and> (\<not> B \<or> C)) = of_bool A - of_bool B + (of_bool C :: int)"
  using assms by (cases A; cases B; cases C) auto

lemma leaps_Suc: "leaps (Suc n) = leaps n + of_bool (leap (Suc n))"
proof -
  have "of_bool (leap (Suc n)) = of_bool (4 dvd Suc n) - of_bool (100 dvd Suc n) + (of_bool (400 dvd Suc n) :: int)"
    unfolding leap_def
    by (rule of_bool_leap) (rule dvd_trans [of _ 400], simp, assumption, rule dvd_trans [of _ 100], simp, assumption)
  then show ?thesis
    unfolding leaps_def int_div_Suc [of 4 n, unfolded of_nat_numeral, OF zero_less_numeral]
      int_div_Suc [of 100 n, unfolded of_nat_numeral, OF zero_less_numeral]
      int_div_Suc [of 400 n, unfolded of_nat_numeral, OF zero_less_numeral] by linarith
qed

lemma years_before: "int (\<Sum>k = 1..<Suc n. year_len k) = 365 * int n + leaps n"
proof (induction n)
  case (Suc n)
  have "(\<Sum>k = 1..<Suc (Suc n). year_len k) = (\<Sum>k = 1..<Suc n. year_len k) + year_len (Suc n)" by simp
  then show ?case using Suc by (simp add: leaps_Suc year_len_eq del: sum.op_ivl_Suc)
qed (simp add: leaps_def)

lemma month_cases:
  fixes m :: nat
  assumes "1 \<le> m" and "m \<le> 12"
  shows "m \<in> {1, 2, 3, 4, 5, 6, 7, 8, 9, 10, 11, 12}"
proof -
  have "m \<in> set [1..<13]" using assms by simp
  also have "set [1..<13] = {1, 2, 3, 4, 5, 6, 7, 8, 9, 10, 11, 12::nat}" by (simp add: upt_rec numeral_eq_Suc)
  finally show ?thesis .
qed

lemma month_sums:
  fixes f :: "nat \<Rightarrow> nat"
  shows "sum f {1..<2} = f 1" "sum f {1..<3} = f 1 + f 2" "sum f {1..<4} = f 1 + f 2 + f 3"
    "sum f {1..<5} = f 1 + f 2 + f 3 + f 4" "sum f {1..<6} = f 1 + f 2 + f 3 + f 4 + f 5"
    "sum f {1..<7} = f 1 + f 2 + f 3 + f 4 + f 5 + f 6" "sum f {1..<8} = f 1 + f 2 + f 3 + f 4 + f 5 + f 6 + f 7"
    "sum f {1..<9} = f 1 + f 2 + f 3 + f 4 + f 5 + f 6 + f 7 + f 8"
    "sum f {1..<10} = f 1 + f 2 + f 3 + f 4 + f 5 + f 6 + f 7 + f 8 + f 9"
    "sum f {1..<11} = f 1 + f 2 + f 3 + f 4 + f 5 + f 6 + f 7 + f 8 + f 9 + f 10"
    "sum f {1..<12} = f 1 + f 2 + f 3 + f 4 + f 5 + f 6 + f 7 + f 8 + f 9 + f 10 + f 11"
  by (simp_all add: numeral_eq_Suc)

lemma months_before:
  assumes "1 \<le> m" and "m \<le> 12"
  shows "int (\<Sum>j = 1..<m. month_len y j) =
    (if m \<le> 2 then 31 * (int m - 1)
     else [59, 90, 120, 151, 181, 212, 243, 273, 304, 334] ! (m - 3) + of_bool (leap y))"
proof -
  have "m \<in> {1, 2, 3, 4, 5, 6, 7, 8, 9, 10, 11, 12}" by (rule month_cases [OF assms])
  then show ?thesis unfolding insert_iff empty_iff
    by (elim disjE) (simp_all only: month_sums, simp_all add: month_len_def)
qed

lemma sdiv_nonneg: "0 \<le> a \<Longrightarrow> 0 < b \<Longrightarrow> a sdiv b = a div b" for a b :: int
  by (auto simp: signed_divide_int_def sgn_if)

lemma smod_nonneg: "0 \<le> a \<Longrightarrow> 0 < b \<Longrightarrow> a smod b = a mod b" for a b :: int
  by (cases "a = 0") (simp_all add: signed_modulo_int_def sgn_if)



end
