(* ===== verification/Spec2Isabelle.thy ===== *)
theory Spec2Isabelle
  imports ProcProps FsProps Mkfs FileProps SysProps LifeProps Trap ShellProps Grep UserProps
begin

text \<open>
  \<^bold>\<open>Verification of Yeet-v6.\<close>

  Yeet-v6 is a teaching kernel derived from xv6, in C for the 32-bit x86, with a multi-level feedback queue,
  state lists for its processes, and user and group identities with file modes. The development models the kernel
  and its user programs in the configuration the Makefile builds (\<^verbatim>\<open>CS333_PROJECT = 5\<close>, that is \<^verbatim>\<open>CS333_P1\<close>,
  \<^verbatim>\<open>CS333_P2\<close>, \<^verbatim>\<open>CS333_P3P4\<close>, \<^verbatim>\<open>CS333_P5\<close> and \<^verbatim>\<open>USE_BUILTINS\<close>).

  \<^bold>\<open>How the code is translated.\<close> A routine is a function from the kernel state to an \<open>outcome\<close>: \<open>Ok\<close> with its
  result and the new state, \<open>Panic m\<close> for a call of \<^verbatim>\<open>panic\<close>, \<open>Fault\<close> for a null or unmapped access, \<open>Spin\<close> when it
  does not return. \<open>bnd\<close> sequences such calls. The state is one record per layer, each extending the one below:
  \<open>hw\<close> (locks and CPUs), \<open>ptab\<close> (process table), \<open>kmem\<close> (memory and page allocator), \<open>bcache\<close> (disk and buffers),
  \<open>logst\<close> (log), \<open>icache\<close> (inodes), \<open>conss\<close> (console), \<open>ftab\<close> (open files and pipes), \<open>machine\<close> (the shift state of the
  keyboard). Pointers into a table are indices, with \<open>None\<close> for null; pages and user data are addresses in a byte memory.
  Machine integers keep their width. The first argument \<open>c\<close> of most routines is the CPU that runs them. A
  routine that gives up the CPU returns the state in which the scheduler takes over; a sleep that only another process can
  end is \<open>Spin\<close>, and a sleep for the disk is ended by the modelled interrupt.

  \<^bold>\<open>The theories and the sources they model.\<close>
  \<^item> \<open>Prelude\<close>: integer widths, outcomes, generic lemmas. \<open>Memory\<close>: byte memory, \<^verbatim>\<open>string.c\<close> and the string part of
    \<^verbatim>\<open>ulib.c\<close>. \<open>Ring\<close>: ring buffers with wrapping counters.
  \<^item> \<open>Spinlock\<close>: \<^verbatim>\<open>spinlock.c\<close>, and any number of CPUs interleaving on one lock.
  \<^item> \<open>ProcLists\<close>, \<open>Sched\<close>, \<open>Mlfq\<close>, \<open>Env\<close>, \<open>Samples\<close>, \<open>ProcProps\<close>: the process table, its state lists and the scheduler of
    \<^verbatim>\<open>proc.c\<close>. \<open>ProcLife\<close>, \<open>LifeProps\<close>: creation, fork, exit and wait.
  \<^item> \<open>Kalloc\<close>, \<open>Vm\<close>: \<^verbatim>\<open>kalloc.c\<close> and the page tables of \<^verbatim>\<open>vm.c\<close>.
  \<^item> \<open>Bio\<close>: \<^verbatim>\<open>ide.c\<close> and \<^verbatim>\<open>bio.c\<close>. \<open>Log\<close>: \<^verbatim>\<open>log.c\<close>. \<open>Inode\<close>, \<open>Fs\<close>, \<open>FsProps\<close>: \<^verbatim>\<open>fs.c\<close>. \<open>Mkfs\<close>: the host tool \<^verbatim>\<open>mkfs.c\<close>, as
    definitions only. \<open>File\<close>, \<open>FileProps\<close>: \<^verbatim>\<open>file.c\<close> and
    \<^verbatim>\<open>pipe.c\<close>.
  \<^item> \<open>Console\<close>, \<open>ConsoleProps\<close>: \<^verbatim>\<open>console.c\<close> with the process listings of \<^verbatim>\<open>proc.c\<close>.
  \<^item> \<open>Exec\<close>: \<^verbatim>\<open>exec.c\<close> and the argument functions of \<^verbatim>\<open>syscall.c\<close>. \<open>Sysproc\<close>, \<open>Sysfile\<close>, \<open>SysProps\<close>: \<^verbatim>\<open>sysproc.c\<close> and \<^verbatim>\<open>sysfile.c\<close>.
    \<open>Trap\<close>: \<^verbatim>\<open>trap.c\<close>, the dispatch of \<^verbatim>\<open>syscall.c\<close>, \<^verbatim>\<open>kbd.c\<close> and the interrupt half of \<^verbatim>\<open>uart.c\<close>.
  \<^item> \<open>User\<close>, \<open>UserProps\<close>: \<^verbatim>\<open>printf.c\<close>, the rest of \<^verbatim>\<open>ulib.c\<close> and the small user programs, as trees of system calls that a
    kernel answers. \<open>Shell\<close>, \<open>ShellProps\<close>: \<^verbatim>\<open>sh.c\<close>. \<open>Grep\<close>: \<^verbatim>\<open>grep.c\<close>.

  \<^bold>\<open>Interfaces.\<close> Five locales state what one layer promises the next, each interpreted on the model's own routines:
  \<open>mutex\<close> (acquire and release), \<open>state_queues\<close> (the pointer lists as queues), \<open>page_allocator\<close> (\<^verbatim>\<open>kalloc\<close> and
  \<^verbatim>\<open>kfree\<close>), \<open>block_cache\<close> (\<^verbatim>\<open>bread\<close>, \<^verbatim>\<open>bwrite\<close>, \<^verbatim>\<open>brelse\<close> against the content of blocks), and \<open>ring_buffer\<close> (twice, for the console and
  for pipes). Above them \<open>env c L s\<close> is the invariant of kernel code that holds the locks \<open>L\<close>, \<open>pinv\<close> that of the
  process table, \<open>binv\<close> that of the buffer ring, \<open>opn\<close> that of code inside a transaction, and \<open>file_ok\<close> that of a file on the disk.

  \<^bold>\<open>What the theorems show.\<close>
  \<^item> Locks exclude each other under every interleaving, and the process lists refine queues under append, insertion and
    removal. The scheduler dispatches the best ready process; yield, sleep, wake-up, kill, promotion, allocation and exit keep
    the invariant, with their effect on every list. An exiting process wakes its waiting parent. Theorems also pin down where the code
    departs from its intent: wake-up reaches only the first sleeper, \<^verbatim>\<open>setPriority\<close> has no effect on a ready process, and a failed
    \<^verbatim>\<open>allocproc\<close> breaks the lists.
  \<^item> The page allocator builds and keeps a list of distinct frames; mapping pages changes exactly one entry;
    \<^verbatim>\<open>memmove\<close> copies overlapping ranges.
  \<^item> A block read is the current content of the block, the cache replaces the least recently used buffer, and a
    commit is atomic: a crash after any of its writes leaves, after recovery, all of the transaction or nothing.
  \<^item> A file holds what was written to it, allocation of direct and indirect blocks included; an updated inode is read
    back; the inode cache has one entry per inode and exact counts.
  \<^item> The console editor refines an editor on lists, and a typed line is what a reader receives; formatted output is
    rendered as specified. A pipe delivers bytes in order across the wrap-around of its counters. \<^verbatim>\<open>argptr\<close> accepts exactly the
    ranges inside the process.
  \<^item> The shell's parser accepts exactly a grammar and always terminates; \<^verbatim>\<open>grep\<close>'s matcher agrees with the meaning of its patterns, and
    its loop prints the matching lines; \<^verbatim>\<open>dayofweek\<close> counts days.

  \<^bold>\<open>Fuel.\<close> A loop that is not structural has a bound on its rounds, chosen from its data, and \<open>Spin\<close> beyond it: a list walk
  has the size of the table, a copy loop one round per byte, \<^verbatim>\<open>balloc\<close> one round per bitmap block, the parser a multiple of
  the length of its input. A property about such a loop proves that it returns; none assumes it.

  \<^bold>\<open>Assumptions.\<close> The disk completes every request without an error. A configuration of several CPUs is explored for the locks;
  everything else is the execution of one CPU between the points where it gives up the processor. The room that \<open>opn\<close> asks for,
  seven log entries per block written, is an upper bound that counts every log entry anew although the log absorbs repeated ones.

  \<^bold>\<open>Not modelled.\<close> Assembly (\<^verbatim>\<open>entry.S\<close>, \<^verbatim>\<open>swtch.S\<close>, \<^verbatim>\<open>trapasm.S\<close> and the boot sector), whose effect appears as the context
  switch of \<open>Sched\<close> and the trap frame of \<open>Trap\<close>; \<^verbatim>\<open>main.c\<close>, \<^verbatim>\<open>bootmain.c\<close>, and the start-up of devices (\<^verbatim>\<open>lapic.c\<close>, \<^verbatim>\<open>ioapic.c\<close>,
  \<^verbatim>\<open>picirq.c\<close>, \<^verbatim>\<open>timer.c\<close>, \<^verbatim>\<open>mp.c\<close>, the initialisation of \<^verbatim>\<open>uart.c\<close> and \<^verbatim>\<open>ide.c\<close>, \<^verbatim>\<open>seginit\<close>, \<^verbatim>\<open>tvinit\<close>), which only write device
  registers and descriptor tables; the user allocator \<^verbatim>\<open>umalloc.c\<close>; \<^verbatim>\<open>halt.c\<close> and the
  fragment \<^verbatim>\<open>print_mode.c\<close>; the test programs. Asynchronous interrupts inside a routine are not interleaved with it.
\<close>

end
